(* ===== verification/Prelude.thy ===== *)
theory Prelude
  imports Main "HOL-Library.Word" "HOL-Library.Sublist" "HOL-Library.Multiset"
begin

text \<open>
  Shared vocabulary of the development: the machine types of the Go program, Go errors as
  values, the two result types (value with optional error, and error-or-value), the
  world-passing monad in which the effectful functions are written, and the generic
  transition-system locale whose invariant rule the protocol theories use.
\<close>

named_theorems io_simps \<open>unfolding rules of the effectful combinators\<close>
named_theorems go_str \<open>rewrite rules of the Go string functions\<close>

section \<open>Machine types\<close>

text \<open>
  Go's signed \<open>int64\<close> values are only compared, formatted and parsed by the program, so they
  are \<open>int\<close> with the range predicate \<open>in_int64\<close>. Unsigned 64-bit values take part in
  arithmetic (nonces, gas) and are words, where \<open>+\<close> and \<open>*\<close> wrap around. A \<open>*big.Int\<close> is an
  \<open>int\<close>, or \<open>int option\<close> where the code tests it against nil.
\<close>

type_synonym int64 = int
type_synonym uint64 = "64 word"
type_synonym byte = "8 word"
type_synonym bytes = "byte list"
type_synonym address = "160 word"

definition in_int64 :: "int \<Rightarrow> bool" where
  "in_int64 i \<longleftrightarrow> - (2 ^ 63) \<le> i \<and> i < 2 ^ 63"

text \<open>Go's \<open>%\<close> truncates towards zero: the remainder takes the sign of the dividend.\<close>

definition go_rem :: "int \<Rightarrow> int \<Rightarrow> int" where
  "go_rem a b = (if a < 0 then - ((- a) mod \<bar>b\<bar>) else a mod \<bar>b\<bar>)"

section \<open>Go errors\<close>

text \<open>
  A leaf error has its text and, when its dynamic type implements them, the values of the
  go-ethereum interfaces \<open>rpc.Error\<close> (the JSON-RPC code) and \<open>rpc.DataError\<close> (the attached
  data; the inner option is None when the data is not a string). \<open>fmt.Errorf\<close> with a final
  \<open>%w\<close> verb, the only wrapping form the program uses, prepends a prefix and keeps the chain.
  A panic is not an error value, but it leaves a function the same way: \<open>GoPanic\<close> stands for it
  and is only ever the outcome of a function that the source makes panic.
\<close>

datatype go_error =
    GoErr string "int option" "string option option"
  | ErrWrap string go_error
  | GoPanic string

abbreviation errorsNew :: "string \<Rightarrow> go_error" where
  "errorsNew msg \<equiv> GoErr msg None None"

fun err_Error :: "go_error \<Rightarrow> string" where
  "err_Error (GoErr msg _ _) = msg"
| "err_Error (ErrWrap pre e) = pre @ err_Error e"
| "err_Error (GoPanic msg) = msg"

fun errors_As_rpc :: "go_error \<Rightarrow> int option" where
  "errors_As_rpc (GoErr _ c _) = c"
| "errors_As_rpc (ErrWrap _ e) = errors_As_rpc e"
| "errors_As_rpc (GoPanic _) = None"

fun errors_As_data :: "go_error \<Rightarrow> string option option" where
  "errors_As_data (GoErr _ _ d) = d"
| "errors_As_data (ErrWrap _ e) = errors_As_data e"
| "errors_As_data (GoPanic _) = None"

section \<open>Effectful functions\<close>

text \<open>
  An effectful function takes the world and returns its value and the new world. \<open>bindE\<close> is
  the idiom \<open>x, err := f(); if err != nil { return err }\<close>.
\<close>

type_synonym ('w, 'a) io = "'w \<Rightarrow> 'a \<times> 'w"
type_synonym ('w, 'a) eio = "'w \<Rightarrow> (go_error + 'a) \<times> 'w"

definition ret :: "'a \<Rightarrow> ('w, 'a) io" where
  "ret x = (\<lambda>w. (x, w))"

definition bindI :: "('w, 'a) io \<Rightarrow> ('a \<Rightarrow> ('w, 'b) io) \<Rightarrow> ('w, 'b) io" where
  "bindI m f = (\<lambda>w. case m w of (x, w') \<Rightarrow> f x w')"

definition retE :: "'a \<Rightarrow> ('w, 'a) eio" where
  "retE x = (\<lambda>w. (Inr x, w))"

definition failE :: "go_error \<Rightarrow> ('w, 'a) eio" where
  "failE e = (\<lambda>w. (Inl e, w))"

definition liftE :: "go_error + 'a \<Rightarrow> ('w, 'a) eio" where
  "liftE r = (\<lambda>w. (r, w))"

definition bindE :: "('w, 'a) eio \<Rightarrow> ('a \<Rightarrow> ('w, 'b) eio) \<Rightarrow> ('w, 'b) eio" where
  "bindE m f = (\<lambda>w. case m w of (Inl e, w') \<Rightarrow> (Inl e, w') | (Inr x, w') \<Rightarrow> f x w')"

lemmas io_defs [io_simps] = ret_def bindI_def retE_def failE_def liftE_def bindE_def

lemma bindE_Inr_iff:
  "bindE m f w = (Inr y, w'') \<longleftrightarrow> (\<exists>x w'. m w = (Inr x, w') \<and> f x w' = (Inr y, w''))"
  by (auto simp: bindE_def split: prod.splits sum.splits)

lemma bindE_Inl_iff:
  "bindE m f w = (Inl e, w'') \<longleftrightarrow>
     m w = (Inl e, w'') \<or> (\<exists>x w'. m w = (Inr x, w') \<and> f x w' = (Inl e, w''))"
  by (auto simp: bindE_def split: prod.splits sum.splits)

lemma retE_iff [simp]: "retE x w = (r, w') \<longleftrightarrow> r = Inr x \<and> w' = w"
  by (auto simp: retE_def)

lemma failE_iff [simp]: "failE e w = (r, w') \<longleftrightarrow> r = Inl e \<and> w' = w"
  by (auto simp: failE_def)

lemma liftE_iff [simp]: "liftE r w = (r', w') \<longleftrightarrow> r' = r \<and> w' = w"
  by (auto simp: liftE_def)

lemma bindE_retE [simp]: "bindE (retE x) f = f x"
  by (simp add: bindE_def retE_def)

lemma bindE_failE [simp]: "bindE (failE e) f = failE e"
  by (simp add: bindE_def failE_def)

lemma retE_liftE: "retE x = liftE (Inr x)"
  by (simp add: retE_def liftE_def)

lemma bindE_assoc: "bindE (bindE m f) g = bindE m (\<lambda>x. bindE (f x) g)"
  by (rule ext) (simp add: bindE_def split: prod.splits sum.splits)

section \<open>Traces that only grow\<close>

text \<open>
  Every effect of the program appends to the trace of external calls. \<open>extends\<close> says that a
  function only appends; it composes along \<open>bindE\<close>.
\<close>

definition extends :: "('w \<Rightarrow> 'e list) \<Rightarrow> ('w, 'a) io \<Rightarrow> bool" where
  "extends tr m \<longleftrightarrow> (\<forall>w. prefix (tr w) (tr (snd (m w))))"

lemma extends_D: "extends tr m \<Longrightarrow> m w = (x, w') \<Longrightarrow> prefix (tr w) (tr w')"
  unfolding extends_def by (metis snd_conv)

lemma extends_ret [intro, simp]:
  "extends tr (ret x)" "extends tr (retE y)" "extends tr (failE e)" "extends tr (liftE r)"
  by (simp_all add: extends_def io_simps)

lemma extends_bindE [intro]:
  assumes "extends tr m" "\<And>x. extends tr (f x)"
  shows "extends tr (bindE m f)"
  unfolding extends_def
proof
  fix w
  obtain r w' where m: "m w = (r, w')" by fastforce
  with assms(1) have 1: "prefix (tr w) (tr w')" by (rule extends_D)
  show "prefix (tr w) (tr (snd (bindE m f w)))"
  proof (cases r)
    case (Inl e)
    with m 1 show ?thesis by (simp add: bindE_def)
  next
    case (Inr x)
    from assms(2)[of x] have "prefix (tr w') (tr (snd (f x w')))"
      unfolding extends_def by blast
    with 1 m Inr show ?thesis by (simp add: bindE_def)
  qed
qed

lemma extends_bindI [intro]:
  assumes "extends tr m" "\<And>x. extends tr (f x)"
  shows "extends tr (bindI m f)"
  unfolding extends_def
proof
  fix w
  obtain x w' where m: "m w = (x, w')" by fastforce
  with assms(1) have 1: "prefix (tr w) (tr w')" by (rule extends_D)
  from assms(2)[of x] have "prefix (tr w') (tr (snd (f x w')))"
    unfolding extends_def by blast
  with 1 m show "prefix (tr w) (tr (snd (bindI m f w)))" by (simp add: bindI_def)
qed

section \<open>Transition systems with an invariant\<close>

locale transition_system =
  fixes init :: "'s \<Rightarrow> bool"
    and step :: "'s \<Rightarrow> 's \<Rightarrow> bool"
begin

inductive reach :: "'s \<Rightarrow> bool" where
  reach_init: "init s \<Longrightarrow> reach s"
| reach_step: "reach s \<Longrightarrow> step s t \<Longrightarrow> reach t"

lemma reach_steps: "reach s \<Longrightarrow> step\<^sup>*\<^sup>* s t \<Longrightarrow> reach t"
  by (rotate_tac, induction rule: rtranclp_induct) (auto intro: reach_step)

end

locale invariant_system = transition_system init step
  for init :: "'s \<Rightarrow> bool" and step :: "'s \<Rightarrow> 's \<Rightarrow> bool" +
  fixes inv :: "'s \<Rightarrow> bool"
  assumes inv_init: "init s \<Longrightarrow> inv s"
    and inv_step: "inv s \<Longrightarrow> step s t \<Longrightarrow> inv t"
begin

lemma reach_inv: "reach s \<Longrightarrow> inv s"
  by (induction rule: reach.induct) (auto intro: inv_init inv_step)

lemma steps_inv: "inv s \<Longrightarrow> step\<^sup>*\<^sup>* s t \<Longrightarrow> inv t"
  by (rotate_tac, induction rule: rtranclp_induct) (auto intro: inv_step)

end

section \<open>Generic lemmas\<close>

lemma go_rem_bound: "0 < b \<Longrightarrow> - b < go_rem a b \<and> go_rem a b < b"
  by (simp add: go_rem_def) (smt (verit) pos_mod_bound pos_mod_sign)

text \<open>The usual wrap \<open>((v % n) + n) % n\<close> of a truncated remainder is the Euclidean one.\<close>

lemma go_rem_wrap: "0 < n \<Longrightarrow> go_rem (go_rem v n + n) n = v mod n"
proof -
  assume n: "0 < n"
  then have "\<not> go_rem v n + n < 0" using go_rem_bound[of n v] by linarith
  then have "go_rem (go_rem v n + n) n = (go_rem v n + n) mod n"
    using n by (simp add: go_rem_def)
  also have "\<dots> = go_rem v n mod n" by simp
  also have "\<dots> = v mod n"
  proof (cases "v < 0")
    case True
    then have "go_rem v n mod n = (- ((- v) mod n)) mod n" using n by (simp add: go_rem_def)
    also have "\<dots> = (- (- v)) mod n" by (rule mod_minus_eq)
    finally show ?thesis by simp
  qed (use n in \<open>simp add: go_rem_def\<close>)
  finally show ?thesis .
qed

lemma prefix_refl_trans: "prefix a b \<Longrightarrow> prefix b c \<Longrightarrow> prefix a c"
  by (rule prefix_order.trans)

section \<open>Repeated calls and round-robin\<close>

text \<open>The results of \<open>k\<close> calls one after the other.\<close>

primrec calls :: "('s \<Rightarrow> 'r \<times> 's) \<Rightarrow> nat \<Rightarrow> 's \<Rightarrow> 'r list" where
  "calls m 0 s = []"
| "calls m (Suc k) s = (case m s of (r, t) \<Rightarrow> r # calls m k t)"

lemma distinct_count_list: "distinct xs \<Longrightarrow> x \<in> set xs \<Longrightarrow> count_list xs x = 1"
  by (induction xs) (auto simp: count_list_0_iff)

lemma residues_once:
  assumes "j < n"
  shows "count_list (map (\<lambda>i. (c + int i) mod int n) [0..<n]) (int j) = 1"
proof (rule distinct_count_list)
  let ?f = "\<lambda>i. (c + int i) mod int n"
  have inj: "inj_on ?f {0..<n}"
  proof
    fix x y assume xy: "x \<in> {0..<n}" "y \<in> {0..<n}" "?f x = ?f y"
    then have "(int x) mod int n = (int y) mod int n"
      by (metis add_diff_cancel_left' mod_diff_left_eq)
    with xy(1,2) show "x = y" by simp
  qed
  then show "distinct (map ?f [0..<n])" by (simp add: distinct_map)
  have "?f ` {0..<n} = {0..<int n}"
  proof (rule card_subset_eq)
    show "?f ` {0..<n} \<subseteq> {0..<int n}" using assms by auto
    show "card (?f ` {0..<n}) = card {0..<int n}" using card_image [OF inj] by simp
  qed simp
  with assms show "int j \<in> set (map ?f [0..<n])" by auto
qed

lemma residues_fair:
  assumes "j < n"
  shows "count_list (map (\<lambda>i. (c + int i) mod int n) [0..<r * n]) (int j) = r"
proof (induction r)
  case 0
  then show ?case by simp
next
  case (Suc r)
  let ?f = "\<lambda>i. (c + int i) mod int n"
  have "[0..<Suc r * n] = [0..<r * n] @ map (\<lambda>i. r * n + i) [0..<n]"
    using upt_add_eq_append [of 0 "r * n" n] map_add_upt [of "r * n" n]
    by (simp add: add.commute)
  moreover have "map ?f (map (\<lambda>i. r * n + i) [0..<n]) = map ?f [0..<n]"
  proof (simp add: comp_def, intro ballI)
    fix i
    have "c + (int r * int n + int i) = c + int i + int r * int n" by simp
    then show "(c + (int r * int n + int i)) mod int n = (c + int i) mod int n"
      by (metis mod_mult_self1)
  qed
  ultimately have "map ?f [0..<Suc r * n] = map ?f [0..<r * n] @ map ?f [0..<n]"
    by (simp only: map_append)
  then show ?case using Suc.IH residues_once [OF assms, of c] by (simp only: count_list_append)
qed

text \<open>
  A round-robin source over \<open>n\<close> slots: while it has \<open>room\<close> for a call, a call returns the cursor
  modulo \<open>n\<close> and moves the cursor one step on the circle.
\<close>

locale round_robin =
  fixes nxt :: "'s \<Rightarrow> (go_error + int) \<times> 's"
    and cursor :: "'s \<Rightarrow> int"
    and n :: nat
    and room :: "nat \<Rightarrow> 's \<Rightarrow> bool"
  assumes n_pos: "0 < n"
    and nxt_law: "room (Suc k) s \<Longrightarrow> \<exists>t. nxt s = (Inr (cursor s mod int n), t)
      \<and> cursor t mod int n = (cursor s + 1) mod int n \<and> room k t"
begin

lemma calls_eq:
  "room k s \<Longrightarrow> calls nxt k s = map (\<lambda>i. Inr ((cursor s + int i) mod int n)) [0..<k]"
proof (induction k arbitrary: s)
  case 0
  then show ?case by simp
next
  case (Suc k)
  from nxt_law [OF Suc.prems] obtain t where t: "nxt s = (Inr (cursor s mod int n), t)"
    "cursor t mod int n = (cursor s + 1) mod int n" "room k t" by blast
  have "(cursor t + int i) mod int n = (cursor s + int (Suc i)) mod int n" for i
    using t(2) by (metis add.assoc add.commute mod_add_left_eq of_nat_Suc)
  then have "calls nxt k t = map (\<lambda>i. Inr ((cursor s + int (Suc i)) mod int n)) [0..<k]"
    using Suc.IH [OF t(3)] by simp
  with t(1) show ?case
    by (simp add: upt_conv_Cons map_Suc_upt [symmetric] comp_def del: upt_Suc)
qed

lemma fair: "room (r * n) s \<Longrightarrow> j < n \<Longrightarrow> count_list (calls nxt (r * n) s) (Inr (int j)) = r"
proof -
  assume "room (r * n) s" "j < n"
  then have "calls nxt (r * n) s = map Inr (map (\<lambda>i. (cursor s + int i) mod int n) [0..<r * n])"
    by (simp add: calls_eq)
  moreover have "count_list (map Inr xs) (Inr x :: go_error + int) = count_list xs x" for xs x
    by (induction xs) auto
  ultimately show ?thesis using residues_fair [OF \<open>j < n\<close>] by metis
qed

end

section \<open>Caches filled on first use\<close>

text \<open>
  An operation that returns a cached value when there is one and otherwise computes and stores
  it; a failure stores nothing.
\<close>

locale lazy_cache =
  fixes cached :: "'w \<Rightarrow> 'v option"
    and load :: "('w, 'v) eio"
  assumes hit: "cached w = Some v \<Longrightarrow> load w = (Inr v, w)"
    and filled: "load w = (Inr v, w') \<Longrightarrow> cached w' = Some v"
    and failed: "load w = (Inl e, w') \<Longrightarrow> cached w = None \<and> cached w' = None"
begin

lemma load_again: "load w = (Inr v, w') \<Longrightarrow> load w' = (Inr v, w')"
  using hit [OF filled] .

lemma load_agrees: "load w = (Inr v, w') \<Longrightarrow> cached u = cached w' \<Longrightarrow> load u = (Inr v, u)"
proof -
  assume r: "load w = (Inr v, w')" and "cached u = cached w'"
  then have "cached u = Some v" using filled [OF r] by simp
  then show ?thesis by (rule hit)
qed

lemma hit_iff: "cached w = Some v \<Longrightarrow> load w = (r, w') \<Longrightarrow> r = Inr v \<and> w' = w"
  using hit [of w v] by auto

end

end
