(* ===== verification/GoStrings.thy ===== *)
theory GoStrings
  imports Prelude
begin

text \<open>
  The parts of Go's \<open>strings\<close>, \<open>strconv\<close> and \<open>fmt\<close> packages the program uses. A Go string is a
  sequence of bytes, as is \<open>string\<close> here. Where a library function works on Unicode code
  points (white space, case mapping), the UTF-8 encodings are written out. The case mappings
  are exact on every code point whose image is ASCII and leave other bytes alone: their
  results are only ever compared with ASCII text.
\<close>

section \<open>strings\<close>

abbreviation HasPrefix :: "string \<Rightarrow> string \<Rightarrow> bool" where
  "HasPrefix s p \<equiv> prefix p s"

text \<open>The UTF-8 encodings of the code points \<open>unicode.IsSpace\<close> accepts.\<close>

definition spaceRunes :: "string list" where
  "spaceRunes =
    [[CHR 0x09], [CHR 0x0A], [CHR 0x0B], [CHR 0x0C], [CHR 0x0D], [CHR 0x20],
     [CHR 0xC2, CHR 0x85], [CHR 0xC2, CHR 0xA0], [CHR 0xE1, CHR 0x9A, CHR 0x80],
     [CHR 0xE2, CHR 0x80, CHR 0x80], [CHR 0xE2, CHR 0x80, CHR 0x81], [CHR 0xE2, CHR 0x80, CHR 0x82],
     [CHR 0xE2, CHR 0x80, CHR 0x83], [CHR 0xE2, CHR 0x80, CHR 0x84], [CHR 0xE2, CHR 0x80, CHR 0x85],
     [CHR 0xE2, CHR 0x80, CHR 0x86], [CHR 0xE2, CHR 0x80, CHR 0x87], [CHR 0xE2, CHR 0x80, CHR 0x88],
     [CHR 0xE2, CHR 0x80, CHR 0x89], [CHR 0xE2, CHR 0x80, CHR 0x8A], [CHR 0xE2, CHR 0x80, CHR 0xA8],
     [CHR 0xE2, CHR 0x80, CHR 0xA9], [CHR 0xE2, CHR 0x80, CHR 0xAF], [CHR 0xE2, CHR 0x81, CHR 0x9F],
     [CHR 0xE3, CHR 0x80, CHR 0x80]]"

lemma spaceRunes_nonempty: "r \<in> set spaceRunes \<Longrightarrow> r \<noteq> []"
  by (auto simp: spaceRunes_def)

function TrimLeft :: "string \<Rightarrow> string" where
  "TrimLeft s = (case find (\<lambda>r. prefix r s) spaceRunes of
     None \<Rightarrow> s
   | Some r \<Rightarrow> TrimLeft (drop (length r) s))"
  by pat_completeness auto
termination
proof (relation "measure length")
  fix s r
  assume f: "find (\<lambda>r. prefix r s) spaceRunes = Some r"
  then have "r \<in> set spaceRunes" and p: "prefix r s"
    by (auto simp: find_Some_iff)
  then have "r \<noteq> []" using spaceRunes_nonempty by blast
  with p show "(drop (length r) s, s) \<in> measure length"
    by (cases s) auto
qed simp

function TrimRight :: "string \<Rightarrow> string" where
  "TrimRight s = (case find (\<lambda>r. suffix r s) spaceRunes of
     None \<Rightarrow> s
   | Some r \<Rightarrow> TrimRight (take (length s - length r) s))"
  by pat_completeness auto
termination
proof (relation "measure length")
  fix s r
  assume f: "find (\<lambda>r. suffix r s) spaceRunes = Some r"
  then have "r \<in> set spaceRunes" and p: "suffix r s"
    by (auto simp: find_Some_iff)
  then have "r \<noteq> []" using spaceRunes_nonempty by blast
  moreover have "length r \<le> length s" using p by (rule suffix_length_le)
  ultimately show "(take (length s - length r) s, s) \<in> measure length"
    by (cases r) auto
qed simp

declare TrimLeft.simps [simp del] TrimRight.simps [simp del]

definition TrimSpace :: "string \<Rightarrow> string" where
  "TrimSpace s = TrimRight (TrimLeft s)"

definition TrimPrefix :: "string \<Rightarrow> string \<Rightarrow> string" where
  "TrimPrefix s p = (if prefix p s then drop (length p) s else s)"

fun Contains :: "string \<Rightarrow> string \<Rightarrow> bool" where
  "Contains [] sub = (sub = [])"
| "Contains (c # s) sub = (prefix sub (c # s) \<or> Contains s sub)"

fun IndexByte :: "string \<Rightarrow> char \<Rightarrow> nat option" where
  "IndexByte [] c = None"
| "IndexByte (x # s) c = (if x = c then Some 0 else map_option Suc (IndexByte s c))"

fun LastIndexByte :: "string \<Rightarrow> char \<Rightarrow> nat option" where
  "LastIndexByte [] c = None"
| "LastIndexByte (x # s) c =
     (case LastIndexByte s c of Some i \<Rightarrow> Some (Suc i) | None \<Rightarrow> if x = c then Some 0 else None)"

definition isUpper :: "char \<Rightarrow> bool" where
  "isUpper c \<longleftrightarrow> 65 \<le> (of_char c :: nat) \<and> (of_char c :: nat) \<le> 90"

definition isLower :: "char \<Rightarrow> bool" where
  "isLower c \<longleftrightarrow> 97 \<le> (of_char c :: nat) \<and> (of_char c :: nat) \<le> 122"

definition isDigit :: "char \<Rightarrow> bool" where
  "isDigit c \<longleftrightarrow> 48 \<le> (of_char c :: nat) \<and> (of_char c :: nat) \<le> 57"

definition lowerByte :: "char \<Rightarrow> char" where
  "lowerByte c = (if isUpper c then char_of (of_char c + (32 :: nat)) else c)"

definition upperByte :: "char \<Rightarrow> char" where
  "upperByte c = (if isLower c then char_of (of_char c - (32 :: nat)) else c)"

text \<open>U+0130 and U+212A are the non-ASCII code points whose lower case is ASCII.\<close>

fun ToLower :: "string \<Rightarrow> string" where
  "ToLower [] = []"
| "ToLower (c # s) =
     (if prefix [CHR 0xC4, CHR 0xB0] (c # s) then CHR ''i'' # ToLower (drop 1 s)
      else if prefix [CHR 0xE2, CHR 0x84, CHR 0xAA] (c # s) then CHR ''k'' # ToLower (drop 2 s)
      else lowerByte c # ToLower s)"

text \<open>U+0131 and U+017F are the non-ASCII code points whose upper case is ASCII.\<close>

fun ToUpper :: "string \<Rightarrow> string" where
  "ToUpper [] = []"
| "ToUpper (c # s) =
     (if prefix [CHR 0xC4, CHR 0xB1] (c # s) then CHR ''I'' # ToUpper (drop 1 s)
      else if prefix [CHR 0xC5, CHR 0xBF] (c # s) then CHR ''S'' # ToUpper (drop 1 s)
      else upperByte c # ToUpper s)"

text \<open>Simple case folding: U+212A folds with k, U+017F with s.\<close>

fun foldCase :: "string \<Rightarrow> string" where
  "foldCase [] = []"
| "foldCase (c # s) =
     (if prefix [CHR 0xE2, CHR 0x84, CHR 0xAA] (c # s) then CHR ''k'' # foldCase (drop 2 s)
      else if prefix [CHR 0xC5, CHR 0xBF] (c # s) then CHR ''s'' # foldCase (drop 1 s)
      else lowerByte c # foldCase s)"

definition EqualFold :: "string \<Rightarrow> string \<Rightarrow> bool" where
  "EqualFold s t \<longleftrightarrow> foldCase s = foldCase t"

section \<open>strconv and big.Int text\<close>

fun decNat :: "nat \<Rightarrow> string" where
  "decNat n = (if n < 10 then [char_of (48 + n)] else decNat (n div 10) @ [char_of (48 + n mod 10)])"

declare decNat.simps [simp del]

definition FormatInt :: "int \<Rightarrow> string" where
  "FormatInt i = (if i < 0 then CHR ''-'' # decNat (nat (- i)) else decNat (nat i))"

definition digitVal :: "char \<Rightarrow> nat option" where
  "digitVal c = (let l = lowerByte c in
     if isDigit c then Some (of_char c - 48)
     else if isLower l then Some (of_char l - 97 + 10)
     else None)"

fun digitsVal :: "nat \<Rightarrow> string \<Rightarrow> nat \<Rightarrow> nat option" where
  "digitsVal b [] acc = Some acc"
| "digitsVal b (c # s) acc =
     (case digitVal c of
        None \<Rightarrow> None
      | Some d \<Rightarrow> if d < b then digitsVal b s (acc * b + d) else None)"

text \<open>
  \<open>(*big.Int).SetString(s, base)\<close> for base 10 or 16: an optional sign and at least one digit.
\<close>

definition SetString :: "string \<Rightarrow> nat \<Rightarrow> int option" where
  "SetString s b =
     (let neg = prefix ''-'' s;
          t = (if prefix ''-'' s \<or> prefix ''+'' s then drop 1 s else s)
      in if t = [] then None
         else map_option (\<lambda>n. if neg then - int n else int n) (digitsVal b t 0))"

text \<open>\<open>strconv.ParseInt(s, base, 64)\<close>: the same syntax, with the 64-bit range checked.\<close>

definition ParseInt :: "string \<Rightarrow> nat \<Rightarrow> int64 option" where
  "ParseInt s b = (case SetString s b of Some i \<Rightarrow> if in_int64 i then Some i else None | None \<Rightarrow> None)"

abbreviation Atoi :: "string \<Rightarrow> int64 option" where
  "Atoi s \<equiv> ParseInt s 10"

text \<open>
  The \<open>%q\<close> verb on ASCII text (bytes from 0x80 on are left as they are).
\<close>

fun quoteByte :: "char \<Rightarrow> string" where
  "quoteByte c =
     (if c = CHR 0x22 then [CHR 0x5C, CHR 0x22]
      else if c = CHR 0x5C then [CHR 0x5C, CHR 0x5C]
      else if c = CHR 0x07 then [CHR 0x5C, CHR ''a'']
      else if c = CHR 0x08 then [CHR 0x5C, CHR ''b'']
      else if c = CHR 0x0C then [CHR 0x5C, CHR ''f'']
      else if c = CHR 0x0A then [CHR 0x5C, CHR ''n'']
      else if c = CHR 0x0D then [CHR 0x5C, CHR ''r'']
      else if c = CHR 0x09 then [CHR 0x5C, CHR ''t'']
      else if c = CHR 0x0B then [CHR 0x5C, CHR ''v'']
      else if of_char c < (32 :: nat) \<or> c = CHR 0x7F then
        [CHR 0x5C, CHR ''x'', ''0123456789abcdef'' ! (of_char c div 16), ''0123456789abcdef'' ! (of_char c mod 16)]
      else [c])"

definition Quote :: "string \<Rightarrow> string" where
  "Quote s = [CHR 0x22] @ concat (map quoteByte s) @ [CHR 0x22]"

section \<open>Lemmas\<close>

subsection \<open>Trimming\<close>

definition spaceFree :: "string \<Rightarrow> bool" where
  "spaceFree s \<longleftrightarrow> (\<forall>r \<in> set spaceRunes. \<not> prefix r s \<and> \<not> suffix r s)"

lemma TrimLeft_id: "(\<And>r. r \<in> set spaceRunes \<Longrightarrow> \<not> prefix r s) \<Longrightarrow> TrimLeft s = s"
  by (subst TrimLeft.simps) (auto split: option.splits simp: find_Some_iff)

lemma TrimRight_id: "(\<And>r. r \<in> set spaceRunes \<Longrightarrow> \<not> suffix r s) \<Longrightarrow> TrimRight s = s"
  by (subst TrimRight.simps) (auto split: option.splits simp: find_Some_iff)

lemma TrimLeft_suffix: "suffix (TrimLeft s) s"
proof (induction s rule: TrimLeft.induct)
  case (1 s)
  show ?case
  proof (cases "find (\<lambda>r. prefix r s) spaceRunes")
    case None
    then show ?thesis by (simp add: TrimLeft.simps [of s])
  next
    case (Some r)
    with "1.IH" have "suffix (TrimLeft (drop (length r) s)) (drop (length r) s)" by blast
    then have "suffix (TrimLeft (drop (length r) s)) s"
      using suffix_drop suffix_order.trans by blast
    with Some show ?thesis by (simp add: TrimLeft.simps [of s])
  qed
qed

lemma TrimLeft_no_prefix: "r \<in> set spaceRunes \<Longrightarrow> \<not> prefix r (TrimLeft s)"
proof (induction s rule: TrimLeft.induct)
  case (1 s)
  show ?case
  proof (cases "find (\<lambda>r. prefix r s) spaceRunes")
    case None
    then have "TrimLeft s = s" by (intro TrimLeft_id) (simp add: find_None_iff)
    with None "1.prems" show ?thesis by (simp add: find_None_iff)
  next
    case (Some r')
    with "1" show ?thesis by (simp add: TrimLeft.simps [of s])
  qed
qed

lemma TrimRight_prefix: "prefix (TrimRight s) s"
proof (induction s rule: TrimRight.induct)
  case (1 s)
  show ?case
  proof (cases "find (\<lambda>r. suffix r s) spaceRunes")
    case None
    then show ?thesis by (simp add: TrimRight.simps [of s])
  next
    case (Some r)
    let ?t = "take (length s - length r) s"
    from "1.IH" Some have "prefix (TrimRight ?t) ?t" by blast
    then have "prefix (TrimRight ?t) s"
      using take_is_prefix prefix_order.trans by blast
    with Some show ?thesis by (simp add: TrimRight.simps [of s])
  qed
qed

lemma TrimRight_no_suffix: "r \<in> set spaceRunes \<Longrightarrow> \<not> suffix r (TrimRight s)"
proof (induction s rule: TrimRight.induct)
  case (1 s)
  show ?case
  proof (cases "find (\<lambda>r. suffix r s) spaceRunes")
    case None
    then have "TrimRight s = s" by (intro TrimRight_id) (simp add: find_None_iff)
    with None "1.prems" show ?thesis by (simp add: find_None_iff)
  next
    case (Some r')
    with "1" show ?thesis by (simp add: TrimRight.simps [of s])
  qed
qed

lemma TrimSpace_id: "spaceFree s \<Longrightarrow> TrimSpace s = s"
  unfolding TrimSpace_def spaceFree_def by (metis TrimLeft_id TrimRight_id)

lemma TrimSpace_spaceFree: "spaceFree (TrimSpace s)"
  unfolding spaceFree_def TrimSpace_def
proof (intro ballI conjI)
  fix r assume r: "r \<in> set spaceRunes"
  show "\<not> prefix r (TrimRight (TrimLeft s))"
    using TrimLeft_no_prefix [OF r] TrimRight_prefix prefix_order.trans by blast
  show "\<not> suffix r (TrimRight (TrimLeft s))"
    using TrimRight_no_suffix [OF r] .
qed

lemma TrimSpace_idem [simp, go_str]: "TrimSpace (TrimSpace s) = TrimSpace s"
  by (rule TrimSpace_id) (rule TrimSpace_spaceFree)

lemma TrimSpace_Nil [simp, go_str]: "TrimSpace [] = []"
  by (rule TrimSpace_id) (auto simp: spaceFree_def spaceRunes_def)

lemma TrimSpace_sublist: "\<exists>a b. s = a @ TrimSpace s @ b"
proof -
  obtain a where "s = a @ TrimLeft s" using TrimLeft_suffix [of s] by (auto elim: suffixE)
  moreover obtain b where "TrimLeft s = TrimSpace s @ b"
    unfolding TrimSpace_def using TrimRight_prefix by (auto elim: prefixE)
  ultimately show ?thesis by metis
qed

text \<open>A text of visible ASCII characters has nothing to trim.\<close>

definition visible :: "char \<Rightarrow> bool" where
  "visible c \<longleftrightarrow> 33 \<le> (of_char c :: nat) \<and> (of_char c :: nat) \<le> 126"

lemma spaceRunes_invisible: "r \<in> set spaceRunes \<Longrightarrow> \<exists>c \<in> set r. \<not> visible c"
  by (auto simp: spaceRunes_def visible_def)

lemma visible_spaceFree: "(\<forall>c \<in> set s. visible c) \<Longrightarrow> spaceFree s"
  unfolding spaceFree_def
  by (metis spaceRunes_invisible set_mono_prefix set_mono_suffix subsetD)

lemma TrimSpace_visible: "(\<forall>c \<in> set s. visible c) \<Longrightarrow> TrimSpace s = s"
  by (simp add: visible_spaceFree TrimSpace_id)

subsection \<open>Searching\<close>

lemma Contains_iff: "Contains s sub \<longleftrightarrow> (\<exists>a b. s = a @ sub @ b)"
proof (induction s)
  case Nil
  then show ?case by auto
next
  case (Cons c s)
  show ?case
  proof
    assume "Contains (c # s) sub"
    then consider "prefix sub (c # s)" | "Contains s sub" by auto
    then show "\<exists>a b. c # s = a @ sub @ b"
    proof cases
      case 1
      then show ?thesis by (metis append_Nil prefixE)
    next
      case 2
      with Cons.IH show ?thesis by (metis append_Cons)
    qed
  next
    assume "\<exists>a b. c # s = a @ sub @ b"
    then obtain a b where ab: "c # s = a @ sub @ b" by blast
    show "Contains (c # s) sub"
    proof (cases a)
      case Nil
      with ab have "prefix sub (c # s)" by simp
      then show ?thesis by simp
    next
      case (Cons x a')
      with ab Cons.IH show ?thesis by auto
    qed
  qed
qed

lemma Contains_appendI1: "Contains s sub \<Longrightarrow> Contains (s @ t) sub"
  by (auto simp: Contains_iff) (metis append.assoc)

lemma Contains_appendI2: "Contains t sub \<Longrightarrow> Contains (s @ t) sub"
  by (auto simp: Contains_iff) (metis append.assoc)

lemma LastIndexByte_None: "LastIndexByte s c = None \<longleftrightarrow> c \<notin> set s"
  by (induction s) (auto split: option.splits)

lemma LastIndexByte_Some:
  "LastIndexByte s c = Some i \<Longrightarrow> i < length s \<and> s ! i = c \<and> c \<notin> set (drop (Suc i) s)"
  by (induction s arbitrary: i) (auto split: option.splits if_splits simp: LastIndexByte_None)

subsection \<open>Decimal and hexadecimal text\<close>

lemma digit_char [simp]: "n < 10 \<Longrightarrow> of_char (char_of (48 + n) :: char) = (48 + n :: nat)"
  by (simp add: String.of_char_of)

lemma isDigit_digit_char [simp]: "n < 10 \<Longrightarrow> isDigit (char_of (48 + n :: nat))"
  by (simp add: isDigit_def)

lemma digitVal_digit_char [simp]: "n < 10 \<Longrightarrow> digitVal (char_of (48 + n :: nat)) = Some n"
  by (simp add: digitVal_def)

lemma decNat_digits: "c \<in> set (decNat n) \<Longrightarrow> isDigit c"
proof (induction n rule: decNat.induct)
  case (1 n)
  show ?case
  proof (cases "n < 10")
    case True
    with "1.prems" show ?thesis by (simp add: decNat.simps [of n])
  next
    case False
    with "1.prems" "1.IH" show ?thesis by (auto simp: decNat.simps [of n])
  qed
qed

lemma decNat_nonempty [simp]: "decNat n \<noteq> []"
  by (subst decNat.simps) simp

lemma digitsVal_append:
  "digitsVal b (s @ t) acc = (case digitsVal b s acc of Some n \<Rightarrow> digitsVal b t n | None \<Rightarrow> None)"
  by (induction s arbitrary: acc) (auto split: option.splits)

lemma digitsVal_decNat: "digitsVal 10 (decNat n) 0 = Some n"
proof (induction n rule: decNat.induct)
  case (1 n)
  show ?case
  proof (cases "n < 10")
    case True
    then show ?thesis by (simp add: decNat.simps [of n])
  next
    case False
    with "1.IH" have "digitsVal 10 (decNat (n div 10)) 0 = Some (n div 10)" by simp
    with False show ?thesis by (simp add: decNat.simps [of n] digitsVal_append)
  qed
qed

lemma decNat_no_sign: "\<not> prefix ''-'' (decNat n)" "\<not> prefix ''+'' (decNat n)"
proof -
  obtain c t where ct: "decNat n = c # t" by (meson decNat_nonempty neq_Nil_conv)
  then have "isDigit c" by (metis decNat_digits list.set_intros(1))
  then have "c \<noteq> CHR ''-''" "c \<noteq> CHR ''+''" by (auto simp: isDigit_def)
  with ct show "\<not> prefix ''-'' (decNat n)" "\<not> prefix ''+'' (decNat n)" by auto
qed

lemma SetString_FormatInt [simp, go_str]: "SetString (FormatInt i) 10 = Some i"
proof (cases "i < 0")
  case True
  then show ?thesis by (simp add: SetString_def FormatInt_def digitsVal_decNat)
next
  case False
  then show ?thesis
    using decNat_no_sign [of "nat i"]
    by (simp add: SetString_def FormatInt_def digitsVal_decNat del: prefix_Cons)
qed

lemma ParseInt_FormatInt [simp, go_str]:
  "ParseInt (FormatInt i) 10 = (if in_int64 i then Some i else None)"
  by (simp add: ParseInt_def)

lemma FormatInt_inj: "FormatInt i = FormatInt j \<Longrightarrow> i = j"
  by (metis SetString_FormatInt option.inject)

lemma FormatInt_nonempty [simp]: "FormatInt i \<noteq> []"
  by (simp add: FormatInt_def)

lemma FormatInt_chars: "c \<in> set (FormatInt i) \<Longrightarrow> isDigit c \<or> c = CHR ''-''"
  by (auto simp: FormatInt_def dest: decNat_digits split: if_splits)

lemma TrimSpace_FormatInt [simp, go_str]: "TrimSpace (FormatInt i) = FormatInt i"
proof (rule TrimSpace_visible, rule ballI)
  fix c assume "c \<in> set (FormatInt i)"
  then have "isDigit c \<or> c = CHR ''-''" by (rule FormatInt_chars)
  then show "visible c" by (auto simp: isDigit_def visible_def)
qed

subsection \<open>Case mapping\<close>

definition isASCII :: "char \<Rightarrow> bool" where
  "isASCII c \<longleftrightarrow> of_char c < (128 :: nat)"

lemma isASCII_not_lead [simp]:
  "\<not> isASCII (CHR 0xC4)" "\<not> isASCII (CHR 0xE2)" "\<not> isASCII (CHR 0x84)" "\<not> isASCII (CHR 0xC5)"
  by (simp_all add: isASCII_def)

lemma ToLower_append:
  "p = [] \<or> isASCII (last p) \<Longrightarrow> ToLower (p @ m) = ToLower p @ ToLower m"
proof (induction p rule: ToLower.induct)
  case 1
  then show ?case by simp
next
  case (2 c s)
  have l: "isASCII (last (c # s))" using "2.prems" by simp
  show ?case
  proof (cases s)
    case Nil
    with l have "isASCII c" by simp
    then have "c \<noteq> CHR 0xC4" "c \<noteq> CHR 0xE2" by auto
    with Nil show ?thesis by simp
  next
    case (Cons d s')
    show ?thesis
    proof (cases s')
      case Nil
      with l Cons have "isASCII d" by simp
      then have "d \<noteq> CHR 0x84" "d \<noteq> CHR 0xC4" "d \<noteq> CHR 0xE2" by auto
      with "2.IH" Cons Nil l show ?thesis by (auto split: if_splits)
    next
      case (Cons e s'')
      with \<open>s = d # s'\<close> "2.IH" l show ?thesis by (auto split: if_splits)
    qed
  qed
qed

lemma lowerByte_ASCII: "isASCII c \<Longrightarrow> isASCII (lowerByte c)"
  by (auto simp: isASCII_def lowerByte_def isUpper_def)

end
