(* ===== verification/Ethereum.thy ===== *)
theory Ethereum
  imports GoStrings
begin

text \<open>
  The go-ethereum data the program builds and reads, and the record \<open>geth\<close> of the pure
  go-ethereum functions it calls. The library is not part of the repository: \<open>geth\<close> is a
  parameter of every definition that calls into it, and a theorem that needs a documented law
  of a function states it as a hypothesis.
\<close>

text \<open>The secp256k1 scalar that determines an \<open>ecdsa.PrivateKey\<close>.\<close>

type_synonym privkey = nat

text \<open>Values the ABI layer packs and unpacks (\<open>any\<close> in the Go signatures).\<close>

datatype abival =
    VAddress address
  | VUint int
  | VUint8 byte
  | VBytes bytes
  | VBytes32 bytes
  | VList "abival list"
  | VTuple "abival list"

text \<open>The Go type that unpacking yields, for the message of the failed type assertion.\<close>

fun goType :: "abival \<Rightarrow> string" where
  "goType (VAddress _) = ''common.Address''"
| "goType (VUint _) = ''*big.Int''"
| "goType (VUint8 _) = ''uint8''"
| "goType (VBytes _) = ''[]uint8''"
| "goType (VBytes32 _) = ''[32]uint8''"
| "goType (VList _) = ''[]interface {}''"
| "goType (VTuple _) = ''struct {}''"

text \<open>The two transaction forms \<open>evm.SignAndSend\<close> builds.\<close>

datatype tx =
    DynamicFeeTx (dtx_ChainID: int) (tx_Nonce: uint64) (dtx_GasTipCap: "int option")
      (dtx_GasFeeCap: int) (tx_Gas: uint64) (tx_To: address) (tx_Value: int) (tx_Data: bytes)
  | LegacyTx (tx_Nonce: uint64) (ltx_GasPrice: "int option") (tx_Gas: uint64) (tx_To: address)
      (tx_Value: int) (tx_Data: bytes)

type_synonym signed_tx = "tx \<times> bytes"

text \<open>A transaction sent through \<open>bind.BoundContract.Transact\<close>, by its hash.\<close>

type_synonym txhash = string

record tx_log =
  log_Topics :: "bytes list"

record tx_receipt =
  rcpt_Status :: uint64
  rcpt_GasUsed :: uint64
  rcpt_EffectiveGasPrice :: "int option"
  rcpt_Logs :: "tx_log list"

record callmsg =
  msg_From :: address
  msg_To :: address
  msg_Value :: "int option"
  msg_Data :: bytes

text \<open>
  \<open>userop.PackedUserOp\<close>, the tuple \<open>EntryPoint.handleOps\<close> takes, with the field order of the
  ABI.
\<close>

record PackedUserOp =
  op_Sender :: address
  op_Nonce :: int
  op_InitCode :: bytes
  op_CallData :: bytes
  op_CallGasLimit :: int
  op_VerificationGasLimit :: int
  op_PreVerificationGas :: int
  op_MaxFeePerGas :: int
  op_MaxPriorityFeePerGas :: int
  op_PaymasterAndData :: bytes
  op_Signature :: bytes

text \<open>The fields of \<open>bind.TransactOpts\<close> the program sets.\<close>

record transactopts =
  opts_From :: address
  opts_ChainID :: int
  opts_Nonce :: uint64
  opts_Value :: "int option"

text \<open>
  \<open>apitypes.TypedData\<close>: the two struct types with their fields, the primary type, the domain and
  the message.
\<close>

record typed_data =
  td_domainTypes :: "(string \<times> string) list"
  td_name :: string
  td_version :: string
  td_chainId :: int
  td_contract :: string
  td_types :: "(string \<times> string) list"
  td_primary :: string
  td_message :: "(string \<times> string) list"

record geth =
  hexutil_Decode :: "string \<Rightarrow> string + bytes"
  hexutil_EncodeUint64 :: "uint64 \<Rightarrow> string"
  abi_UnpackRevert :: "bytes \<Rightarrow> string option"
  abi_Pack :: "string \<Rightarrow> abival list \<Rightarrow> go_error + bytes"
  abi_EventID :: "string \<Rightarrow> bytes"
  common_IsHexAddress :: "string \<Rightarrow> bool"
  common_HexToAddress :: "string \<Rightarrow> address"
  address_Hex :: "address \<Rightarrow> string"
  common_BytesToAddress :: "bytes \<Rightarrow> address"
  crypto_Keccak256 :: "bytes \<Rightarrow> bytes"
  crypto_CreateAddress2 :: "address \<Rightarrow> bytes \<Rightarrow> bytes \<Rightarrow> address"
  crypto_HexToECDSA :: "string \<Rightarrow> go_error + privkey"
  crypto_PubkeyToAddress :: "privkey \<Rightarrow> address"
  crypto_Sign :: "bytes \<Rightarrow> privkey \<Rightarrow> go_error + bytes"
  accounts_TextHash :: "bytes \<Rightarrow> bytes"
  apitypes_TypedDataAndHash :: "typed_data \<Rightarrow> go_error + bytes"
  bind_NewKeyedTransactor :: "privkey \<Rightarrow> int \<Rightarrow> go_error + transactopts"
  types_SignTx :: "int \<Rightarrow> privkey \<Rightarrow> tx \<Rightarrow> go_error + signed_tx"
  signed_Hash :: "signed_tx \<Rightarrow> txhash"

text \<open>The bytes of a Go string, as the conversion \<open>[]byte(s)\<close> gives them.\<close>

definition bytes_of :: "string \<Rightarrow> bytes" where
  "bytes_of s = map of_char s"

lemma length_bytes_of [simp]: "length (bytes_of s) = length s"
  by (simp add: bytes_of_def)

end
