(* ===== verification/Regexp.thy ===== *)
theory Regexp
  imports GoStrings
begin

text \<open>
  What the program uses of \<open>regexp\<close>: a pattern of literals, digits, word boundaries, groups,
  alternatives and counted repetitions, its parser, and \<open>FindStringSubmatch\<close> with the
  leftmost-first semantics of the library. A pattern has at most one group.
\<close>

section \<open>Syntax\<close>

datatype regexp =
    RegEmpty
  | RegLiteral char
  | RegDigit
  | RegWordBoundary
  | RegConcat regexp regexp
  | RegAlternate regexp regexp
  | RegRepeat regexp nat
  | RegCapture regexp

definition backslash :: char where
  "backslash = CHR 0x5C"

text \<open>The count of a repetition, with what follows it; a repetition without a count is once.\<close>

definition parseCount :: "string \<Rightarrow> (nat \<times> string) option" where
  "parseCount s =
     (if prefix ''{'' s then
        (let ds = takeWhile isDigit (tl s); rest = dropWhile isDigit (tl s) in
         if prefix ''}'' rest then map_option (\<lambda>n. (n, tl rest)) (digitsVal 10 ds 0) else None)
      else Some (1, s))"

text \<open>Alternatives, sequences and atoms, each with the rest of the pattern; the number bounds the depth.\<close>

fun parseAlternate :: "nat \<Rightarrow> string \<Rightarrow> (regexp \<times> string) option"
  and parseConcat :: "nat \<Rightarrow> string \<Rightarrow> (regexp \<times> string) option"
  and parseAtom :: "nat \<Rightarrow> string \<Rightarrow> (regexp \<times> string) option"
where
  "parseAlternate 0 s = None"
| "parseAlternate (Suc n) s =
     (case parseConcat n s of
        None \<Rightarrow> None
      | Some (r, t) \<Rightarrow>
          if prefix ''|'' t then map_option (\<lambda>(r', u). (RegAlternate r r', u)) (parseAlternate n (tl t))
          else Some (r, t))"
| "parseConcat 0 s = None"
| "parseConcat (Suc n) s =
     (if s = [] \<or> prefix ''|'' s \<or> prefix '')'' s then Some (RegEmpty, s)
      else case parseAtom n s of
        None \<Rightarrow> None
      | Some (a, t) \<Rightarrow>
          (case parseCount t of
             None \<Rightarrow> None
           | Some (k, u) \<Rightarrow>
               map_option (\<lambda>(r, v). (RegConcat (if k = 1 then a else RegRepeat a k) r, v)) (parseConcat n u)))"
| "parseAtom 0 s = None"
| "parseAtom (Suc n) s =
     (if prefix ''('' s then
        (case parseAlternate n (tl s) of
           Some (r, t) \<Rightarrow> if prefix '')'' t then Some (RegCapture r, tl t) else None
         | None \<Rightarrow> None)
      else if prefix [backslash, CHR ''b''] s then Some (RegWordBoundary, drop 2 s)
      else if prefix [backslash, CHR ''d''] s then Some (RegDigit, drop 2 s)
      else (case s of
          c # t \<Rightarrow> if c \<in> set ''{}[]*+?.^$'' \<or> c = backslash then None else Some (RegLiteral c, t)
        | [] \<Rightarrow> None))"

definition Compile :: "string \<Rightarrow> regexp option" where
  "Compile p = (case parseAlternate (3 * length p + 3) p of Some (r, []) \<Rightarrow> Some r | _ \<Rightarrow> None)"

section \<open>Semantics\<close>

text \<open>The word characters of \<open>\b\<close>.\<close>

definition isWord :: "char \<Rightarrow> bool" where
  "isWord c \<longleftrightarrow> isUpper c \<or> isLower c \<or> isDigit c \<or> c = CHR ''_''"

definition atBoundary :: "string \<Rightarrow> nat \<Rightarrow> bool" where
  "atBoundary s i \<longleftrightarrow> (0 < i \<and> isWord (s ! (i - 1))) \<noteq> (i < length s \<and> isWord (s ! i))"

text \<open>
  The ways to match from a position of \<open>s\<close>, in the order in which a backtracking search prefers
  them: where each ends, and what the group has captured.
\<close>

type_synonym match_state = "nat \<times> (nat \<times> nat) option"

primrec ways :: "string \<Rightarrow> regexp \<Rightarrow> match_state \<Rightarrow> match_state list" where
  "ways s RegEmpty st = [st]"
| "ways s (RegLiteral c) st = (if fst st < length s \<and> s ! fst st = c then [(Suc (fst st), snd st)] else [])"
| "ways s RegDigit st = (if fst st < length s \<and> isDigit (s ! fst st) then [(Suc (fst st), snd st)] else [])"
| "ways s RegWordBoundary st = (if atBoundary s (fst st) then [st] else [])"
| "ways s (RegConcat a b) st = concat (map (ways s b) (ways s a st))"
| "ways s (RegAlternate a b) st = ways s a st @ ways s b st"
| "ways s (RegRepeat a n) st = ((\<lambda>sts. concat (map (ways s a) sts)) ^^ n) [st]"
| "ways s (RegCapture a) st = map (\<lambda>st'. (fst st', Some (fst st, fst st'))) (ways s a st)"

definition slice :: "string \<Rightarrow> nat \<times> nat \<Rightarrow> string" where
  "slice s = (\<lambda>(i, j). take (j - i) (drop i s))"

text \<open>The match and its group, or None.\<close>

definition FindStringSubmatch :: "regexp \<Rightarrow> string \<Rightarrow> string list option" where
  "FindStringSubmatch re s =
     map_option (\<lambda>i. case hd (ways s re (i, None)) of (j, g) \<Rightarrow>
         [slice s (i, j), case g of Some ij \<Rightarrow> slice s ij | None \<Rightarrow> []])
       (find (\<lambda>i. ways s re (i, None) \<noteq> []) [0..<Suc (length s)])"

section \<open>Sequences\<close>

text \<open>Matching a sequence consumes its atoms one after the other.\<close>

lemma ways_concat [simp]:
  "ways s (RegConcat RegEmpty r) st = ways s r st"
  "ways s (RegConcat (RegLiteral c) r) (i, g) = (if i < length s \<and> s ! i = c then ways s r (Suc i, g) else [])"
  "ways s (RegConcat RegDigit r) (i, g) = (if i < length s \<and> isDigit (s ! i) then ways s r (Suc i, g) else [])"
  "ways s (RegConcat RegWordBoundary r) (i, g) = (if atBoundary s i then ways s r (i, g) else [])"
  by auto

lemma ways_repeat_digits [simp]:
  "ways s (RegConcat (RegRepeat RegDigit 2) r) (i, g) =
     (if Suc i < length s \<and> isDigit (s ! i) \<and> isDigit (s ! Suc i) then ways s r (Suc (Suc i), g) else [])"
  by (auto simp: numeral_2_eq_2)

lemma ways_capture:
  "ways s (RegConcat (RegCapture a) r) (i, g) = concat (map (\<lambda>st. ways s r (fst st, Some (i, fst st))) (ways s a (i, g)))"
  by (simp add: comp_def)

end
