(* ===== verification/TxError.thy ===== *)
theory TxError
  imports Ethereum Regexp
begin

text \<open>
  \<open>internal/platform/txerror\<close>: the classification of transaction and RPC failures, and the
  response helpers of \<open>internal/platform/httpx\<close> that expose it over HTTP.
\<close>

section \<open>Data\<close>

datatype Category =
    CategoryRevert
  | CategoryInsufficientFunds
  | CategoryNonce
  | CategoryNetwork
  | CategoryTimeout
  | CategoryServer
  | CategoryUnknown

fun categoryString :: "Category \<Rightarrow> string" where
  "categoryString CategoryRevert = ''REVERT''"
| "categoryString CategoryInsufficientFunds = ''INSUFFICIENT_FUNDS''"
| "categoryString CategoryNonce = ''NONCE''"
| "categoryString CategoryNetwork = ''NETWORK''"
| "categoryString CategoryTimeout = ''TIMEOUT''"
| "categoryString CategoryServer = ''SERVER''"
| "categoryString CategoryUnknown = ''UNKNOWN''"

record Normalized =
  n_Status :: int
  n_RPCCode :: int
  n_Category :: Category
  n_Code :: string
  n_NativeCode :: string
  n_Reason :: string
  n_TxHash :: string
  n_Retryable :: bool
  n_Message :: string

definition revertMessages :: "(string \<times> string) list" where
  "revertMessages =
    [(''AC001'', ''caller is not EntryPoint''),
     (''AC004'', ''target call failed''),
     (''AC005'', ''native transfer failed''),
     (''AC006'', ''beneficiary not set''),
     (''AC007'', ''insufficient ERC20 balance''),
     (''AC008'', ''ERC20 transfer failed''),
     (''AC009'', ''forwarding disabled''),
     (''AC010'', ''signature verification failed''),
     (''EP001'', ''insufficient deposit''),
     (''EP003'', ''insufficient gas balance''),
     (''EP011'', ''account not deployed''),
     (''PM006'', ''insufficient token balance''),
     (''PM007'', ''insufficient token allowance'')]"

section \<open>Operations\<close>

text \<open>The text of the pattern.\<close>

definition revertPattern :: string where
  "revertPattern = [backslash] @ ''b(AC0'' @ [backslash] @ ''d{2}|EP0'' @ [backslash] @ ''d{2}|PM0'' @ [backslash] @ ''d{2})''
     @ [backslash] @ ''b''"

text \<open>
  A scanner for the pattern \<open>\b(AC0\d{2}|EP0\d{2}|PM0\d{2})\b\<close>: \<open>isRevertCode\<close> is the group,
  \<open>matchHere\<close> the group with the boundary after it, and \<open>revertCodeRe\<close> the leftmost match,
  where the flag says whether the byte before is a word character.
\<close>

fun isRevertCode :: "string \<Rightarrow> bool" where
  "isRevertCode [a, b, z, d1, d2] =
     ([a, b] \<in> {''AC'', ''EP'', ''PM''} \<and> z = CHR ''0'' \<and> isDigit d1 \<and> isDigit d2)"
| "isRevertCode _ = False"

definition matchHere :: "string \<Rightarrow> bool" where
  "matchHere s \<longleftrightarrow> isRevertCode (take 5 s) \<and> (case drop 5 s of [] \<Rightarrow> True | c # _ \<Rightarrow> \<not> isWord c)"

fun revertCodeRe :: "bool \<Rightarrow> string \<Rightarrow> string option" where
  "revertCodeRe prevWord [] = None"
| "revertCodeRe prevWord (c # s) =
     (if \<not> prevWord \<and> matchHere (c # s) then Some (take 5 (c # s)) else revertCodeRe (isWord c) s)"

fun tx_firstNonEmpty :: "string list \<Rightarrow> string" where
  "tx_firstNonEmpty [] = []"
| "tx_firstNonEmpty (v # vs) = (if v \<noteq> [] then v else tx_firstNonEmpty vs)"

definition extractRPC :: "geth \<Rightarrow> go_error \<Rightarrow> string \<times> int" where
  "extractRPC g err =
     (case errors_As_data err of
        Some (Some data) \<Rightarrow>
          (case hexutil_Decode g data of
             Inr b \<Rightarrow> (case abi_UnpackRevert g b of Some r \<Rightarrow> r | None \<Rightarrow> [])
           | Inl _ \<Rightarrow> [])
      | _ \<Rightarrow> [],
      case errors_As_rpc err of Some c \<Rightarrow> c | None \<Rightarrow> 0)"

definition extractRevertCode :: "string \<Rightarrow> string \<Rightarrow> string" where
  "extractRevertCode reason msg =
     (if reason \<noteq> [] \<and> map_of revertMessages reason \<noteq> None then reason
      else case revertCodeRe False reason of
        Some m \<Rightarrow> m
      | None \<Rightarrow> (case revertCodeRe False msg of Some m \<Rightarrow> m | None \<Rightarrow> []))"

definition Normalize :: "geth \<Rightarrow> go_error option \<Rightarrow> Normalized option" where
  "Normalize g err = (case err of None \<Rightarrow> None | Some e \<Rightarrow> Some
    (let msg = err_Error e;
         (reason, rpcCode) = extractRPC g e;
         revertCode = extractRevertCode reason msg;
         base = tx_firstNonEmpty [reason, msg];
         low = ToLower (msg @ '' '' @ reason);
         norm = (\<lambda>st cat code retry. \<lparr>n_Status = st, n_RPCCode = rpcCode, n_Category = cat,
                  n_Code = code, n_NativeCode = [], n_Reason = [], n_TxHash = [],
                  n_Retryable = retry, n_Message = base\<rparr>)
     in
      if revertCode \<noteq> [] \<or> Contains low ''execution reverted'' then
        \<lparr>n_Status = 422, n_RPCCode = rpcCode, n_Category = CategoryRevert,
         n_Code = (if revertCode = [] then ''CALL_EXCEPTION'' else revertCode),
         n_NativeCode = ''CALL_EXCEPTION'',
         n_Reason = tx_firstNonEmpty [reason, revertCode], n_TxHash = [],
         n_Retryable = False,
         n_Message = (case map_of revertMessages revertCode of Some rm \<Rightarrow> rm | None \<Rightarrow> base)\<rparr>
      else if Contains low ''insufficient funds'' then
        norm 422 CategoryInsufficientFunds ''INSUFFICIENT_FUNDS'' False
      else if Contains low ''nonce'' \<or> Contains low ''replacement transaction underpriced'' then
        norm 409 CategoryNonce ''BUNDLER_NONCE_CONFLICT'' True
      else if Contains low ''timeout'' \<or> Contains low ''deadline exceeded'' then
        norm 503 CategoryTimeout ''RPC_TIMEOUT'' True
      else if Contains low ''connection refused'' \<or> Contains low ''connection reset'' \<or>
              Contains low ''no such host'' \<or> Contains low ''eof'' then
        norm 503 CategoryNetwork ''RPC_NETWORK_ERROR'' True
      else if rpcCode \<le> -32000 \<and> rpcCode \<ge> -32099 then
        norm 503 CategoryServer ''RPC_SERVER_ERROR'' True
      else
        norm 500 CategoryUnknown ''BUNDLER_SEND_FAILED'' True))"

section \<open>httpx\<close>

text \<open>
  A response is a status and a body: an error text (\<open>{"error": msg}\<close>), a classified failure,
  or the handler's own result.
\<close>

datatype 'r http_body = ErrBody string | TxErrBody Normalized | OkBody 'r

type_synonym 'r http_response = "int \<times> 'r http_body"

definition WriteJSON :: "int \<Rightarrow> 'r http_body \<Rightarrow> 'r http_response" where
  "WriteJSON status v = (status, v)"

definition WriteValidationError :: "string \<Rightarrow> 'r http_response" where
  "WriteValidationError msg = WriteJSON 400 (ErrBody msg)"

definition WriteTxError :: "geth \<Rightarrow> go_error option \<Rightarrow> 'r http_response" where
  "WriteTxError g err = (case Normalize g err of
     None \<Rightarrow> WriteJSON 500 (ErrBody ''unknown error'')
   | Some n \<Rightarrow> WriteJSON (n_Status n) (TxErrBody n))"

section \<open>The regular expression against its reading\<close>

text \<open>The declarative reading of the pattern: a revert code at position \<open>i\<close> between boundaries.\<close>

definition codeAt :: "string \<Rightarrow> nat \<Rightarrow> bool" where
  "codeAt s i \<longleftrightarrow> isRevertCode (take 5 (drop i s)) \<and> (i = 0 \<or> \<not> isWord (s ! (i - 1)))
     \<and> (i + 5 \<ge> length s \<or> \<not> isWord (s ! (i + 5)))"

lemma isRevertCode_length: "isRevertCode s \<Longrightarrow> length s = 5"
  by (cases s rule: isRevertCode.cases) auto

lemma isRevertCode_take: "isRevertCode (take 5 s) \<Longrightarrow> 5 \<le> length s"
  by (drule isRevertCode_length) simp

lemma matchHere_iff:
  "matchHere s \<longleftrightarrow> isRevertCode (take 5 s) \<and> (5 \<ge> length s \<or> \<not> isWord (s ! 5))"
proof (cases "drop 5 s")
  case Nil
  then show ?thesis by (simp add: matchHere_def)
next
  case (Cons c t)
  then have "5 < length s" by (metis drop_eq_Nil linorder_not_less list.distinct(1))
  with Cons have "s ! 5 = c" by (metis Cons_nth_drop_Suc list.inject)
  with Cons \<open>5 < length s\<close> show ?thesis by (simp add: matchHere_def)
qed

lemma codeAt_0: "codeAt s 0 \<longleftrightarrow> matchHere s"
  by (auto simp: codeAt_def matchHere_iff)

lemma codeAt_Suc:
  "codeAt (c # s) (Suc i) \<longleftrightarrow>
     (if i = 0 then \<not> isWord c \<and> matchHere s else codeAt s i)"
  by (cases i) (auto simp: codeAt_def matchHere_iff)

lemma revertCodeRe_find:
  "revertCodeRe pw s =
     map_option (\<lambda>i. take 5 (drop i s))
       (find (\<lambda>i. codeAt s i \<and> (i = 0 \<longrightarrow> \<not> pw)) [0..<length s])"
proof (induction s arbitrary: pw)
  case Nil
  then show ?case by simp
next
  case (Cons c s)
  have up: "[0..<length (c # s)] = 0 # map Suc [0..<length s]"
    by (simp add: upt_conv_Cons map_Suc_upt del: upt_Suc)
  have comp: "((\<lambda>i. codeAt (c # s) i \<and> (i = 0 \<longrightarrow> \<not> pw)) \<circ> Suc)
      = (\<lambda>i. codeAt s i \<and> (i = 0 \<longrightarrow> \<not> isWord c))"
    by (auto simp: fun_eq_iff codeAt_Suc codeAt_0)
  have find_map: "find P (map Suc xs) = map_option Suc (find (P \<circ> Suc) xs)" for P xs
    by (induction xs) auto
  show ?case
  proof (cases "\<not> pw \<and> matchHere (c # s)")
    case True
    then show ?thesis unfolding up by (simp add: codeAt_0)
  next
    case False
    then have "revertCodeRe pw (c # s) = revertCodeRe (isWord c) s" by auto
    moreover have "find (\<lambda>i. codeAt (c # s) i \<and> (i = 0 \<longrightarrow> \<not> pw)) [0..<length (c # s)]
        = map_option Suc (find (\<lambda>i. codeAt s i \<and> (i = 0 \<longrightarrow> \<not> isWord c)) [0..<length s])"
      using False unfolding up by (auto simp: codeAt_0 find_map comp)
    ultimately show ?thesis
      using Cons.IH [of "isWord c"] by (simp add: option.map_comp comp_def)
  qed
qed

lemma revertCodeRe_None:
  "revertCodeRe False s = None \<longleftrightarrow> (\<forall>i < length s. \<not> codeAt s i)"
  by (auto simp: revertCodeRe_find find_None_iff)

lemma revertCodeRe_Some:
  "revertCodeRe False s = Some c \<Longrightarrow> isRevertCode c"
  by (auto simp: revertCodeRe_find find_Some_iff codeAt_def)

lemma codeAt_bound: "codeAt s i \<Longrightarrow> i < length s"
  unfolding codeAt_def by (metis drop_all isRevertCode.simps(2) linorder_not_less take_Nil)

lemma codeAt_append:
  assumes "codeAt m i" "p = [] \<or> \<not> isWord (last p)"
  shows "codeAt (p @ m) (length p + i)"
proof -
  have b: "length p + i = 0 \<or> \<not> isWord ((p @ m) ! (length p + i - 1))"
  proof (cases "i = 0")
    case True
    with assms(2) show ?thesis by (auto simp: nth_append last_conv_nth)
  next
    case False
    then have "length p + i - 1 = length p + (i - 1)" by simp
    then have "(p @ m) ! (length p + i - 1) = m ! (i - 1)"
      by (metis nth_append_length_plus)
    with assms(1) False show ?thesis by (simp add: codeAt_def)
  qed
  have "(p @ m) ! (length p + i + 5) = m ! (i + 5)"
    by (metis add.assoc nth_append_length_plus)
  then show ?thesis
    using assms(1) b unfolding codeAt_def by simp
qed

lemma revertCodeRe_prefixed:
  assumes "revertCodeRe False m \<noteq> None" "p = [] \<or> \<not> isWord (last p)"
  shows "revertCodeRe False (p @ m) \<noteq> None"
proof -
  from assms(1) obtain i where "codeAt m i" by (auto simp: revertCodeRe_None)
  then have c: "codeAt (p @ m) (length p + i)" using assms(2) by (rule codeAt_append)
  then have "length p + i < length (p @ m)" by (rule codeAt_bound)
  with c show ?thesis using revertCodeRe_None by blast
qed

section \<open>Lemmas on the classification\<close>

lemma revertMessages_codes: "map_of revertMessages k = Some v \<Longrightarrow> isRevertCode k"
  by (drule map_of_SomeD) (auto simp: revertMessages_def isDigit_def)

lemma extractRevertCode_code:
  "extractRevertCode reason msg \<noteq> [] \<Longrightarrow> isRevertCode (extractRevertCode reason msg)"
  by (auto simp: extractRevertCode_def dest: revertMessages_codes revertCodeRe_Some
      split: option.splits if_splits)

lemma extractRPC_wrap [simp]: "extractRPC g (ErrWrap p e) = extractRPC g e"
  by (simp add: extractRPC_def)

lemma isWord_space [simp]: "\<not> isWord CHR '' ''"
  by (simp add: isWord_def isUpper_def isLower_def isDigit_def)

text \<open>
  The verdict of \<open>Normalize\<close> without the texts: which failures are final. \<open>revertish\<close> is the
  guard of its first branch.
\<close>

definition revertish :: "geth \<Rightarrow> go_error \<Rightarrow> bool" where
  "revertish g e \<longleftrightarrow>
     extractRevertCode (fst (extractRPC g e)) (err_Error e) \<noteq> [] \<or>
     Contains (ToLower (err_Error e @ '' '' @ fst (extractRPC g e))) ''execution reverted''"

definition fundless :: "geth \<Rightarrow> go_error \<Rightarrow> bool" where
  "fundless g e \<longleftrightarrow>
     Contains (ToLower (err_Error e @ '' '' @ fst (extractRPC g e))) ''insufficient funds''"

lemma Normalize_Some: "\<exists>n. Normalize g (Some e) = Some n"
  by (simp add: Normalize_def)

lemma Normalize_retryable:
  "Normalize g (Some e) = Some n \<Longrightarrow> n_Retryable n \<longleftrightarrow> \<not> revertish g e \<and> \<not> fundless g e"
  unfolding Normalize_def revertish_def fundless_def
  by (cases "extractRPC g e") (auto simp: Let_def split: if_splits)

lemma Contains_ToLower_prefixed:
  assumes "Contains (ToLower m) pat" "p = [] \<or> isASCII (last p)"
  shows "Contains (ToLower (p @ m)) pat"
  using assms by (simp add: ToLower_append Contains_appendI2)

lemma revertish_wrap:
  assumes "revertish g e" "p = [] \<or> (isASCII (last p) \<and> \<not> isWord (last p))"
  shows "revertish g (ErrWrap p e)"
proof -
  let ?r = "fst (extractRPC g e)"
  from assms(1) consider "extractRevertCode ?r (err_Error e) \<noteq> []"
    | "Contains (ToLower (err_Error e @ '' '' @ ?r)) ''execution reverted''"
    unfolding revertish_def by blast
  then show ?thesis
  proof cases
    case 1
    have "revertCodeRe False (p @ err_Error e) \<noteq> None" if "revertCodeRe False (err_Error e) \<noteq> None"
      using that assms(2) by (intro revertCodeRe_prefixed) auto
    with 1 have "extractRevertCode ?r (p @ err_Error e) \<noteq> []"
      unfolding extractRevertCode_def
      by (auto split: option.splits if_splits dest: revertCodeRe_Some)
    then show ?thesis by (simp add: revertish_def)
  next
    case 2
    then have "Contains (ToLower (p @ err_Error e @ '' '' @ ?r)) ''execution reverted''"
      using assms(2) by (blast intro: Contains_ToLower_prefixed)
    then show ?thesis by (simp add: revertish_def)
  qed
qed

lemma fundless_wrap:
  "fundless g e \<Longrightarrow> p = [] \<or> isASCII (last p) \<Longrightarrow> fundless g (ErrWrap p e)"
  unfolding fundless_def using Contains_ToLower_prefixed by fastforce

section \<open>Properties\<close>

text \<open>The README's error contract as a table: status and retryability of each category.\<close>

fun contract_row :: "Category \<Rightarrow> int \<times> bool" where
  "contract_row CategoryRevert = (422, False)"
| "contract_row CategoryInsufficientFunds = (422, False)"
| "contract_row CategoryNonce = (409, True)"
| "contract_row CategoryTimeout = (503, True)"
| "contract_row CategoryNetwork = (503, True)"
| "contract_row CategoryServer = (503, True)"
| "contract_row CategoryUnknown = (500, True)"

fun contract_code :: "Category \<Rightarrow> string \<Rightarrow> bool" where
  "contract_code CategoryRevert c = (c = ''CALL_EXCEPTION'' \<or> isRevertCode c)"
| "contract_code CategoryInsufficientFunds c = (c = ''INSUFFICIENT_FUNDS'')"
| "contract_code CategoryNonce c = (c = ''BUNDLER_NONCE_CONFLICT'')"
| "contract_code CategoryTimeout c = (c = ''RPC_TIMEOUT'')"
| "contract_code CategoryNetwork c = (c = ''RPC_NETWORK_ERROR'')"
| "contract_code CategoryServer c = (c = ''RPC_SERVER_ERROR'')"
| "contract_code CategoryUnknown c = (c = ''BUNDLER_SEND_FAILED'')"

lemma Normalize_rows:
  "\<exists>n. Normalize g (Some e) = Some n
     \<and> (n_Status n, n_Retryable n) = contract_row (n_Category n)
     \<and> contract_code (n_Category n) (n_Code n)"
proof -
  obtain reason rpc where x: "extractRPC g e = (reason, rpc)" by fastforce
  show ?thesis
    using extractRevertCode_code [of reason "err_Error e"]
    by (simp add: Normalize_def x Let_def)
qed

text \<open>
  C15: every non-nil error is classified, and the classification is a row of the README's error
  contract: status and retryability are those of the category, and the code is the category's
  code (for a revert, an AC0dd/EP0dd/PM0dd code or CALL_EXCEPTION).
\<close>

theorem Normalize_contract:
  "\<exists>n. Normalize g (Some e) = Some n
     \<and> (n_Status n, n_Retryable n) = contract_row (n_Category n)
     \<and> contract_code (n_Category n) (n_Code n)"
  by (rule Normalize_rows)

text \<open>The pattern as a tree.\<close>

abbreviation (input) revertBranch :: "char \<Rightarrow> char \<Rightarrow> regexp" where
  "revertBranch a b \<equiv> RegConcat (RegLiteral a) (RegConcat (RegLiteral b) (RegConcat (RegLiteral (CHR ''0''))
     (RegConcat (RegRepeat RegDigit 2) RegEmpty)))"

abbreviation (input) revertTree :: regexp where
  "revertTree \<equiv> RegConcat RegWordBoundary (RegConcat (RegCapture (RegAlternate (revertBranch (CHR ''A'') (CHR ''C''))
     (RegAlternate (revertBranch (CHR ''E'') (CHR ''P'')) (revertBranch (CHR ''P'') (CHR ''M'')))))
     (RegConcat RegWordBoundary RegEmpty))"

lemma Compile_revertPattern: "Compile revertPattern = Some revertTree"
  by code_simp

lemma take_5_drop: "i + 5 \<le> length s \<Longrightarrow> take 5 (drop i s) = [s ! i, s ! (i + 1), s ! (i + 2), s ! (i + 3), s ! (i + 4)]"
  by (rule nth_equalityI) (auto simp: less_Suc_eq numeral_eq_Suc)

lemma find_append: "find P (xs @ ys) = (case find P xs of None \<Rightarrow> find P ys | Some x \<Rightarrow> Some x)"
  by (induction xs) auto

lemma ways_branch:
  "ways s (revertBranch a b) (i, g) = (if i + 5 \<le> length s \<and> s ! i = a \<and> s ! (i + 1) = b \<and> s ! (i + 2) = CHR ''0''
     \<and> isDigit (s ! (i + 3)) \<and> isDigit (s ! (i + 4)) then [(i + 5, g)] else [])"
  by (auto simp: numeral_eq_Suc)

lemma isRevertCode_drop:
  "isRevertCode (take 5 (drop i s)) \<longleftrightarrow> i + 5 \<le> length s \<and> [s ! i, s ! (i + 1)] \<in> {''AC'', ''EP'', ''PM''}
     \<and> s ! (i + 2) = CHR ''0'' \<and> isDigit (s ! (i + 3)) \<and> isDigit (s ! (i + 4))"
proof (cases "i + 5 \<le> length s")
  case True
  then show ?thesis unfolding take_5_drop [OF True] by simp
next
  case False
  then have "\<not> 5 \<le> length (drop i s)" by simp
  with False show ?thesis using isRevertCode_take by blast
qed

lemma ways_group:
  "ways s (RegAlternate (revertBranch (CHR ''A'') (CHR ''C''))
     (RegAlternate (revertBranch (CHR ''E'') (CHR ''P'')) (revertBranch (CHR ''P'') (CHR ''M'')))) (i, g)
   = (if isRevertCode (take 5 (drop i s)) then [(i + 5, g)] else [])"
proof -
  have "\<And>a b c d e n. (if n \<and> a = CHR ''A'' \<and> b = CHR ''C'' \<and> c = CHR ''0'' \<and> d \<and> e then [(i + 5, g)] else [])
     @ (if n \<and> a = CHR ''E'' \<and> b = CHR ''P'' \<and> c = CHR ''0'' \<and> d \<and> e then [(i + 5, g)] else [])
     @ (if n \<and> a = CHR ''P'' \<and> b = CHR ''M'' \<and> c = CHR ''0'' \<and> d \<and> e then [(i + 5, g)] else [])
     = (if n \<and> [a, b] \<in> {''AC'', ''EP'', ''PM''} \<and> c = CHR ''0'' \<and> d \<and> e then [(i + 5, g)] else [])"
    by auto
  then show ?thesis unfolding isRevertCode_drop ways.simps(6) ways_branch .
qed

lemma ways_revertTree: "ways s revertTree (i, None) = (if codeAt s i then [(i + 5, Some (i, i + 5))] else [])"
proof (cases "isRevertCode (take 5 (drop i s))")
  case True
  then have "i < length s" "isWord (s ! i)" "isWord (s ! (i + 4))"
    unfolding isRevertCode_drop by (auto simp: isWord_def isUpper_def)
  then have "atBoundary s i \<longleftrightarrow> i = 0 \<or> \<not> isWord (s ! (i - 1))"
    "atBoundary s (i + 5) \<longleftrightarrow> length s \<le> i + 5 \<or> \<not> isWord (s ! (i + 5))"
    by (auto simp: atBoundary_def add.commute [of 4])
  with True show ?thesis
    unfolding ways_concat ways_capture ways_group codeAt_def by simp
next
  case False
  then show ?thesis unfolding ways_concat ways_capture ways_group codeAt_def by simp
qed

text \<open>
  C25: the scanner finds what the regular expression of the source finds. The pattern's text
  compiles, and for every string the scanner's answer is the group that \<open>FindStringSubmatch\<close> returns for
  it: that of the leftmost match between word boundaries, or none.
\<close>

theorem revertCodeRe_leftmost:
  "\<exists>re. Compile revertPattern = Some re \<and> revertCodeRe False s = map_option (\<lambda>m. m ! 1) (FindStringSubmatch re s)"
proof (intro exI conjI)
  show "Compile revertPattern = Some revertTree" by (rule Compile_revertPattern)
  have "\<not> codeAt s (length s)" using codeAt_bound by blast
  then have f: "find (codeAt s) [0..<Suc (length s)] = find (codeAt s) [0..<length s]"
    by (simp add: find_append split: option.split)
  have e: "(\<lambda>i. ways s revertTree (i, None) \<noteq> []) = codeAt s" by (rule ext) (simp only: ways_revertTree, simp)
  have "map_option (\<lambda>m. m ! 1) (FindStringSubmatch revertTree s)
      = map_option (\<lambda>i. take 5 (drop i s)) (find (codeAt s) [0..<length s])"
    unfolding FindStringSubmatch_def e f option.map_comp
    by (rule option.map_cong0) (auto simp: find_Some_iff comp_def slice_def ways_revertTree simp del: ways.simps ways_concat)
  then show "revertCodeRe False s = map_option (\<lambda>m. m ! 1) (FindStringSubmatch revertTree s)"
    by (simp add: revertCodeRe_find)
qed

text \<open>
  Wrapping an error with a prefix that ends in ASCII punctuation or a space, as every
  \<open>fmt.Errorf("...: %w", err)\<close> of the program does, never turns a final failure into a
  retryable one.
\<close>

theorem Normalize_wrap_final:
  assumes "Normalize g (Some e) = Some n" "\<not> n_Retryable n"
    and "isASCII (last p)" "\<not> isWord (last p)"
    and "Normalize g (Some (ErrWrap p e)) = Some n'"
  shows "\<not> n_Retryable n'"
proof -
  from Normalize_retryable [OF assms(1)] assms(2) have "revertish g e \<or> fundless g e" by blast
  then have "revertish g (ErrWrap p e) \<or> fundless g (ErrWrap p e)"
    using assms(3,4) by (blast intro: revertish_wrap fundless_wrap)
  then show ?thesis using Normalize_retryable [OF assms(5)] by blast
qed

text \<open>
  A go-ethereum library that decodes nothing, for the concrete runs of this theory.
\<close>

definition opaque_geth :: geth where
  "opaque_geth =
    \<lparr>hexutil_Decode = (\<lambda>_. Inl ''missing 0x prefix''), hexutil_EncodeUint64 = (\<lambda>n. decNat (unat n)),
     abi_UnpackRevert = (\<lambda>_. None), abi_Pack = (\<lambda>m args. Inr (bytes_of m)),
     abi_EventID = bytes_of, common_IsHexAddress = (\<lambda>s. length s = 42),
     common_HexToAddress = (\<lambda>s. of_nat (length s)), address_Hex = (\<lambda>a. ''0x'' @ decNat (unat a)),
     common_BytesToAddress = (\<lambda>b. of_nat (length b)), crypto_Keccak256 = (\<lambda>b. b),
     crypto_CreateAddress2 = (\<lambda>a s h. a),
     crypto_HexToECDSA = (\<lambda>s. if s = [] then Inl (errorsNew ''invalid length'') else Inr (length s)),
     crypto_PubkeyToAddress = of_nat, crypto_Sign = (\<lambda>d k. Inr (replicate 65 0)),
     accounts_TextHash = (\<lambda>b. b), apitypes_TypedDataAndHash = (\<lambda>_. Inr []),
     bind_NewKeyedTransactor = (\<lambda>k c. Inr \<lparr>opts_From = of_nat k, opts_ChainID = c,
       opts_Nonce = 0, opts_Value = None\<rparr>),
     types_SignTx = (\<lambda>c k t. Inr (t, [])), signed_Hash = (\<lambda>t. ''0x'')\<rparr>"

theorem Normalize_wrap_final_witness:
  "\<exists>n'. Normalize opaque_geth (Some (ErrWrap ''redis lock acquire: '' (errorsNew ''insufficient funds''))) = Some n'
     \<and> \<not> n_Retryable n'"
proof -
  let ?e = "errorsNew ''insufficient funds''" and ?p = "''redis lock acquire: ''"
  obtain n where n: "Normalize opaque_geth (Some ?e) = Some n" using Normalize_Some by blast
  obtain n' where n': "Normalize opaque_geth (Some (ErrWrap ?p ?e)) = Some n'" using Normalize_Some by blast
  have "fundless opaque_geth ?e"
    by (simp add: fundless_def extractRPC_def lowerByte_def isUpper_def)
  then have "\<not> n_Retryable n" using Normalize_retryable [OF n] by blast
  from Normalize_wrap_final [OF n this _ _ n'] have "\<not> n_Retryable n'"
    by (simp add: isASCII_def)
  with n' show ?thesis by blast
qed

text \<open>
  A revert code in the decoded revert reason or, failing that, in the error text decides
  the classification before every other heuristic: REVERT, 422, not retryable, that code, and
  the code's explanation when the table has one.
\<close>

theorem Normalize_revert_first:
  assumes "extractRPC g e = (reason, rpc)"
    and "extractRevertCode reason (err_Error e) = code" "code \<noteq> []"
  shows "Normalize g (Some e) = Some
    \<lparr>n_Status = 422, n_RPCCode = rpc, n_Category = CategoryRevert, n_Code = code,
     n_NativeCode = ''CALL_EXCEPTION'', n_Reason = (if reason \<noteq> [] then reason else code),
     n_TxHash = [], n_Retryable = False,
     n_Message = (case map_of revertMessages code of Some rm \<Rightarrow> rm
                  | None \<Rightarrow> if reason \<noteq> [] then reason else err_Error e)\<rparr>"
  using assms by (auto simp: Normalize_def Let_def split: option.split)

theorem Normalize_revert_first_witness:
  "map_option n_Message (Normalize opaque_geth (Some (errorsNew ''execution reverted: AC007'')))
     = Some ''insufficient ERC20 balance''"
proof -
  have x: "extractRPC opaque_geth (errorsNew ''execution reverted: AC007'') = ([], 0)"
    by (simp add: extractRPC_def)
  have c: "extractRevertCode [] (err_Error (errorsNew ''execution reverted: AC007'')) = ''AC007''"
    by code_simp
  show ?thesis
    using Normalize_revert_first [OF x c] by (simp add: revertMessages_def)
qed

text \<open>
  No classified failure carries a transaction hash: \<open>Normalize\<close> never fills the field the
  response contract lists, not even for errors whose text names the hash.
\<close>

theorem Normalize_no_txHash:
  "case Normalize g err of None \<Rightarrow> err = None | Some n \<Rightarrow> n_TxHash n = []"
  by (cases err) (auto simp: Normalize_def Let_def split: prod.splits)

text \<open>
  \<open>WriteTxError\<close> never answers with a success status: the status is 422, 409, 503 or 500,
  and a retryable failure is exactly one whose status is not 422.
\<close>

theorem WriteTxError_status:
  "case WriteTxError g (Some e) of (st, TxErrBody n) \<Rightarrow>
       st = n_Status n \<and> st \<in> {422, 409, 503, 500} \<and> (n_Retryable n \<longleftrightarrow> st \<noteq> 422)
     | _ \<Rightarrow> False"
proof -
  obtain n where n: "Normalize g (Some e) = Some n" "(n_Status n, n_Retryable n) = contract_row (n_Category n)"
    using Normalize_rows by blast
  then show ?thesis
    by (cases "n_Category n") (auto simp: WriteTxError_def WriteJSON_def)
qed

lemma WriteTxError_failure:
  assumes "WriteTxError g (Some e) = ((st, b) :: 'r http_response)"
  shows "st \<in> {422, 409, 503, 500}"
proof -
  have "case (WriteTxError g (Some e) :: 'r http_response) of (st, TxErrBody n) \<Rightarrow>
       st = n_Status n \<and> st \<in> {422, 409, 503, 500} \<and> (n_Retryable n \<longleftrightarrow> st \<noteq> 422)
     | _ \<Rightarrow> False" by (rule WriteTxError_status)
  then show ?thesis unfolding assms by (auto split: http_body.splits)
qed

end
