(* ===== verification/World.thy ===== *)
theory World
  imports TxError
begin

text \<open>
  The runtime of the service: the external systems it talks to, the trace of its calls to
  them, and the mutable state of the shared components that \<open>core.Deps\<close> bundles.

  An external system (an EVM node, redis, the SQLite key store, NHN Cloud KMS, the random
  source, the clock behind a \<open>select\<close>) is a field of the record \<open>ext\<close>: a function from the
  trace so far and the call's arguments to the response. The trace is part of the argument, so
  a response may depend on everything that happened before; nothing else is assumed of it.
  Each call appends one event, which holds the arguments and the response.

  Scheduling is answered the same way. \<open>x_CtxWait\<close> is the outcome of a \<open>select\<close> between
  \<open>ctx.Done()\<close> (Some error) and the case that lets the function go on (None); \<open>x_Ticks\<close> is the
  number of ticker cases a polling \<open>select\<close> takes before its deadline or cancellation;
  \<open>x_Batchmates\<close> is what the dispatcher of a chain had drained ahead of, and behind, an operation
  into the same batch. A contract call has one result value, as every view method the program
  calls declares exactly one output.
\<close>

section \<open>External systems\<close>

text \<open>The identity of a connected \<open>*ethclient.Client\<close>.\<close>

type_synonym client = nat

text \<open>The outcome of the single-row key query: a row, \<open>sql.ErrNoRows\<close>, or another error.\<close>

datatype sql_row = SqlRow string string | SqlNoRows | SqlErr go_error

text \<open>The decoded HTTP answer of the KMS: status code and text, header fields, plaintext.\<close>

record nhn_response =
  nhn_StatusCode :: int
  nhn_Status :: string
  nhn_ResultMessage :: string
  nhn_IsSuccessful :: bool
  nhn_Plaintext :: string

datatype event =
    EvDial string "go_error + client"
  | EvCloseClient client
  | EvPendingNonceAt client address "go_error + uint64"
  | EvSuggestGasTipCap client "go_error + int option"
  | EvHeaderByNumber client "go_error + int option"
  | EvSuggestGasPrice client "go_error + int option"
  | EvEstimateGas client callmsg "go_error + uint64"
  | EvSendTransaction client signed_tx "go_error option"
  | EvTransactionReceipt client txhash "go_error + tx_receipt option"
  | EvCall client address string "abival list" "go_error + abival"
  | EvTransact client transactopts address string "abival list" "go_error + txhash"
  | EvWaitMined client txhash "go_error + tx_receipt"
  | EvLock string
  | EvUnlock string
  | EvSetNX string string "go_error + bool"
  | EvRelease string string
  | EvIncr string "go_error + int"
  | EvRandRead "go_error + bytes"
  | EvCtxWait "go_error option"
  | EvLookup string sql_row
  | EvListLike string "go_error + string list"
  | EvDecrypt string string "go_error + nhn_response"
  | EvTicks nat
  | EvBatchmates int64 "PackedUserOp list \<times> PackedUserOp list"
  | EvNow int
  | EvSleep

type_synonym trace = "event list"

record ext =
  x_Dial :: "trace \<Rightarrow> string \<Rightarrow> go_error + client"
  x_PendingNonceAt :: "trace \<Rightarrow> client \<Rightarrow> address \<Rightarrow> go_error + uint64"
  x_SuggestGasTipCap :: "trace \<Rightarrow> client \<Rightarrow> go_error + int option"
  x_HeaderByNumber :: "trace \<Rightarrow> client \<Rightarrow> go_error + int option"
  x_SuggestGasPrice :: "trace \<Rightarrow> client \<Rightarrow> go_error + int option"
  x_EstimateGas :: "trace \<Rightarrow> client \<Rightarrow> callmsg \<Rightarrow> go_error + uint64"
  x_SendTransaction :: "trace \<Rightarrow> client \<Rightarrow> signed_tx \<Rightarrow> go_error option"
  x_TransactionReceipt :: "trace \<Rightarrow> client \<Rightarrow> txhash \<Rightarrow> go_error + tx_receipt option"
  x_Call :: "trace \<Rightarrow> client \<Rightarrow> address \<Rightarrow> string \<Rightarrow> abival list \<Rightarrow> go_error + abival"
  x_Transact :: "trace \<Rightarrow> client \<Rightarrow> transactopts \<Rightarrow> address \<Rightarrow> string \<Rightarrow> abival list \<Rightarrow> go_error + txhash"
  x_WaitMined :: "trace \<Rightarrow> client \<Rightarrow> txhash \<Rightarrow> go_error + tx_receipt"
  x_SetNX :: "trace \<Rightarrow> string \<Rightarrow> string \<Rightarrow> go_error + bool"
  x_Incr :: "trace \<Rightarrow> string \<Rightarrow> go_error + int"
  x_RandRead :: "trace \<Rightarrow> go_error + bytes"
  x_CtxWait :: "trace \<Rightarrow> go_error option"
  x_Lookup :: "trace \<Rightarrow> string \<Rightarrow> sql_row"
  x_ListLike :: "trace \<Rightarrow> string \<Rightarrow> go_error + string list"
  x_Decrypt :: "trace \<Rightarrow> string \<Rightarrow> string \<Rightarrow> go_error + nhn_response"
  x_Ticks :: "trace \<Rightarrow> nat"
  x_Batchmates :: "trace \<Rightarrow> int64 \<Rightarrow> PackedUserOp list \<times> PackedUserOp list"
  x_Now :: "trace \<Rightarrow> int"

section \<open>Configuration and state\<close>

text \<open>\<open>signer.Account\<close>: key material and address.\<close>

record Account =
  priv :: privkey
  addr :: address

text \<open>\<open>kms.NHNClient\<close>, less its HTTP client.\<close>

record NHNClient =
  appKey :: string
  baseURL :: string

text \<open>\<open>signer.EnvKeys\<close>.\<close>

record EnvKeys =
  OwnerKey :: string
  BundlerKey :: string
  ServerKey1Env :: string
  ServerKey2Env :: string

text \<open>
  What does not change after start-up: the library, the external systems, the environment
  lookup behind \<open>chain.Registry\<close>, whether \<open>Locker.rdb\<close> and \<open>Provider.ks\<close> are non-nil, the KMS
  client \<open>Provider.dec\<close> if any, and the fallback keys.
\<close>

record deps =
  d_geth :: geth
  d_ext :: ext
  d_getenv :: "string \<Rightarrow> string"
  d_rdb :: bool
  d_dec :: "NHNClient option"
  d_ks :: bool
  d_env :: EnvKeys

text \<open>
  What a \<open>flush\<close> goroutine of the batcher still has to do when the request that waits for one
  of its operations no longer does: a whole round of the dispatcher (chain, pool, batch), or the
  individual retries that are left (chain, wallet, operations).
\<close>

datatype flush_task = Round int64 "Account list" "PackedUserOp list" | Retries int64 Account "PackedUserOp list"

text \<open>
  What changes: the trace, \<open>Locker.cursors\<close> (a missing key reads as 0), \<open>Manager.pools\<close>,
  \<open>Manager.server1\<close>, \<open>Manager.server2\<close>, \<open>Provider.clients\<close> of the client cache and, of the
  batcher, \<open>Batcher.chains\<close> with the pool each \<open>chainQueue\<close> was created with. \<open>detached\<close> are the
  flush goroutines that run on after the request has left them.
\<close>

record world =
  trace :: trace
  cursors :: "string \<Rightarrow> uint64"
  pools :: "int64 \<rightharpoonup> Account list"
  server1 :: "Account option"
  server2 :: "Account option"
  clients :: "int64 \<rightharpoonup> client"
  chains :: "int64 \<rightharpoonup> Account list"
  detached :: "flush_task list"

type_synonym 'a wio = "(world, 'a) io"
type_synonym 'a weio = "(world, 'a) eio"

definition init_world :: world where
  "init_world = \<lparr>trace = [], cursors = (\<lambda>_. 0), pools = Map.empty, server1 = None,
     server2 = None, clients = Map.empty, chains = Map.empty, detached = []\<rparr>"

text \<open>One external call: ask, record, return the answer.\<close>

definition extcall :: "(trace \<Rightarrow> 'r) \<Rightarrow> ('r \<Rightarrow> event) \<Rightarrow> 'r wio" where
  "extcall f ev = (\<lambda>w. let r = f (trace w) in (r, w\<lparr>trace := trace w @ [ev r]\<rparr>))"

definition emit :: "event \<Rightarrow> unit wio" where
  "emit e = (\<lambda>w. ((), w\<lparr>trace := trace w @ [e]\<rparr>))"

lemma extcall_run [io_simps]:
  "extcall f ev w = (f (trace w), w\<lparr>trace := trace w @ [ev (f (trace w))]\<rparr>)"
  by (simp add: extcall_def Let_def)

lemma emit_run [io_simps]: "emit e w = ((), w\<lparr>trace := trace w @ [e]\<rparr>)"
  by (simp add: emit_def)

lemma extends_extcall [intro, simp]: "extends trace (extcall f ev)"
  by (simp add: extends_def io_simps)

lemma extends_emit [intro, simp]: "extends trace (emit e)"
  by (simp add: extends_def io_simps)

text \<open>The events a run appended.\<close>

definition new_events :: "world \<Rightarrow> world \<Rightarrow> trace" where
  "new_events w w' = drop (length (trace w)) (trace w')"

lemma new_events_append: "trace w' = trace w @ es \<Longrightarrow> new_events w w' = es"
  by (simp add: new_events_def)

section \<open>What a function may do\<close>

text \<open>\<open>asks Q m\<close>: a run of \<open>m\<close> only appends events of kind \<open>Q\<close> and changes no other state.\<close>

definition asks :: "(event \<Rightarrow> bool) \<Rightarrow> 'a wio \<Rightarrow> bool" where
  "asks Q m \<longleftrightarrow> (\<forall>w. \<exists>x es. m w = (x, w\<lparr>trace := trace w @ es\<rparr>) \<and> list_all Q es)"

lemma asksE:
  assumes "asks Q m" "m w = (x, w')"
  obtains es where "w' = w\<lparr>trace := trace w @ es\<rparr>" "list_all Q es"
  using assms unfolding asks_def by (metis prod.inject)

lemma asks_mono: "asks Q m \<Longrightarrow> (\<And>e. Q e \<Longrightarrow> R e) \<Longrightarrow> asks R m"
  unfolding asks_def by (meson list.pred_mono_strong)

lemma asks_basic [intro, simp]:
  "asks Q (ret x)" "asks Q (retE y)" "asks Q (failE e)" "asks Q (liftE r)"
  unfolding asks_def by (auto simp: io_simps intro: exI [of _ "[]"])

lemma asks_extcall [intro]: "(\<And>r. Q (ev r)) \<Longrightarrow> asks Q (extcall f ev)"
  unfolding asks_def by (auto simp: io_simps)

lemma asks_emit [intro]: "Q e \<Longrightarrow> asks Q (emit e)"
  unfolding asks_def by (auto simp: io_simps)

lemma asks_bindI [intro]:
  assumes "asks Q m" "\<And>x. asks Q (f x)"
  shows "asks Q (bindI m f)"
  unfolding asks_def
proof
  fix w
  obtain x es where 1: "m w = (x, w\<lparr>trace := trace w @ es\<rparr>)" "list_all Q es"
    using assms(1) unfolding asks_def by blast
  let ?w = "w\<lparr>trace := trace w @ es\<rparr>"
  obtain y fs where "f x ?w = (y, ?w\<lparr>trace := trace ?w @ fs\<rparr>)" "list_all Q fs"
    using assms(2) unfolding asks_def by blast
  with 1 show "\<exists>x es. bindI m f w = (x, w\<lparr>trace := trace w @ es\<rparr>) \<and> list_all Q es"
    by (intro exI [of _ y] exI [of _ "es @ fs"]) (simp add: bindI_def)
qed

lemma asks_bindE [intro]:
  assumes "asks Q m" "\<And>x. asks Q (f x)"
  shows "asks Q (bindE m f)"
proof -
  have "bindE m f = bindI m (\<lambda>r. case r of Inl e \<Rightarrow> failE e | Inr x \<Rightarrow> f x)"
    by (rule ext) (auto simp: io_simps split: prod.split sum.split)
  moreover have "asks Q \<dots>" using assms by (intro asks_bindI) (auto split: sum.split)
  ultimately show ?thesis by simp
qed

lemma asks_extends: "asks Q m \<Longrightarrow> extends trace m"
  unfolding extends_def
proof
  fix w assume m: "asks Q m"
  obtain x w' where r: "m w = (x, w')" by fastforce
  from asksE [OF m r] obtain es where "w' = w\<lparr>trace := trace w @ es\<rparr>" by blast
  with r show "prefix (trace w) (trace (snd (m w)))" by simp
qed

text \<open>\<open>appends Q m\<close>: a run of \<open>m\<close> appends events of kind \<open>Q\<close>, whatever else it changes.\<close>

definition appends :: "(event \<Rightarrow> bool) \<Rightarrow> 'a wio \<Rightarrow> bool" where
  "appends Q m \<longleftrightarrow> (\<forall>w. \<exists>es. trace (snd (m w)) = trace w @ es \<and> list_all Q es)"

lemma appendsE:
  assumes "appends Q m" "m w = (x, w')"
  obtains es where "trace w' = trace w @ es" "list_all Q es"
  using assms unfolding appends_def by (metis snd_conv)

lemma appendsI: "(\<And>w x w'. m w = (x, w') \<Longrightarrow> \<exists>es. trace w' = trace w @ es \<and> list_all Q es) \<Longrightarrow> appends Q m"
  unfolding appends_def by (metis surjective_pairing)

lemma appends_mono: "appends Q m \<Longrightarrow> (\<And>e. Q e \<Longrightarrow> R e) \<Longrightarrow> appends R m"
  unfolding appends_def by (meson list.pred_mono_strong)

lemma asks_appends: "asks Q m \<Longrightarrow> appends Q m"
proof (rule appendsI)
  fix w x w' assume "asks Q m" "m w = (x, w')"
  then show "\<exists>es. trace w' = trace w @ es \<and> list_all Q es" by (rule asksE) auto
qed

lemma asks_appends_mono: "asks Q m \<Longrightarrow> (\<And>e. Q e \<Longrightarrow> R e) \<Longrightarrow> appends R m"
  by (rule appends_mono [OF asks_appends])

lemma appends_basic [intro, simp]:
  "appends Q (ret x)" "appends Q (retE y)" "appends Q (failE e)" "appends Q (liftE r)"
  by (auto intro: asks_appends)

lemma appends_extcall [intro]: "(\<And>r. Q (ev r)) \<Longrightarrow> appends Q (extcall f ev)"
  by (auto intro: asks_appends)

lemma appends_emit [intro]: "Q e \<Longrightarrow> appends Q (emit e)"
  by (auto intro: asks_appends)

lemma appends_bindI [intro]:
  assumes "appends Q m" "\<And>x. appends Q (f x)"
  shows "appends Q (bindI m f)"
proof (rule appendsI)
  fix w y w' assume r: "bindI m f w = (y, w')"
  obtain x u where m: "m w = (x, u)" by fastforce
  with r have f: "f x u = (y, w')" by (simp add: bindI_def)
  from assms(1) m obtain es where es: "trace u = trace w @ es" "list_all Q es" by (rule appendsE)
  from assms(2) f obtain fs where "trace w' = trace u @ fs" "list_all Q fs" by (rule appendsE)
  with es show "\<exists>es. trace w' = trace w @ es \<and> list_all Q es" by simp
qed

lemma bindE_bindI: "bindE m f = bindI m (\<lambda>r. case r of Inl e \<Rightarrow> failE e | Inr x \<Rightarrow> f x)"
  by (rule ext) (auto simp: io_simps split: prod.split sum.split)

lemma appends_bindE [intro]:
  assumes "appends Q m" "\<And>x. appends Q (f x)"
  shows "appends Q (bindE m f)"
  unfolding bindE_bindI using assms by (intro appends_bindI) (auto split: sum.split)

text \<open>
  \<open>runs m P\<close>: every run of \<open>m\<close> only appends events to the trace, and \<open>P\<close> holds of its result and
  of the events. The rules compute with it from the last call backwards.
\<close>

definition runs :: "'a wio \<Rightarrow> ('a \<Rightarrow> trace \<Rightarrow> bool) \<Rightarrow> bool" where
  "runs m P \<longleftrightarrow> (\<forall>w. \<exists>x es. m w = (x, w\<lparr>trace := trace w @ es\<rparr>) \<and> P x es)"

lemma runsE:
  assumes "runs m P" "m w = (x, w')"
  obtains es where "w' = w\<lparr>trace := trace w @ es\<rparr>" "P x es"
  using assms unfolding runs_def by (metis prod.inject)

lemma runs_mono: "runs m P \<Longrightarrow> (\<And>x es. P x es \<Longrightarrow> Q x es) \<Longrightarrow> runs m Q"
  unfolding runs_def by meson

lemma asks_runs: "asks Q m \<Longrightarrow> runs m (\<lambda>x. list_all Q)"
  by (simp add: asks_def runs_def)

lemma runs_pure [simp]:
  "runs (ret x) P \<longleftrightarrow> P x []" "runs (retE y) Q \<longleftrightarrow> Q (Inr y) []" "runs (failE e) Q \<longleftrightarrow> Q (Inl e) []"
  "runs (liftE r) Q \<longleftrightarrow> Q r []"
proof -
  have "\<exists>w :: world. True" by blast
  moreover have "w\<lparr>trace := trace w @ es\<rparr> = w \<Longrightarrow> es = []" for w :: world and es
    by (metis append_self_conv world.select_convs(1) world.surjective world.update_convs(1))
  ultimately show "runs (ret x) P \<longleftrightarrow> P x []" "runs (retE y) Q \<longleftrightarrow> Q (Inr y) []" "runs (failE e) Q \<longleftrightarrow> Q (Inl e) []"
    "runs (liftE r) Q \<longleftrightarrow> Q r []"
    unfolding runs_def io_simps by (auto intro: exI [of _ "[]"]) (metis prod.inject)+
qed

lemma runs_extcall: "(\<And>r. P r [ev r]) \<Longrightarrow> runs (extcall f ev) P"
  by (auto simp: runs_def io_simps)

lemma runs_emit: "P () [e] \<Longrightarrow> runs (emit e) P"
  by (auto simp: runs_def io_simps)

lemma runs_bindI: "runs m (\<lambda>x es. runs (f x) (\<lambda>y fs. P y (es @ fs))) \<Longrightarrow> runs (bindI m f) P"
  unfolding runs_def
proof
  fix w assume m: "\<forall>w. \<exists>x es. m w = (x, w\<lparr>trace := trace w @ es\<rparr>)
    \<and> (\<forall>w. \<exists>y fs. f x w = (y, w\<lparr>trace := trace w @ fs\<rparr>) \<and> P y (es @ fs))"
  then obtain x es where 1: "m w = (x, w\<lparr>trace := trace w @ es\<rparr>)"
    "\<forall>w. \<exists>y fs. f x w = (y, w\<lparr>trace := trace w @ fs\<rparr>) \<and> P y (es @ fs)" by blast
  let ?w = "w\<lparr>trace := trace w @ es\<rparr>"
  from 1(2) obtain y fs where "f x ?w = (y, ?w\<lparr>trace := trace ?w @ fs\<rparr>)" "P y (es @ fs)" by meson
  with 1(1) show "\<exists>y fs. bindI m f w = (y, w\<lparr>trace := trace w @ fs\<rparr>) \<and> P y fs"
    by (intro exI [of _ y] exI [of _ "es @ fs"]) (simp add: bindI_def)
qed

lemma runs_bindE:
  "runs m (\<lambda>r es. case r of Inl e \<Rightarrow> P (Inl e) es | Inr x \<Rightarrow> runs (f x) (\<lambda>y fs. P y (es @ fs))) \<Longrightarrow> runs (bindE m f) P"
  unfolding bindE_bindI
  by (rule runs_bindI, erule runs_mono) (auto split: sum.splits)

text \<open>\<open>keeps p m\<close>: the part \<open>p\<close> of the world is the same after \<open>m\<close>.\<close>

definition keeps :: "(world \<Rightarrow> 'p) \<Rightarrow> 'a wio \<Rightarrow> bool" where
  "keeps p m \<longleftrightarrow> (\<forall>w. p (snd (m w)) = p w)"

lemma keepsD: "keeps p m \<Longrightarrow> m w = (x, w') \<Longrightarrow> p w' = p w"
  unfolding keeps_def by (metis snd_conv)

lemma keepsI: "(\<And>w x w'. m w = (x, w') \<Longrightarrow> p w' = p w) \<Longrightarrow> keeps p m"
  unfolding keeps_def by (metis surjective_pairing)

lemma keeps_bindI [intro]: "keeps p m \<Longrightarrow> (\<And>x. keeps p (f x)) \<Longrightarrow> keeps p (bindI m f)"
  unfolding keeps_def bindI_def by (simp split: prod.split) (metis snd_conv)

lemma keeps_basic [intro, simp]: "keeps p (ret x)" "keeps p (retE y)" "keeps p (failE e)" "keeps p (liftE r)"
  by (simp_all add: keeps_def io_simps)

section \<open>The shape of a handler\<close>

text \<open>
  What the HTTP handlers promise: a request that fails its checks is answered with 400 and
  touches nothing; an accepted one is performed, a failure is answered by \<open>WriteTxError\<close> and a
  result by 200.
\<close>

locale http_handler =
  fixes g :: geth
    and check :: "'b \<Rightarrow> string + 'q"
    and perform :: "'q \<Rightarrow> 'r weio"
    and handler :: "'b \<Rightarrow> 'r http_response wio"
  assumes rejects: "check raw = Inl msg \<Longrightarrow> handler raw w = (WriteValidationError msg, w)"
    and fails: "check raw = Inr q \<Longrightarrow> perform q w = (Inl e, w') \<Longrightarrow> handler raw w = (WriteTxError g (Some e), w')"
    and succeeds: "check raw = Inr q \<Longrightarrow> perform q w = (Inr res, w') \<Longrightarrow> handler raw w = (WriteJSON 200 (OkBody res), w')"
begin

lemma answer_cases:
  assumes "handler raw w = ((st, b), w')"
  obtains (Rejected) msg where "check raw = Inl msg" "st = 400" "w' = w"
  | (Failed) q e where "check raw = Inr q" "perform q w = (Inl e, w')" "st \<in> {422, 409, 503, 500}"
  | (Succeeded) q res where "check raw = Inr q" "perform q w = (Inr res, w')" "st = 200" "b = OkBody res"
proof (cases "check raw")
  case (Inl msg)
  with rejects [OF Inl, of w] assms Rejected show thesis by (simp add: WriteValidationError_def WriteJSON_def)
next
  case (Inr q)
  obtain r u where p: "perform q w = (r, u)" by fastforce
  show thesis
  proof (cases r)
    case (Inl e)
    with fails [OF Inr, of w e u] p assms have "WriteTxError g (Some e) = (st, b)" "u = w'" by simp_all
    with Failed [OF Inr] p Inl show thesis using WriteTxError_failure [of g e st b] by blast
  next
    case (Inr res)
    with succeeds [OF \<open>check raw = Inr q\<close>, of w res u] p assms Succeeded [OF \<open>check raw = Inr q\<close>] show thesis
      by (simp add: WriteJSON_def)
  qed
qed

lemma answers:
  assumes "handler raw w = ((st, b), w')"
    and "\<And>q res. check raw = Inr q \<Longrightarrow> perform q w = (Inr res, w') \<Longrightarrow> did q res"
  shows "(st = 400 \<longrightarrow> w' = w) \<and> st \<in> {200, 400, 422, 409, 503, 500}
    \<and> (st = 200 \<longrightarrow> (\<exists>q res. check raw = Inr q \<and> b = OkBody res \<and> did q res))"
  using assms(1) by (rule answer_cases) (auto intro: assms(2))

end

section \<open>A concrete environment\<close>

text \<open>
  External systems that refuse every call, and the dependencies built on them: the base from
  which the witnesses build their concrete runs.
\<close>

abbreviation offline :: go_error where
  "offline \<equiv> errorsNew ''connection refused''"

definition offline_ext :: ext where
  "offline_ext =
    \<lparr>x_Dial = (\<lambda>t u. Inl offline), x_PendingNonceAt = (\<lambda>t c a. Inl offline),
     x_SuggestGasTipCap = (\<lambda>t c. Inl offline), x_HeaderByNumber = (\<lambda>t c. Inl offline),
     x_SuggestGasPrice = (\<lambda>t c. Inl offline), x_EstimateGas = (\<lambda>t c m. Inl offline),
     x_SendTransaction = (\<lambda>t c s. Some offline), x_TransactionReceipt = (\<lambda>t c h. Inl offline),
     x_Call = (\<lambda>t c a m vs. Inl offline), x_Transact = (\<lambda>t c to a m vs. Inl offline),
     x_WaitMined = (\<lambda>t c h. Inl offline), x_SetNX = (\<lambda>t k v. Inl offline),
     x_Incr = (\<lambda>t k. Inl offline), x_RandRead = (\<lambda>t. Inl offline), x_CtxWait = (\<lambda>t. None),
     x_Lookup = (\<lambda>t n. SqlNoRows), x_ListLike = (\<lambda>t p. Inr []),
     x_Decrypt = (\<lambda>t k c. Inl offline), x_Ticks = (\<lambda>t. 0),
     x_Batchmates = (\<lambda>t c. ([], [])), x_Now = (\<lambda>t. 0)\<rparr>"

definition demo_deps :: "ext \<Rightarrow> bool \<Rightarrow> deps" where
  "demo_deps x rdb =
    \<lparr>d_geth = opaque_geth, d_ext = x, d_getenv = (\<lambda>_. []), d_rdb = rdb, d_dec = None,
     d_ks = False, d_env = \<lparr>OwnerKey = [], BundlerKey = [], ServerKey1Env = [], ServerKey2Env = []\<rparr>\<rparr>"

lemma demo_deps_sel [simp]:
  "d_geth (demo_deps x r) = opaque_geth" "d_ext (demo_deps x r) = x" "d_rdb (demo_deps x r) = r"
  "d_dec (demo_deps x r) = None" "d_ks (demo_deps x r) = False"
  by (simp_all add: demo_deps_def)

lemma init_world_sel [simp]:
  "trace init_world = []" "cursors init_world k = 0" "pools init_world = Map.empty"
  "server1 init_world = None" "server2 init_world = None" "clients init_world = Map.empty"
  "chains init_world = Map.empty" "detached init_world = []"
  by (simp_all add: init_world_def)

end
