(* ===== verification/Locker.thy ===== *)
theory Locker
  imports World
begin

text \<open>
  \<open>internal/platform/redis\<close>: the nonce lock (a process-local keyed mutex, then a redis
  \<open>SET NX PX\<close> lock released by token) and the round-robin cursor. The interleaving of several
  processes on one lock is the subject of \<open>Lock_Protocol\<close>; here a call is followed from the
  moment it gets the local mutex.
\<close>

section \<open>Operations\<close>

definition retryCount :: nat where "retryCount = 10"

text \<open>\<open>hex.EncodeToString\<close>.\<close>

definition hexDigit :: "nat \<Rightarrow> char" where
  "hexDigit n = ''0123456789abcdef'' ! n"

definition EncodeToString :: "bytes \<Rightarrow> string" where
  "EncodeToString b = concat (map (\<lambda>x. [hexDigit (unat x div 16), hexDigit (unat x mod 16)]) b)"

definition randomToken :: "deps \<Rightarrow> string weio" where
  "randomToken d =
     bindE (extcall (\<lambda>t. x_RandRead (d_ext d) t) EvRandRead) (\<lambda>b. retE (EncodeToString b))"

text \<open>The error of an external call, wrapped as \<open>fmt.Errorf(pre + "%w", err)\<close> does.\<close>

definition wrapE :: "string \<Rightarrow> 'a weio \<Rightarrow> 'a weio" where
  "wrapE pre m = (\<lambda>w. case m w of
     (Inl e, w') \<Rightarrow> (Inl (ErrWrap pre e), w') | (Inr x, w') \<Rightarrow> (Inr x, w'))"

text \<open>The acquisition loop, with the number of attempts left.\<close>

fun acquireLoop :: "deps \<Rightarrow> string \<Rightarrow> string \<Rightarrow> nat \<Rightarrow> bool weio" where
  "acquireLoop d lockKey token 0 = retE False"
| "acquireLoop d lockKey token (Suc i) =
     bindE (wrapE ''redis lock acquire: ''
              (extcall (\<lambda>t. x_SetNX (d_ext d) t lockKey token) (EvSetNX lockKey token)))
       (\<lambda>ok. if ok then retE True
              else bindI (extcall (x_CtxWait (d_ext d)) EvCtxWait)
                (\<lambda>done. case done of Some e \<Rightarrow> failE e
                 | None \<Rightarrow> acquireLoop d lockKey token i))"

text \<open>
  The critical section \<open>fn\<close> is a Go closure: it assigns captured variables and returns an
  error. \<open>cap\<close> is the value of the captured variables before it, and the result is their
  value afterwards with the error.
\<close>

definition withRedisLock ::
  "deps \<Rightarrow> string \<Rightarrow> 'a \<Rightarrow> ('a \<times> go_error option) wio \<Rightarrow> ('a \<times> go_error option) wio" where
  "withRedisLock d key cap fn =
     (let lockKey = ''lock:'' @ key in
      bindI (bindE (randomToken d)
               (\<lambda>token. bindE (acquireLoop d lockKey token retryCount)
                  (\<lambda>acquired. retE (token, acquired))))
        (\<lambda>r. case r of
           Inl e \<Rightarrow> ret (cap, Some e)
         | Inr (token, acquired) \<Rightarrow>
             if \<not> acquired then ret (cap, Some (errorsNew (''failed to acquire nonce lock: '' @ key)))
             else bindI fn (\<lambda>res. bindI (emit (EvRelease lockKey token)) (\<lambda>_. ret res))))"

definition WithNonceLock ::
  "deps \<Rightarrow> string \<Rightarrow> 'a \<Rightarrow> ('a \<times> go_error option) wio \<Rightarrow> ('a \<times> go_error option) wio" where
  "WithNonceLock d key cap fn =
     bindI (emit (EvLock key)) (\<lambda>_.
     bindI (if \<not> d_rdb d then fn else withRedisLock d key cap fn) (\<lambda>res.
     bindI (emit (EvUnlock key)) (\<lambda>_. ret res)))"

definition nextIndexLocal :: "string \<Rightarrow> nat \<Rightarrow> int wio" where
  "nextIndexLocal cursorKey n =
     (\<lambda>w. let cur = cursors w cursorKey
          in (uint (cur mod of_nat n), w\<lparr>cursors := (cursors w)(cursorKey := cur + 1)\<rparr>))"

definition NextIndex :: "deps \<Rightarrow> string \<Rightarrow> nat \<Rightarrow> int weio" where
  "NextIndex d cursorKey n =
     (if n \<le> 1 then retE 0
      else if \<not> d_rdb d then bindI (nextIndexLocal cursorKey n) retE
      else bindE (wrapE ''redis cursor incr: ''
             (extcall (\<lambda>t. x_Incr (d_ext d) t (''walletcursor:'' @ cursorKey))
                (EvIncr (''walletcursor:'' @ cursorKey))))
             (\<lambda>v. retE (go_rem (go_rem v (int n) + int n) (int n))))"

text \<open>\<open>redis.Dial\<close>: the client options, or none when redis is not configured.\<close>

datatype redis_opts = FromURL string | FromHost string string

definition Dial :: "(string \<Rightarrow> go_error option) \<Rightarrow> string \<Rightarrow> string \<Rightarrow> int \<Rightarrow> string \<Rightarrow> go_error + redis_opts option" where
  "Dial ParseURL url host port password =
     (if url \<noteq> [] then
        (case ParseURL url of
           Some e \<Rightarrow> Inl (ErrWrap ''parse REDIS_URL: '' e)
         | None \<Rightarrow> Inr (Some (FromURL url)))
      else if host = [] then Inr None
      else Inr (Some (FromHost (host @ '':'' @ FormatInt port) password)))"

lemma asks_wrapE [intro]: "asks Q m \<Longrightarrow> asks Q (wrapE p m)"
proof -
  have "wrapE p m = bindI m (\<lambda>r. case r of Inl e \<Rightarrow> failE (ErrWrap p e) | Inr x \<Rightarrow> retE x)"
    by (rule ext) (auto simp: wrapE_def io_simps split: prod.split sum.split)
  moreover assume "asks Q m"
  ultimately show ?thesis by (simp only:) (intro asks_bindI; auto split: sum.split)
qed

lemma appends_wrapE [intro]: "appends Q m \<Longrightarrow> appends Q (wrapE p m)"
proof -
  have "wrapE p m = bindI m (\<lambda>r. case r of Inl e \<Rightarrow> failE (ErrWrap p e) | Inr x \<Rightarrow> retE x)"
    by (rule ext) (auto simp: wrapE_def io_simps split: prod.split sum.split)
  moreover assume "appends Q m"
  ultimately show ?thesis by (simp only:) (intro appends_bindI; auto split: sum.split)
qed

section \<open>The acquisition loop\<close>

text \<open>The events of an acquisition: attempts that found the lock taken, each followed by a wait.\<close>

definition taken :: "string \<Rightarrow> string \<Rightarrow> nat \<Rightarrow> trace" where
  "taken lk tok n = concat (replicate n [EvSetNX lk tok (Inr False), EvCtxWait None])"

lemma taken_simps [simp]:
  "taken lk tok 0 = []"
  "taken lk tok (Suc n) = EvSetNX lk tok (Inr False) # EvCtxWait None # taken lk tok n"
  by (simp_all add: taken_def)

text \<open>The possible ends of the loop after \<open>n\<close> attempts that found the lock taken.\<close>

inductive acquired_by :: "string \<Rightarrow> string \<Rightarrow> nat \<Rightarrow> go_error + bool \<Rightarrow> trace \<Rightarrow> bool"
  for lk tok where
  got: "acquired_by lk tok i (Inr True) (taken lk tok n @ [EvSetNX lk tok (Inr True)])" if "n < i"
| gave_up: "acquired_by lk tok i (Inr False) (taken lk tok i)"
| redis_err: "acquired_by lk tok i (Inl (ErrWrap ''redis lock acquire: '' e))
     (taken lk tok n @ [EvSetNX lk tok (Inl e)])" if "n < i"
| cancelled: "acquired_by lk tok i (Inl e)
     (taken lk tok n @ [EvSetNX lk tok (Inr False), EvCtxWait (Some e)])" if "n < i"

inductive_cases acquired_byE: "acquired_by lk tok i r es"

lemma acquired_by_Suc:
  assumes "acquired_by lk tok i r es"
  shows "acquired_by lk tok (Suc i) r (EvSetNX lk tok (Inr False) # EvCtxWait None # es)"
  using assms
proof cases
  case (got n)
  then show ?thesis using acquired_by.got [of "Suc n" "Suc i" lk tok] by simp
next
  case gave_up
  then show ?thesis using acquired_by.gave_up [of lk tok "Suc i"] by simp
next
  case (redis_err n e)
  then show ?thesis using acquired_by.redis_err [of "Suc n" "Suc i" lk tok e] by simp
next
  case (cancelled n e)
  then show ?thesis using acquired_by.cancelled [of "Suc n" "Suc i" lk tok e] by simp
qed

lemma acquireLoop_shape:
  "acquireLoop d lk tok i w = (r, w') \<Longrightarrow>
     \<exists>es. w' = w\<lparr>trace := trace w @ es\<rparr> \<and> acquired_by lk tok i r es"
proof (induction i arbitrary: w)
  case 0
  then show ?case using acquired_by.gave_up [of lk tok 0] by (auto intro!: exI [of _ "[]"])
next
  case (Suc i)
  let ?x = "x_SetNX (d_ext d) (trace w) lk tok"
  let ?w1 = "w\<lparr>trace := trace w @ [EvSetNX lk tok ?x]\<rparr>"
  show ?case
  proof (cases ?x)
    case (Inl e)
    with Suc.prems acquired_by.redis_err [of 0 "Suc i" lk tok e] show ?thesis
      by (auto simp: io_simps wrapE_def)
  next
    case (Inr ok)
    show ?thesis
    proof (cases ok)
      case True
      with Inr Suc.prems acquired_by.got [of 0 "Suc i" lk tok] show ?thesis
        by (auto simp: io_simps wrapE_def)
    next
      case False
      let ?c = "x_CtxWait (d_ext d) (trace ?w1)"
      show ?thesis
      proof (cases ?c)
        case (Some e)
        with Inr False Suc.prems acquired_by.cancelled [of 0 "Suc i" lk tok e] show ?thesis
          by (auto simp: io_simps wrapE_def)
      next
        case None
        let ?w2 = "?w1\<lparr>trace := trace ?w1 @ [EvCtxWait None]\<rparr>"
        from Inr False None Suc.prems have "acquireLoop d lk tok i ?w2 = (r, w')"
          by (simp add: io_simps wrapE_def)
        from Suc.IH [OF this] obtain es
          where "w' = ?w2\<lparr>trace := trace ?w2 @ es\<rparr>" "acquired_by lk tok i r es" by blast
        with Inr False show ?thesis
          by (auto dest: acquired_by_Suc)
      qed
    qed
  qed
qed

section \<open>The lock as an interface\<close>

text \<open>
  Events that neither touch the chain nor a local mutex: what the lock itself may do around
  the critical section.
\<close>

fun lock_noise :: "event \<Rightarrow> bool" where
  "lock_noise (EvSetNX _ _ _) = True"
| "lock_noise (EvRelease _ _) = True"
| "lock_noise (EvRandRead _) = True"
| "lock_noise (EvCtxWait _) = True"
| "lock_noise _ = False"

abbreviation quiet :: "trace \<Rightarrow> bool" where
  "quiet es \<equiv> list_all lock_noise es"

fun submission :: "event \<Rightarrow> bool" where
  "submission (EvTransact _ _ _ _ _ _) = True"
| "submission (EvSendTransaction _ _ _) = True"
| "submission _ = False"

text \<open>\<open>guarded k h es\<close>: with \<open>k\<close> held initially iff \<open>h\<close>, every submission in \<open>es\<close> happens under \<open>k\<close>.\<close>

fun guarded :: "string \<Rightarrow> bool \<Rightarrow> trace \<Rightarrow> bool" where
  "guarded k h [] = True"
| "guarded k h (EvLock k' # es) = guarded k (h \<or> k' = k) es"
| "guarded k h (EvUnlock k' # es) = guarded k (h \<and> k' \<noteq> k) es"
| "guarded k h (e # es) = ((submission e \<longrightarrow> h) \<and> guarded k h es)"

fun mutex_event :: "event \<Rightarrow> bool" where
  "mutex_event (EvLock _) = True"
| "mutex_event (EvUnlock _) = True"
| "mutex_event _ = False"

lemma guarded_Cons_other:
  "\<not> mutex_event e \<Longrightarrow> guarded k h (e # es) \<longleftrightarrow> (submission e \<longrightarrow> h) \<and> guarded k h es"
  by (cases e) auto

lemma guarded_append_plain:
  "list_all (\<lambda>e. \<not> mutex_event e) es \<Longrightarrow>
     guarded k h (es @ fs) \<longleftrightarrow> (h \<or> list_all (\<lambda>e. \<not> submission e) es) \<and> guarded k h fs"
  by (induction es) (auto simp: guarded_Cons_other)

lemma lock_noise_plain: "lock_noise e \<Longrightarrow> \<not> mutex_event e \<and> \<not> submission e"
  by (cases e) auto

lemma quiet_plain:
  "quiet es \<Longrightarrow> list_all (\<lambda>e. \<not> mutex_event e) es" "quiet es \<Longrightarrow> list_all (\<lambda>e. \<not> submission e) es"
  by (auto simp: list_all_iff lock_noise_plain)

text \<open>Whether \<open>k\<close> is held after a trace.\<close>

fun held :: "string \<Rightarrow> bool \<Rightarrow> trace \<Rightarrow> bool" where
  "held k h [] = h"
| "held k h (EvLock k' # es) = held k (h \<or> k' = k) es"
| "held k h (EvUnlock k' # es) = held k (h \<and> k' \<noteq> k) es"
| "held k h (e # es) = held k h es"

lemma held_Cons_other: "\<not> mutex_event e \<Longrightarrow> held k h (e # es) = held k h es"
  by (cases e) auto

lemma held_append: "held k h (es @ fs) = held k (held k h es) fs"
proof (induction es arbitrary: h)
  case (Cons e es)
  then show ?case by (cases e) auto
qed simp

lemma guarded_append: "guarded k h (es @ fs) \<longleftrightarrow> guarded k h es \<and> guarded k (held k h es) fs"
proof (induction es arbitrary: h)
  case (Cons e es)
  then show ?case by (cases e) auto
qed simp

lemma held_plain: "list_all (\<lambda>e. \<not> mutex_event e) es \<Longrightarrow> held k h es = h"
  by (induction es) (auto simp: held_Cons_other)

lemma guarded_region:
  assumes "list_all (\<lambda>e. \<not> mutex_event e \<and> \<not> submission e) pre" "list_all (\<lambda>e. \<not> mutex_event e) es"
  shows "guarded k False (pre @ EvLock k # es @ [EvUnlock k])"
  using assms guarded_append_plain [of pre k False "EvLock k # es @ [EvUnlock k]"]
    guarded_append_plain [of es k True "[EvUnlock k]"] by (simp add: list_all_iff)

lemma guarded_none: "list_all (\<lambda>e. \<not> mutex_event e \<and> \<not> submission e) es \<Longrightarrow> guarded k h es"
  using guarded_append_plain [of es k h "[]"] by (simp add: list_all_iff)

text \<open>
  What a client of the lock relies on: the critical section runs at most once, on the world
  it was given but for the lock's own events, between taking and releasing the local mutex;
  when it does not run, the captured variables keep their value and an error is returned.
\<close>

locale nonce_lock =
  fixes withLock :: "string \<Rightarrow> 'a \<Rightarrow> ('a \<times> go_error option) wio \<Rightarrow> ('a \<times> go_error option) wio"
  assumes lock_runs: "withLock key cap fn w = (res, w') \<Longrightarrow>
      (\<exists>pre post w2. quiet pre \<and> quiet post \<and>
         fn (w\<lparr>trace := trace w @ EvLock key # pre\<rparr>) = (res, w2) \<and>
         w' = w2\<lparr>trace := trace w2 @ post @ [EvUnlock key]\<rparr>)
      \<or> (\<exists>es e. quiet es \<and> res = (cap, Some e) \<and>
         w' = w\<lparr>trace := trace w @ EvLock key # es @ [EvUnlock key]\<rparr>)"
begin

lemma success_ran:
  assumes "withLock key cap fn w = ((x, None), w')"
  obtains pre post w2 where "quiet pre" "quiet post"
    "fn (w\<lparr>trace := trace w @ EvLock key # pre\<rparr>) = ((x, None), w2)"
    "w' = w2\<lparr>trace := trace w2 @ post @ [EvUnlock key]\<rparr>"
  using lock_runs [OF assms] by auto

lemma withLock_extends: "extends trace fn \<Longrightarrow> extends trace (withLock key cap fn)"
  unfolding extends_def
proof
  fix w assume fn: "\<forall>w. prefix (trace w) (trace (snd (fn w)))"
  obtain res w' where r: "withLock key cap fn w = (res, w')" by fastforce
  from lock_runs [OF r] show "prefix (trace w) (trace (snd (withLock key cap fn w)))"
  proof
    assume "\<exists>pre post w2. quiet pre \<and> quiet post \<and>
         fn (w\<lparr>trace := trace w @ EvLock key # pre\<rparr>) = (res, w2) \<and>
         w' = w2\<lparr>trace := trace w2 @ post @ [EvUnlock key]\<rparr>"
    then obtain pre post w2 where f: "fn (w\<lparr>trace := trace w @ EvLock key # pre\<rparr>) = (res, w2)"
      and w': "w' = w2\<lparr>trace := trace w2 @ post @ [EvUnlock key]\<rparr>" by blast
    from fn f have "prefix (trace w @ EvLock key # pre) (trace w2)"
      by (metis snd_conv world.select_convs(1) world.surjective world.update_convs(1))
    then have "prefix (trace w) (trace w2)" by (rule append_prefixD)
    then show ?thesis using r w' by (simp add: prefix_order.trans [OF _ prefixI])
  qed (use r in auto)
qed

text \<open>A critical section that takes no mutex itself makes one locked region of the trace.\<close>

lemma withLock_region:
  assumes r: "withLock key cap fn w = (res, w')"
    and fn: "appends (\<lambda>e. \<not> mutex_event e) fn"
  shows "\<exists>es. trace w' = trace w @ EvLock key # es @ [EvUnlock key] \<and> list_all (\<lambda>e. \<not> mutex_event e) es"
  using lock_runs [OF r]
proof
  assume "\<exists>pre post w2. quiet pre \<and> quiet post \<and>
         fn (w\<lparr>trace := trace w @ EvLock key # pre\<rparr>) = (res, w2) \<and>
         w' = w2\<lparr>trace := trace w2 @ post @ [EvUnlock key]\<rparr>"
  then obtain pre post w2 where q: "quiet pre" "quiet post"
    and f: "fn (w\<lparr>trace := trace w @ EvLock key # pre\<rparr>) = (res, w2)"
    and w': "w' = w2\<lparr>trace := trace w2 @ post @ [EvUnlock key]\<rparr>" by blast
  from appendsE [OF fn f] obtain es where "trace w2 = trace w @ EvLock key # pre @ es"
    "list_all (\<lambda>e. \<not> mutex_event e) es" by auto
  with w' q show ?thesis by (intro exI [of _ "pre @ es @ post"]) (simp add: quiet_plain)
next
  assume "\<exists>es e. quiet es \<and> res = (cap, Some e) \<and>
         w' = w\<lparr>trace := trace w @ EvLock key # es @ [EvUnlock key]\<rparr>"
  then show ?thesis by (auto simp: quiet_plain)
qed

lemma withLock_appends:
  assumes fn: "appends Q fn" and Q: "Q (EvLock key)" "Q (EvUnlock key)" "\<And>e. lock_noise e \<Longrightarrow> Q e"
  shows "appends Q (withLock key cap fn)"
proof (rule appendsI)
  fix w res w' assume r: "withLock key cap fn w = (res, w')"
  have q: "list_all Q es" if "quiet es" for es using that Q(3) by (auto simp: list_all_iff)
  from lock_runs [OF r] show "\<exists>es. trace w' = trace w @ es \<and> list_all Q es"
  proof (elim disjE exE conjE)
    fix pre post w2 assume "quiet pre" "quiet post"
      and f: "fn (w\<lparr>trace := trace w @ EvLock key # pre\<rparr>) = (res, w2)"
      and w': "w' = w2\<lparr>trace := trace w2 @ post @ [EvUnlock key]\<rparr>"
    then have "list_all Q pre" "list_all Q post" by (auto intro: q)
    with appendsE [OF fn f] w' Q(1,2) show ?thesis by fastforce
  next
    fix es e assume "quiet es" "w' = w\<lparr>trace := trace w @ EvLock key # es @ [EvUnlock key]\<rparr>"
    then show ?thesis using q [of es] Q(1,2) by simp
  qed
qed

end

section \<open>The lock implements the interface\<close>

lemma quiet_taken [simp]: "quiet (taken lk tok n)"
  by (induction n) auto

lemma acquired_by_quiet: "acquired_by lk tok i r es \<Longrightarrow> quiet es"
  by (erule acquired_by.cases) auto

text \<open>
  The exact traces around a critical section that ran (\<open>entered\<close>) and of a call that did not
  run it (\<open>refused\<close>).
\<close>

inductive entered :: "deps \<Rightarrow> string \<Rightarrow> trace \<Rightarrow> trace \<Rightarrow> bool" for d key where
  in_process: "entered d key [] []" if "\<not> d_rdb d"
| via_redis: "entered d key
     (EvRandRead (Inr b) # taken (''lock:'' @ key) (EncodeToString b) n
        @ [EvSetNX (''lock:'' @ key) (EncodeToString b) (Inr True)])
     [EvRelease (''lock:'' @ key) (EncodeToString b)]" if "d_rdb d" "n < retryCount"

inductive refused :: "deps \<Rightarrow> string \<Rightarrow> trace \<Rightarrow> go_error \<Rightarrow> bool" for d key where
  no_token: "refused d key [EvRandRead (Inl e)] e" if "d_rdb d"
| no_lock: "refused d key (EvRandRead (Inr b) # es) e" if "d_rdb d"
    "acquired_by (''lock:'' @ key) (EncodeToString b) retryCount (Inl e) es"
| contended: "refused d key (EvRandRead (Inr b) # taken (''lock:'' @ key) (EncodeToString b) retryCount)
     (errorsNew (''failed to acquire nonce lock: '' @ key))" if "d_rdb d"

text \<open>What each result of the acquisition loop means for the call, and the call after its loop.\<close>

lemma acquired_meaning:
  assumes "acquired_by (''lock:'' @ key) (EncodeToString b) retryCount a es" "d_rdb d"
  shows "case a of
      Inl e \<Rightarrow> refused d key (EvRandRead (Inr b) # es) e
    | Inr ok \<Rightarrow> if ok then entered d key (EvRandRead (Inr b) # es) [EvRelease (''lock:'' @ key) (EncodeToString b)]
        else refused d key (EvRandRead (Inr b) # es) (errorsNew (''failed to acquire nonce lock: '' @ key))"
  using assms(1)
proof (cases rule: acquired_by.cases)
  case (got n)
  then show ?thesis using entered.via_redis [OF assms(2)] by simp
next
  case gave_up
  then show ?thesis using refused.contended [OF assms(2), of key b] by simp
qed (use assms in \<open>auto intro: refused.no_lock\<close>)

lemma withRedisLock_acquires:
  assumes "x_RandRead (d_ext d) (trace w) = Inr b"
  obtains a es w2 where "w2 = w\<lparr>trace := trace w @ EvRandRead (Inr b) # es\<rparr>"
    "acquired_by (''lock:'' @ key) (EncodeToString b) retryCount a es"
    "withRedisLock d key cap fn w = (case a of
         Inl e \<Rightarrow> ((cap, Some e), w2)
       | Inr False \<Rightarrow> ((cap, Some (errorsNew (''failed to acquire nonce lock: '' @ key))), w2)
       | Inr True \<Rightarrow> (case fn w2 of (y, w3) \<Rightarrow>
           (y, w3\<lparr>trace := trace w3 @ [EvRelease (''lock:'' @ key) (EncodeToString b)]\<rparr>)))"
proof -
  let ?w1 = "w\<lparr>trace := trace w @ [EvRandRead (Inr b)]\<rparr>"
  obtain a w2 where a: "acquireLoop d (''lock:'' @ key) (EncodeToString b) retryCount ?w1 = (a, w2)" by fastforce
  from acquireLoop_shape [OF this] obtain es where w2: "w2 = ?w1\<lparr>trace := trace ?w1 @ es\<rparr>"
    and es: "acquired_by (''lock:'' @ key) (EncodeToString b) retryCount a es" by blast
  show thesis
    by (rule that [OF _ es]) (use w2 a assms in \<open>auto simp: withRedisLock_def randomToken_def io_simps Let_def
        split: sum.splits prod.splits bool.splits\<close>)
qed

lemma withRedisLock_cases:
  assumes r: "withRedisLock d key cap fn w = (res, w')" and rdb: "d_rdb d"
  shows "(\<exists>pre post w2. entered d key pre post \<and> fn (w\<lparr>trace := trace w @ pre\<rparr>) = (res, w2) \<and>
            w' = w2\<lparr>trace := trace w2 @ post\<rparr>)
       \<or> (\<exists>es e. refused d key es e \<and> res = (cap, Some e) \<and> w' = w\<lparr>trace := trace w @ es\<rparr>)"
proof (cases "x_RandRead (d_ext d) (trace w)")
  case (Inl e)
  with r refused.no_token [OF rdb, of key e] show ?thesis
    by (auto simp: withRedisLock_def randomToken_def io_simps Let_def)
next
  case (Inr b)
  obtain a es w2 where w2: "w2 = w\<lparr>trace := trace w @ EvRandRead (Inr b) # es\<rparr>"
    and es: "acquired_by (''lock:'' @ key) (EncodeToString b) retryCount a es"
    and run: "withRedisLock d key cap fn w = (case a of
         Inl e \<Rightarrow> ((cap, Some e), w2)
       | Inr False \<Rightarrow> ((cap, Some (errorsNew (''failed to acquire nonce lock: '' @ key))), w2)
       | Inr True \<Rightarrow> (case fn w2 of (y, w3) \<Rightarrow>
           (y, w3\<lparr>trace := trace w3 @ [EvRelease (''lock:'' @ key) (EncodeToString b)]\<rparr>)))"
    by (rule withRedisLock_acquires [OF Inr])
  note m = acquired_meaning [OF es rdb]
  consider e where "a = Inl e" | "a = Inr False" | "a = Inr True" by (cases a) auto
  then show ?thesis
  proof cases
    case 3
    then obtain w3 where "fn w2 = (res, w3)" "w' = w3\<lparr>trace := trace w3 @ [EvRelease (''lock:'' @ key) (EncodeToString b)]\<rparr>"
      using run r by (auto split: prod.splits)
    with m w2 3 show ?thesis
      by (intro disjI1 exI [of _ "EvRandRead (Inr b) # es"]
          exI [of _ "[EvRelease (''lock:'' @ key) (EncodeToString b)]"] exI [of _ w3]) simp
  qed (intro disjI2 exI [of _ "EvRandRead (Inr b) # es"], use m run r w2 in auto)+
qed

lemma WithNonceLock_cases:
  assumes r: "WithNonceLock d key cap fn w = (res, w')"
  shows "(\<exists>pre post w2. entered d key pre post \<and>
            fn (w\<lparr>trace := trace w @ EvLock key # pre\<rparr>) = (res, w2) \<and>
            w' = w2\<lparr>trace := trace w2 @ post @ [EvUnlock key]\<rparr>)
       \<or> (\<exists>es e. refused d key es e \<and> res = (cap, Some e) \<and>
            w' = w\<lparr>trace := trace w @ EvLock key # es @ [EvUnlock key]\<rparr>)"
proof -
  let ?w0 = "w\<lparr>trace := trace w @ [EvLock key]\<rparr>"
  let ?body = "if \<not> d_rdb d then fn else withRedisLock d key cap fn"
  obtain y w1 where b: "?body ?w0 = (y, w1)" by fastforce
  with r have y: "res = y" "w' = w1\<lparr>trace := trace w1 @ [EvUnlock key]\<rparr>"
    by (auto simp: WithNonceLock_def io_simps split: prod.splits)
  show ?thesis
  proof (cases "d_rdb d")
    case False
    with b y entered.in_process [of d key] show ?thesis
      by (intro disjI1 exI [of _ "[]"] exI [of _ w1]) auto
  next
    case True
    with b have "withRedisLock d key cap fn ?w0 = (y, w1)" by simp
    from withRedisLock_cases [OF this True] y show ?thesis by fastforce
  qed
qed

lemma entered_quiet: "entered d key pre post \<Longrightarrow> quiet pre \<and> quiet post"
  by (erule entered.cases) auto

lemma refused_quiet: "refused d key es e \<Longrightarrow> quiet es"
  by (erule refused.cases) (auto dest: acquired_by_quiet)

interpretation wl: nonce_lock "WithNonceLock d" for d
  by unfold_locales (blast dest: WithNonceLock_cases entered_quiet refused_quiet)

section \<open>The cursor is a round-robin source\<close>

text \<open>The last value redis returned for a counter, as the trace shows it (0 before the first).\<close>

fun incr_value :: "string \<Rightarrow> event \<Rightarrow> int option" where
  "incr_value k (EvIncr k' (Inr v)) = (if k' = k then Some v else None)"
| "incr_value k _ = None"

fun last_incr :: "string \<Rightarrow> trace \<Rightarrow> int \<Rightarrow> int" where
  "last_incr k [] v = v"
| "last_incr k (e # es) v = last_incr k es (case incr_value k e of Some u \<Rightarrow> u | None \<Rightarrow> v)"

text \<open>
  The documented behaviour of redis \<open>INCR\<close> for a counter only this process increments: the
  answer is one more than the last one.
\<close>

definition incr_law :: "deps \<Rightarrow> string \<Rightarrow> bool" where
  "incr_law d key \<longleftrightarrow> (\<forall>t. x_Incr (d_ext d) t (''walletcursor:'' @ key) =
     Inr (last_incr (''walletcursor:'' @ key) t 0 + 1))"

definition nx_cursor :: "deps \<Rightarrow> string \<Rightarrow> world \<Rightarrow> int" where
  "nx_cursor d key w = (if d_rdb d then last_incr (''walletcursor:'' @ key) (trace w) 0 + 1
                        else uint (cursors w key))"

definition nx_room :: "deps \<Rightarrow> string \<Rightarrow> nat \<Rightarrow> nat \<Rightarrow> world \<Rightarrow> bool" where
  "nx_room d key m k w \<longleftrightarrow> Suc m < 2 ^ 63 \<and>
     (if d_rdb d then incr_law d key else uint (cursors w key) + int k < 2 ^ 64)"

lemma last_incr_append: "last_incr k (es @ fs) v = last_incr k fs (last_incr k es v)"
  by (induction es arbitrary: v) auto

lemma uint_mod_of_nat:
  fixes c :: uint64
  assumes "n < 2 ^ 64"
  shows "uint (c mod of_nat n) = uint c mod int n"
  using assms by (simp add: uint_mod unsigned_of_nat take_bit_nat_eq_self)

lemma uint_Suc:
  fixes c :: uint64
  assumes "uint c + 1 < 2 ^ 64"
  shows "uint (c + 1) = uint c + 1"
  using assms by (simp add: uint_word_ariths)

lemma NextIndex_local:
  assumes "\<not> d_rdb d" "1 < n" "n < 2 ^ 63"
  shows "NextIndex d key n w = (Inr (uint (cursors w key) mod int n),
           w\<lparr>cursors := (cursors w)(key := cursors w key + 1)\<rparr>)"
  using assms uint_mod_of_nat [of n "cursors w key"]
  by (simp add: NextIndex_def nextIndexLocal_def io_simps Let_def)

lemma NextIndex_redis:
  assumes "d_rdb d" "1 < n" "x_Incr (d_ext d) (trace w) (''walletcursor:'' @ key) = Inr v"
  shows "NextIndex d key n w = (Inr (v mod int n),
           w\<lparr>trace := trace w @ [EvIncr (''walletcursor:'' @ key) (Inr v)]\<rparr>)"
  using assms by (simp add: NextIndex_def wrapE_def io_simps go_rem_wrap)

lemma NextIndex_step:
  assumes "nx_room d key m (Suc k) w"
  shows "\<exists>t. NextIndex d key (Suc m) w = (Inr (nx_cursor d key w mod int (Suc m)), t)
     \<and> nx_cursor d key t mod int (Suc m) = (nx_cursor d key w + 1) mod int (Suc m)
     \<and> nx_room d key m k t"
proof (cases "m = 0")
  case True
  with assms show ?thesis by (auto simp: NextIndex_def nx_room_def split: if_splits)
next
  case False
  then have m: "1 < Suc m" by simp
  show ?thesis
  proof (cases "d_rdb d")
    case True
    with assms have "x_Incr (d_ext d) (trace w) (''walletcursor:'' @ key) =
        Inr (last_incr (''walletcursor:'' @ key) (trace w) 0 + 1)"
      by (simp add: nx_room_def incr_law_def)
    from NextIndex_redis [OF True m this] True assms show ?thesis
      by (simp add: nx_cursor_def nx_room_def last_incr_append)
  next
    case False
    from NextIndex_local [OF this m] False assms show ?thesis
      by (simp add: nx_cursor_def nx_room_def uint_Suc)
  qed
qed

interpretation rr: round_robin "NextIndex d key (Suc m)" "nx_cursor d key" "Suc m" "nx_room d key m"
  for d key m
  by unfold_locales (simp, rule NextIndex_step)

section \<open>Properties\<close>

text \<open>
  Whatever value redis returns, even a negative one, a successful call of \<open>NextIndex\<close> on a
  non-empty pool gives an index into the pool.
\<close>

theorem NextIndex_in_pool:
  assumes "NextIndex d key n w = (Inr i, w')" "0 < n" "n < 2 ^ 63"
  shows "0 \<le> i \<and> i < int n"
proof (cases "n \<le> 1")
  case True
  with assms show ?thesis by (simp add: NextIndex_def)
next
  case False
  then have n: "1 < n" by simp
  show ?thesis
  proof (cases "d_rdb d")
    case False
    with NextIndex_local [OF this n assms(3), of key w] assms(1) show ?thesis using n by auto
  next
    case True
    then obtain v where "x_Incr (d_ext d) (trace w) (''walletcursor:'' @ key) = Inr v"
      using assms(1) n
      by (cases "x_Incr (d_ext d) (trace w) (''walletcursor:'' @ key)")
         (auto simp: NextIndex_def wrapE_def io_simps)
    with NextIndex_redis [OF True n this] assms(1) n show ?thesis by auto
  qed
qed

theorem NextIndex_in_pool_witness:
  "\<exists>i w'. NextIndex (demo_deps (offline_ext\<lparr>x_Incr := \<lambda>t k. Inr (- 5)\<rparr>) True) ''c'' 3 init_world
     = (Inr i, w') \<and> i \<in> {0..<3}"
proof -
  let ?d = "demo_deps (offline_ext\<lparr>x_Incr := \<lambda>t k. Inr (- 5)\<rparr>) True"
  have "NextIndex ?d ''c'' 3 init_world = (Inr (- 5 mod int 3),
      init_world\<lparr>trace := trace init_world @ [EvIncr (''walletcursor:'' @ ''c'') (Inr (- 5))]\<rparr>)"
    by (rule NextIndex_redis) simp_all
  from this NextIndex_in_pool [OF this] show ?thesis by simp
qed

text \<open>
  C16: round-robin fairness. Over any \<open>r\<close> full rounds of consecutive calls each of the \<open>n\<close> pool
  indices is returned exactly \<open>r\<close> times, with the in-process counter as long as it does not
  wrap around, and with redis under the documented behaviour of \<open>INCR\<close>.
\<close>

theorem NextIndex_fair:
  assumes "0 < n" "n < 2 ^ 63" "j < n"
    and "if d_rdb d then incr_law d key else uint (cursors w key) + int (r * n) < 2 ^ 64"
  shows "count_list (calls (NextIndex d key n) (r * n) w) (Inr (int j)) = r"
proof -
  obtain m where m: "n = Suc m" using assms(1) by (cases n) auto
  with assms have "nx_room d key m (r * n) w" by (cases "d_rdb d") (simp_all add: nx_room_def)
  with assms(3) m show ?thesis using rr.fair [of d key m r w j] by simp
qed

theorem NextIndex_fair_witness:
  "count_list (calls (NextIndex (demo_deps offline_ext False) ''c'' 3) (2 * 3) init_world)
     (Inr (int 1)) = 2
   \<and> count_list (calls (NextIndex (demo_deps (offline_ext
        \<lparr>x_Incr := \<lambda>t k. Inr (last_incr k t 0 + 1)\<rparr>) True) ''c'' 3) (2 * 3) init_world)
     (Inr (int 1)) = 2"
  by (intro conjI NextIndex_fair) (simp_all add: incr_law_def)

text \<open>
  C14: \<open>WithNonceLock\<close> runs the critical section exactly once or not at all. It runs between
  the acquisition (of the local mutex and, with redis, of the lock under a fresh token, within
  ten attempts) and the release with the same token; when it does not run, the captured
  variables are untouched, an error is returned and the local mutex is released all the same.
\<close>

theorem WithNonceLock_outcome:
  assumes "WithNonceLock d key cap fn w = (res, w')"
  shows "(\<exists>pre post w2. entered d key pre post \<and>
            fn (w\<lparr>trace := trace w @ EvLock key # pre\<rparr>) = (res, w2) \<and>
            w' = w2\<lparr>trace := trace w2 @ post @ [EvUnlock key]\<rparr>)
       \<or> (\<exists>es e. refused d key es e \<and> res = (cap, Some e) \<and>
            w' = w\<lparr>trace := trace w @ EvLock key # es @ [EvUnlock key]\<rparr>)"
  by (rule WithNonceLock_cases) (rule assms)

theorem WithNonceLock_outcome_witness:
  "\<exists>es e w'. WithNonceLock (demo_deps offline_ext True) ''k'' (0::nat) (ret (1, None)) init_world
       = ((0, Some e), w')
     \<and> refused (demo_deps offline_ext True) ''k'' es e
     \<and> trace w' = EvLock ''k'' # es @ [EvUnlock ''k'']"
proof -
  let ?d = "demo_deps offline_ext True"
  have r: "WithNonceLock ?d ''k'' (0::nat) (ret (1, None)) init_world
     = ((0, Some offline), init_world\<lparr>trace := [EvLock ''k'', EvRandRead (Inl offline), EvUnlock ''k'']\<rparr>)"
    by (simp add: WithNonceLock_def withRedisLock_def randomToken_def offline_ext_def io_simps Let_def)
  from WithNonceLock_outcome [OF r] show ?thesis
  proof
    assume "\<exists>pre post w2. entered ?d ''k'' pre post \<and>
        ret (1, None) (init_world\<lparr>trace := trace init_world @ EvLock ''k'' # pre\<rparr>) = ((0, Some offline), w2) \<and>
        init_world\<lparr>trace := [EvLock ''k'', EvRandRead (Inl offline), EvUnlock ''k'']\<rparr>
          = w2\<lparr>trace := trace w2 @ post @ [EvUnlock ''k'']\<rparr>"
    then show ?thesis by (simp add: io_simps)
  next
    assume "\<exists>es e. refused ?d ''k'' es e \<and> (0::nat, Some offline) = (0, Some e) \<and>
        init_world\<lparr>trace := [EvLock ''k'', EvRandRead (Inl offline), EvUnlock ''k'']\<rparr>
          = init_world\<lparr>trace := trace init_world @ EvLock ''k'' # es @ [EvUnlock ''k'']\<rparr>"
    then obtain es where es: "refused ?d ''k'' es offline"
      "init_world\<lparr>trace := [EvLock ''k'', EvRandRead (Inl offline), EvUnlock ''k'']\<rparr>
          = init_world\<lparr>trace := trace init_world @ EvLock ''k'' # es @ [EvUnlock ''k'']\<rparr>" by blast
    have "trace (init_world\<lparr>trace := [EvLock ''k'', EvRandRead (Inl offline), EvUnlock ''k'']\<rparr>)
        = EvLock ''k'' # es @ [EvUnlock ''k'']" unfolding es(2) by simp
    with r es(1) show ?thesis by blast
  qed
qed

end
