(* ===== verification/Lock_Protocol.thy ===== *)
theory Lock_Protocol
  imports Locker
begin

text \<open>
  Several processes, each with several goroutines, contending for one nonce-lock key. A
  goroutine \<open>(p, i)\<close> of process \<open>p\<close> goes through \<open>WithNonceLock\<close> and \<open>withRedisLock\<close> step by step:
  it calls and waits for the local mutex, draws a token, makes up to ten \<open>SET NX\<close> attempts, runs
  the critical section, then the release script, and releases the mutex. The redis key may
  expire; the flag \<open>slow\<close> says whether it may do so while its owner is still inside the critical
  section, that is, whether the section can outlast \<open>NONCE_LOCK_TTL_MS\<close>. \<open>local_step\<close> is the
  same call in a process without redis.
\<close>

section \<open>State and steps\<close>

type_synonym goroutine = "nat \<times> nat"

text \<open>\<open>Waiting\<close>: the call waits in \<open>m.Lock()\<close>.\<close>

datatype lock_pc =
    Idle
  | Waiting
  | HasMutex
  | Trying string nat
  | Critical string
  | Releasing string
  | Unlocking

fun pc_token :: "lock_pc \<Rightarrow> string option" where
  "pc_token (Trying k _) = Some k"
| "pc_token (Critical k) = Some k"
| "pc_token (Releasing k) = Some k"
| "pc_token _ = None"

record lock_state =
  pcs :: "goroutine \<Rightarrow> lock_pc"
  mutex :: "nat \<Rightarrow> nat option"
  redis_lock :: "string option"

definition lock_init :: "lock_state \<Rightarrow> bool" where
  "lock_init s \<longleftrightarrow> s = \<lparr>pcs = (\<lambda>_. Idle), mutex = (\<lambda>_. None), redis_lock = None\<rparr>"

text \<open>
  \<open>draw\<close> takes a token no other running call has: tokens are 16 random bytes, and their
  collision is not modelled; \<open>no_token\<close> is a failing random source. \<open>setnx_failed\<close> is an error of
  redis, \<open>setnx_lost\<close> one of a \<open>SET NX\<close> that took effect all the same, whose key is left to expire.
  The context can end in the wait after an attempt that found the lock taken; after the last
  attempt the call gives up. \<open>release_failed\<close> is a release script that never ran: its error is
  ignored, and the key is left to expire.
\<close>

inductive lock_step :: "bool \<Rightarrow> lock_state \<Rightarrow> lock_state \<Rightarrow> bool" for slow where
  call: "lock_step slow s (s\<lparr>pcs := (pcs s)(g := Waiting)\<rparr>)" if "pcs s g = Idle"
| lock_local: "lock_step slow s (s\<lparr>pcs := (pcs s)((p, i) := HasMutex), mutex := (mutex s)(p := Some i)\<rparr>)"
    if "pcs s (p, i) = Waiting" "mutex s p = None"
| no_token: "lock_step slow s (s\<lparr>pcs := (pcs s)(g := Unlocking)\<rparr>)" if "pcs s g = HasMutex"
| draw: "lock_step slow s (s\<lparr>pcs := (pcs s)(g := Trying k retryCount)\<rparr>)"
    if "pcs s g = HasMutex" "\<forall>g'. pc_token (pcs s g') \<noteq> Some k"
| setnx_ok: "lock_step slow s (s\<lparr>pcs := (pcs s)(g := Critical k), redis_lock := Some k\<rparr>)"
    if "pcs s g = Trying k (Suc n)" "redis_lock s = None"
| setnx_taken: "lock_step slow s (s\<lparr>pcs := (pcs s)(g := Trying k n)\<rparr>)"
    if "pcs s g = Trying k (Suc n)" "redis_lock s = Some k'"
| setnx_failed: "lock_step slow s (s\<lparr>pcs := (pcs s)(g := Unlocking)\<rparr>)" if "pcs s g = Trying k (Suc n)"
| setnx_lost: "lock_step slow s (s\<lparr>pcs := (pcs s)(g := Unlocking), redis_lock := Some k\<rparr>)"
    if "pcs s g = Trying k (Suc n)" "redis_lock s = None"
| cancelled: "lock_step slow s (s\<lparr>pcs := (pcs s)(g := Unlocking)\<rparr>)" if "pcs s g = Trying k n" "n < retryCount"
| exhausted: "lock_step slow s (s\<lparr>pcs := (pcs s)(g := Unlocking)\<rparr>)" if "pcs s g = Trying k 0"
| finish: "lock_step slow s (s\<lparr>pcs := (pcs s)(g := Releasing k)\<rparr>)" if "pcs s g = Critical k"
| release_own: "lock_step slow s (s\<lparr>pcs := (pcs s)(g := Unlocking), redis_lock := None\<rparr>)"
    if "pcs s g = Releasing k" "redis_lock s = Some k"
| release_other: "lock_step slow s (s\<lparr>pcs := (pcs s)(g := Unlocking)\<rparr>)"
    if "pcs s g = Releasing k" "redis_lock s \<noteq> Some k"
| release_failed: "lock_step slow s (s\<lparr>pcs := (pcs s)(g := Unlocking)\<rparr>)" if "pcs s g = Releasing k"
| unlock_local: "lock_step slow s (s\<lparr>pcs := (pcs s)((p, i) := Idle), mutex := (mutex s)(p := None)\<rparr>)"
    if "pcs s (p, i) = Unlocking"
| expire: "lock_step slow s (s\<lparr>redis_lock := None\<rparr>)"
    if "redis_lock s = Some k" "slow \<or> (\<forall>g. pcs s g \<noteq> Critical k \<and> pcs s g \<noteq> Releasing k)"

inductive_cases lock_stepE: "lock_step slow s t"

section \<open>Invariant\<close>

text \<open>
  The local mutex is held by exactly the goroutine that is past it, tokens of running calls
  differ, finitely many calls are under way, and, unless the key can expire under its owner, a
  goroutine in the critical section owns the redis key.
\<close>

definition past_mutex :: "lock_pc \<Rightarrow> bool" where
  "past_mutex pc \<longleftrightarrow> pc \<noteq> Idle \<and> pc \<noteq> Waiting"

definition mutex_inv :: "lock_state \<Rightarrow> bool" where
  "mutex_inv s \<longleftrightarrow> (\<forall>p i. past_mutex (pcs s (p, i)) \<longleftrightarrow> mutex s p = Some i)"

definition finite_inv :: "lock_state \<Rightarrow> bool" where
  "finite_inv s \<longleftrightarrow> finite {g. pcs s g \<noteq> Idle}"

definition token_inv :: "lock_state \<Rightarrow> bool" where
  "token_inv s \<longleftrightarrow> (\<forall>g g' k. pc_token (pcs s g) = Some k \<and> pc_token (pcs s g') = Some k \<longrightarrow> g = g')"

definition owner_inv :: "lock_state \<Rightarrow> bool" where
  "owner_inv s \<longleftrightarrow> (\<forall>g k. pcs s g = Critical k \<or> pcs s g = Releasing k \<longrightarrow> redis_lock s = Some k)"

definition lock_inv :: "bool \<Rightarrow> lock_state \<Rightarrow> bool" where
  "lock_inv slow s \<longleftrightarrow> mutex_inv s \<and> token_inv s \<and> finite_inv s \<and> (\<not> slow \<longrightarrow> owner_inv s)"

lemma past_mutex_simps [simp]:
  "\<not> past_mutex Idle" "\<not> past_mutex Waiting" "past_mutex HasMutex" "past_mutex (Trying k n)"
  "past_mutex (Critical k)" "past_mutex (Releasing k)" "past_mutex Unlocking"
  by (simp_all add: past_mutex_def)

text \<open>Every step but the expiry of the key moves one goroutine.\<close>

lemma step_moves_one: "lock_step slow s t \<Longrightarrow> \<exists>g pc. pcs t = (pcs s)(g := pc)"
proof (induction rule: lock_step.induct)
  case (expire s k)
  then show ?case by (intro exI [of _ undefined] exI [of _ "pcs s undefined"]) simp
qed auto

lemma finite_inv_step: "lock_step slow s t \<Longrightarrow> finite_inv s \<Longrightarrow> finite_inv t"
proof -
  assume st: "lock_step slow s t" and f: "finite_inv s"
  obtain g pc where t: "pcs t = (pcs s)(g := pc)" using step_moves_one [OF st] by blast
  have "{g'. pcs t g' \<noteq> Idle} \<subseteq> insert g {g'. pcs s g' \<noteq> Idle}" unfolding t by auto
  with f show ?thesis unfolding finite_inv_def by (meson finite_insert finite_subset)
qed

text \<open>A step that moves a goroutine which stays on its side of the mutex keeps the mutex.\<close>

lemma mutex_inv_move:
  assumes "mutex_inv s" "past_mutex pc = past_mutex (pcs s g)" "mutex t = mutex s" "pcs t = (pcs s)(g := pc)"
  shows "mutex_inv t"
  using assms by (auto simp: mutex_inv_def)

lemma mutex_inv_step: "lock_step slow s t \<Longrightarrow> mutex_inv s \<Longrightarrow> mutex_inv t"
proof (induction rule: lock_step.induct)
  case (lock_local s p i)
  then show ?case by (auto simp: mutex_inv_def)
next
  case (unlock_local s p i)
  then have "mutex s p = Some i" using past_mutex_simps(7) unfolding mutex_inv_def by metis
  with unlock_local show ?case by (auto simp: mutex_inv_def)
next
  case (expire s k)
  then show ?case by (simp add: mutex_inv_def)
qed (erule mutex_inv_move; simp)+

lemma token_inv_step: "lock_step slow s t \<Longrightarrow> token_inv s \<Longrightarrow> token_inv t"
proof (induction rule: lock_step.induct)
  case (draw s g k)
  then show ?case by (auto simp: token_inv_def)
qed (auto simp: token_inv_def split: if_splits; metis pc_token.simps)+

lemma owner_inv_step:
  "lock_step False s t \<Longrightarrow> token_inv s \<Longrightarrow> owner_inv s \<Longrightarrow> owner_inv t"
proof (induction rule: lock_step.induct)
  case (release_own s g k)
  have "g' = g" if "pcs s g' = Critical k' \<or> pcs s g' = Releasing k'" for g' k'
  proof -
    from that release_own.prems(2) release_own.hyps(2) have "k' = k"
      unfolding owner_inv_def by (metis option.inject)
    with that have "pc_token (pcs s g') = Some k" by auto
    moreover have "pc_token (pcs s g) = Some k" using release_own.hyps(1) by simp
    ultimately show ?thesis using release_own.prems(1) unfolding token_inv_def by blast
  qed
  then show ?case by (auto simp: owner_inv_def)
qed (auto simp: owner_inv_def)

interpretation lk: invariant_system lock_init "lock_step slow" "lock_inv slow" for slow
proof unfold_locales
  fix s assume "lock_init s"
  then show "lock_inv slow s"
    by (simp add: lock_init_def lock_inv_def mutex_inv_def token_inv_def owner_inv_def finite_inv_def)
next
  fix s t assume "lock_inv slow s" "lock_step slow s t"
  then show "lock_inv slow t"
    unfolding lock_inv_def
    by (cases slow) (auto intro: mutex_inv_step token_inv_step owner_inv_step finite_inv_step)
qed

section \<open>Properties\<close>

text \<open>
  Within one process at most one goroutine is past the local mutex of a key, whatever
  redis does and however early the redis key expires.
\<close>

lemma local_exclusion:
  assumes "lk.reach slow s" "past_mutex (pcs s (p, i))" "past_mutex (pcs s (p, j))"
  shows "i = j"
  using lk.reach_inv [OF assms(1)] assms(2,3) unfolding lock_inv_def mutex_inv_def by (metis option.inject)

text \<open>
  C5: global nonce serialisation. As long as the lock's TTL outlives every critical section,
  at most one goroutine of all processes is in the critical section of a key.
\<close>

theorem global_exclusion:
  assumes "lk.reach False s" "pcs s g = Critical k" "pcs s g' = Critical k'"
  shows "g = g'"
proof -
  from lk.reach_inv [OF assms(1)] have inv: "token_inv s" "owner_inv s" by (auto simp: lock_inv_def)
  from inv(2) assms(2,3) have "k = k'" unfolding owner_inv_def by (metis option.inject)
  with assms(2,3) have "pc_token (pcs s g) = Some k" "pc_token (pcs s g') = Some k" by simp_all
  with inv(1) show ?thesis unfolding token_inv_def by blast
qed

text \<open>
  C17: the release script never deletes another holder's lock: a step that removes the redis
  key while some goroutine owns it (its token is the key's value) is that goroutine's own
  release, or the expiry of the key.
\<close>

theorem release_only_own:
  assumes "lk.reach slow s" "lock_step slow s t"
    and "redis_lock s = Some k" "pc_token (pcs s g) = Some k" "redis_lock t = None"
  shows "pcs s g = Releasing k \<and> pcs t g = Unlocking \<or> t = s\<lparr>redis_lock := None\<rparr>"
proof -
  from lk.reach_inv [OF assms(1)] have tok: "token_inv s" by (simp add: lock_inv_def)
  from assms(2) show ?thesis
  proof cases
    case (release_own g' k')
    then have "pc_token (pcs s g') = Some k" using assms(3) by simp
    with tok assms(4) have "g' = g" unfolding token_inv_def by blast
    with release_own assms(3) show ?thesis by simp
  qed (use assms(3-5) in auto)
qed

section \<open>Termination\<close>

text \<open>The number of own steps a call still needs at most.\<close>

fun rank :: "lock_pc \<Rightarrow> nat" where
  "rank Idle = 0"
| "rank Unlocking = 1"
| "rank (Releasing _) = 2"
| "rank (Critical _) = 3"
| "rank (Trying _ n) = n + 3"
| "rank HasMutex = retryCount + 4"
| "rank Waiting = retryCount + 5"

lemma rank_step:
  "lock_step slow s t \<Longrightarrow> pcs s g \<noteq> Idle \<Longrightarrow>
     pcs t g = pcs s g \<or> rank (pcs t g) < rank (pcs s g)"
  by (induction rule: lock_step.induct) auto

text \<open>
  The moves of a call that nothing goes wrong with: no failing random source, no error of redis, no
  cancellation. A call that does not get the lock gives up only after its last attempt.
\<close>

fun advances :: "lock_pc \<Rightarrow> lock_pc \<Rightarrow> bool" where
  "advances Waiting pc \<longleftrightarrow> pc = HasMutex"
| "advances HasMutex pc \<longleftrightarrow> (\<exists>k. pc = Trying k retryCount)"
| "advances (Trying k (Suc n)) pc \<longleftrightarrow> pc = Critical k \<or> pc = Trying k n"
| "advances (Trying k 0) pc \<longleftrightarrow> pc = Unlocking"
| "advances (Critical k) pc \<longleftrightarrow> pc = Releasing k"
| "advances (Releasing k) pc \<longleftrightarrow> pc = Unlocking"
| "advances Unlocking pc \<longleftrightarrow> pc = Idle"
| "advances Idle pc \<longleftrightarrow> False"

lemma advances_rank: "advances pc pc' \<Longrightarrow> rank pc' < rank pc"
  by (induction pc pc' rule: advances.induct) auto

text \<open>Such a move of a goroutine of process \<open>p\<close> that is in a call.\<close>

definition moves :: "bool \<Rightarrow> nat \<Rightarrow> lock_state \<Rightarrow> lock_state \<Rightarrow> bool" where
  "moves slow p s t \<longleftrightarrow> lock_step slow s t \<and> (\<exists>i. advances (pcs s (p, i)) (pcs t (p, i)))"

lemma fresh_token:
  assumes "finite_inv s"
  shows "\<exists>k. \<forall>g. pc_token (pcs s g) \<noteq> Some k"
proof -
  have "{k. \<exists>g. pc_token (pcs s g) = Some k} \<subseteq> (\<lambda>g. the (pc_token (pcs s g))) ` {g. pcs s g \<noteq> Idle}"
  proof
    fix k assume "k \<in> {k. \<exists>g. pc_token (pcs s g) = Some k}"
    then obtain g where g: "pc_token (pcs s g) = Some k" by blast
    then have "pcs s g \<noteq> Idle" by auto
    with g show "k \<in> (\<lambda>g. the (pc_token (pcs s g))) ` {g. pcs s g \<noteq> Idle}" by (metis (mono_tags) image_eqI mem_Collect_eq option.sel)
  qed
  with assms have "finite {k. \<exists>g. pc_token (pcs s g) = Some k}"
    unfolding finite_inv_def by (meson finite_imageI finite_subset)
  from ex_new_if_finite [OF infinite_UNIV_listI this] show ?thesis by auto
qed

lemma past_advances:
  assumes "past_mutex (pcs s (p, i))" "finite_inv s"
  shows "\<exists>t pc. lock_step slow s t \<and> pcs t = (pcs s)((p, i) := pc) \<and> advances (pcs s (p, i)) pc"
proof (cases "pcs s (p, i)")
  case HasMutex
  obtain k where "\<forall>g. pc_token (pcs s g) \<noteq> Some k" using fresh_token [OF assms(2)] by blast
  with HasMutex lock_step.draw [OF HasMutex, of k slow] show ?thesis by fastforce
next
  case (Trying k n)
  show ?thesis
  proof (cases n)
    case 0
    with Trying lock_step.exhausted [of s "(p, i)" k slow] show ?thesis by fastforce
  next
    case (Suc m)
    note tr = Trying [unfolded Suc]
    show ?thesis
    proof (cases "redis_lock s")
      case None
      from lock_step.setnx_ok [OF tr None, of slow] tr show ?thesis by fastforce
    next
      case (Some k')
      from lock_step.setnx_taken [OF tr Some, of slow] tr show ?thesis by fastforce
    qed
  qed
next
  case (Critical k)
  with lock_step.finish [OF Critical, of slow] show ?thesis by fastforce
next
  case (Releasing k)
  with lock_step.release_own [OF Releasing, of slow] lock_step.release_other [OF Releasing, of slow] show ?thesis
    by (cases "redis_lock s = Some k") fastforce+
next
  case Unlocking
  with lock_step.unlock_local [OF Unlocking, of slow] show ?thesis by fastforce
qed (use assms(1) in simp_all)

text \<open>
  While a call of the process is under way, one of its calls can move on: the one that has the
  mutex, or, when the mutex is free, one that waits for it.
\<close>

lemma some_call_moves:
  assumes "mutex_inv s" "finite_inv s" "pcs s (p, j) \<noteq> Idle"
  shows "\<exists>t i pc. lock_step slow s t \<and> pcs t = (pcs s)((p, i) := pc) \<and> advances (pcs s (p, i)) pc"
proof (cases "mutex s p")
  case None
  with assms(1) have "\<not> past_mutex (pcs s (p, j))" unfolding mutex_inv_def by auto
  with assms(3) have w: "pcs s (p, j) = Waiting" by (simp add: past_mutex_def)
  from lock_step.lock_local [OF w None, of slow] w show ?thesis by fastforce
next
  case (Some i)
  with assms(1) have "past_mutex (pcs s (p, i))" unfolding mutex_inv_def by blast
  from past_advances [OF this assms(2)] show ?thesis by blast
qed

text \<open>The steps all calls of a process still need at most.\<close>

definition work :: "nat \<Rightarrow> lock_state \<Rightarrow> nat" where
  "work p s = (\<Sum>i \<in> {i. pcs s (p, i) \<noteq> Idle}. rank (pcs s (p, i)))"

lemma work_decreases:
  assumes "finite_inv s" "pcs t = (pcs s)((p, i) := pc)" "advances (pcs s (p, i)) pc"
  shows "work p t < work p s"
proof -
  let ?A = "{i. pcs s (p, i) \<noteq> Idle}"
  have "?A \<subseteq> snd ` {g. pcs s g \<noteq> Idle}" by force
  with assms(1) have fin: "finite ?A" unfolding finite_inv_def by (meson finite_imageI finite_subset)
  have i: "i \<in> ?A" using assms(3) by auto
  then have sub: "{j. pcs t (p, j) \<noteq> Idle} \<subseteq> ?A" unfolding assms(2) by auto
  have "work p t = (\<Sum>j \<in> ?A. rank (pcs t (p, j)))"
    unfolding work_def by (rule sum.mono_neutral_left [OF fin sub]) auto
  also have "\<dots> < work p s"
    unfolding work_def
    by (rule sum_strict_mono_ex1 [OF fin]) (use i advances_rank [OF assms(3)] in \<open>auto simp: assms(2)\<close>)
  finally show ?thesis .
qed

lemma calls_can_end:
  assumes "lk.reach slow s"
  shows "\<exists>t. (moves slow p)\<^sup>*\<^sup>* s t \<and> (\<forall>i. pcs t (p, i) = Idle)"
  using assms
proof (induction "work p s" arbitrary: s rule: less_induct)
  case less
  from lk.reach_inv [OF less.prems] have inv: "mutex_inv s" "finite_inv s" by (simp_all add: lock_inv_def)
  show ?case
  proof (cases "\<forall>i. pcs s (p, i) = Idle")
    case False
    then obtain t i pc where t: "lock_step slow s t" "pcs t = (pcs s)((p, i) := pc)" "advances (pcs s (p, i)) pc"
      using some_call_moves [OF inv] by blast
    then have "moves slow p s t" unfolding moves_def by (metis fun_upd_same)
    moreover from less.hyps [OF work_decreases [OF inv(2) t(2,3)] lk.reach_step [OF less.prems t(1)]]
    obtain u where "(moves slow p)\<^sup>*\<^sup>* t u" "\<forall>i. pcs u (p, i) = Idle" by blast
    ultimately show ?thesis by (meson converse_rtranclp_into_rtranclp)
  qed auto
qed

text \<open>
  C18: calls cannot hang in the lock. From every state that can arise, whatever the calls of
  other processes hold and wherever they are, the calls under way in a process, those included
  that wait for the local mutex, can all run to their end by themselves: the critical sections
  finish, the attempts at the redis lock are counted, and nothing has to go wrong. Each own step of a call
  lowers its rank, which is at most \<open>retryCount + 5\<close>, no step of another goroutine or of redis
  raises it, and a call has ended at rank 0.
\<close>

theorem call_terminates:
  assumes "lk.reach slow s"
  shows "(\<exists>t. (moves slow p)\<^sup>*\<^sup>* s t \<and> (\<forall>i. pcs t (p, i) = Idle))
    \<and> (\<forall>t g. lock_step slow s t \<and> pcs s g \<noteq> Idle \<longrightarrow> pcs t g = pcs s g \<or> rank (pcs t g) < rank (pcs s g))"
  using calls_can_end [OF assms] rank_step by blast

section \<open>Concrete runs\<close>

definition crit_state :: "lock_state" where
  "crit_state = \<lparr>pcs = (\<lambda>_. Idle)((0, 0) := Critical ''a''), mutex = (\<lambda>_. None)(0 := Some 0),
     redis_lock = Some ''a''\<rparr>"

lemma reach_enter:
  assumes s: "lk.reach slow s" and free: "pcs s (p, i) = Idle" "mutex s p = None" "redis_lock s = None"
    and tok: "\<forall>g. pc_token (pcs s g) \<noteq> Some k"
  shows "lk.reach slow (s\<lparr>pcs := (pcs s)((p, i) := Critical k), mutex := (mutex s)(p := Some i),
     redis_lock := Some k\<rparr>)"
proof -
  let ?s0 = "s\<lparr>pcs := (pcs s)((p, i) := Waiting)\<rparr>"
  let ?s1 = "?s0\<lparr>pcs := (pcs ?s0)((p, i) := HasMutex), mutex := (mutex ?s0)(p := Some i)\<rparr>"
  let ?s2 = "?s1\<lparr>pcs := (pcs ?s1)((p, i) := Trying k retryCount)\<rparr>"
  have 0: "lk.reach slow ?s0" using s lock_step.call [OF free(1)] by (rule lk.reach_step)
  have "lock_step slow ?s0 ?s1" by (rule lock_step.lock_local) (use free(2) in simp_all)
  with 0 have 1: "lk.reach slow ?s1" by (rule lk.reach_step)
  have "lock_step slow ?s1 ?s2" by (rule lock_step.draw) (use tok in auto)
  with 1 have 2: "lk.reach slow ?s2" by (rule lk.reach_step)
  have "lock_step slow ?s2 (?s2\<lparr>pcs := (pcs ?s2)((p, i) := Critical k), redis_lock := Some k\<rparr>)"
    by (rule lock_step.setnx_ok [where n = 9]) (simp_all add: free retryCount_def)
  with 2 have "lk.reach slow (?s2\<lparr>pcs := (pcs ?s2)((p, i) := Critical k), redis_lock := Some k\<rparr>)"
    by (rule lk.reach_step)
  also have "?s2\<lparr>pcs := (pcs ?s2)((p, i) := Critical k), redis_lock := Some k\<rparr>
      = s\<lparr>pcs := (pcs s)((p, i) := Critical k), mutex := (mutex s)(p := Some i), redis_lock := Some k\<rparr>"
    by (rule lock_state.equality) simp_all
  finally show ?thesis .
qed

lemma reach_crit_state: "lk.reach slow crit_state"
proof -
  let ?s = "\<lparr>pcs = (\<lambda>_. Idle), mutex = (\<lambda>_. None), redis_lock = None\<rparr> :: lock_state"
  have "lk.reach slow ?s" by (rule lk.reach_init) (simp add: lock_init_def)
  from reach_enter [OF this, of 0 0 "''a''"] show ?thesis by (simp add: crit_state_def)
qed

theorem global_exclusion_witness:
  "lk.reach False crit_state \<and> {g. \<exists>k. pcs crit_state g = Critical k} = {(0, 0)}"
proof -
  have "pcs crit_state (0, 0) = Critical ''a''" by (simp add: crit_state_def)
  then have "{g. \<exists>k. pcs crit_state g = Critical k} = {(0, 0)}"
    using global_exclusion [OF reach_crit_state] by blast
  with reach_crit_state show ?thesis by blast
qed

theorem release_only_own_witness:
  "\<exists>s t. lk.reach True s \<and> lock_step True s t \<and> redis_lock s = Some ''a'' \<and> redis_lock t = None
     \<and> pcs s (0, 0) = Releasing ''a'' \<and> pcs t (0, 0) = Unlocking"
proof -
  let ?s = "crit_state\<lparr>pcs := (pcs crit_state)((0, 0) := Releasing ''a'')\<rparr>"
  let ?t = "?s\<lparr>pcs := (pcs ?s)((0, 0) := Unlocking), redis_lock := None\<rparr>"
  have s: "lk.reach True ?s"
    by (rule lk.reach_step [OF reach_crit_state], rule lock_step.finish) (simp add: crit_state_def)
  have st: "lock_step True ?s ?t"
    by (rule lock_step.release_own [where k = "''a''"]) (simp_all add: crit_state_def)
  have "pcs ?s (0, 0) = Releasing ''a'' \<and> pcs ?t (0, 0) = Unlocking \<or> ?t = ?s\<lparr>redis_lock := None\<rparr>"
    by (rule release_only_own [OF s st]) (simp_all add: crit_state_def)
  with s st show ?thesis by (intro exI [of _ ?s] exI [of _ ?t]) (simp add: crit_state_def)
qed

theorem call_terminates_witness:
  "\<exists>s t. lk.reach True s \<and> pcs s (0, 0) = Critical ''a'' \<and> pcs s (0, 1) = Waiting
     \<and> (moves True 0)\<^sup>*\<^sup>* s t \<and> (\<forall>i. pcs t (0, i) = Idle)"
proof -
  let ?s = "crit_state\<lparr>pcs := (pcs crit_state)((0, 1) := Waiting)\<rparr>"
  have r: "lk.reach True ?s"
    by (rule lk.reach_step [OF reach_crit_state], rule lock_step.call) (simp add: crit_state_def)
  have "pcs ?s (0, 0) = Critical ''a''" "pcs ?s (0, 1) = Waiting" by (simp_all add: crit_state_def)
  with r call_terminates [OF r, of 0] show ?thesis by blast
qed

section \<open>Without redis\<close>

text \<open>
  A process without redis (\<open>l.rdb == nil\<close>) runs the critical section under the local mutex alone:
  call, mutex, section, unlock.
\<close>

datatype local_pc = LIdle | LWaiting | LCritical | LUnlocking

record local_state =
  lpcs :: "nat \<Rightarrow> local_pc"
  lmutex :: "nat option"

definition local_init :: "local_state \<Rightarrow> bool" where
  "local_init s \<longleftrightarrow> s = \<lparr>lpcs = (\<lambda>_. LIdle), lmutex = None\<rparr>"

inductive local_step :: "local_state \<Rightarrow> local_state \<Rightarrow> bool" where
  l_call: "local_step s (s\<lparr>lpcs := (lpcs s)(i := LWaiting)\<rparr>)" if "lpcs s i = LIdle"
| l_lock: "local_step s (s\<lparr>lpcs := (lpcs s)(i := LCritical), lmutex := Some i\<rparr>)" if "lpcs s i = LWaiting" "lmutex s = None"
| l_finish: "local_step s (s\<lparr>lpcs := (lpcs s)(i := LUnlocking)\<rparr>)" if "lpcs s i = LCritical"
| l_unlock: "local_step s (s\<lparr>lpcs := (lpcs s)(i := LIdle), lmutex := None\<rparr>)" if "lpcs s i = LUnlocking"

definition local_inv :: "local_state \<Rightarrow> bool" where
  "local_inv s \<longleftrightarrow> (\<forall>i. lpcs s i = LCritical \<or> lpcs s i = LUnlocking \<longleftrightarrow> lmutex s = Some i)"

interpretation ll: invariant_system local_init local_step local_inv
proof unfold_locales
  fix s assume "local_init s"
  then show "local_inv s" by (simp add: local_init_def local_inv_def)
next
  fix s t assume inv: "local_inv s" and st: "local_step s t"
  from st show "local_inv t"
  proof cases
    case (l_call i)
    with inv have "lmutex s \<noteq> Some i" unfolding local_inv_def by (metis local_pc.distinct(3,5))
    with inv l_call show ?thesis by (simp add: local_inv_def)
  next
    case (l_unlock i)
    then have "lmutex s = Some i" using inv unfolding local_inv_def by blast
    with inv l_unlock show ?thesis by (auto simp: local_inv_def)
  qed (use inv in \<open>auto simp: local_inv_def\<close>)
qed

text \<open>The local mutex alone serialises the critical sections of the process, and is never stuck.\<close>

lemma local_mode_exclusion: "ll.reach s \<Longrightarrow> lpcs s i = LCritical \<Longrightarrow> lpcs s j = LCritical \<Longrightarrow> i = j"
  using ll.reach_inv [of s] unfolding local_inv_def by (metis option.inject)

lemma local_mode_moves:
  assumes "ll.reach s" "lpcs s j \<noteq> LIdle"
  shows "\<exists>i t. local_step s t \<and> lpcs s i \<noteq> LIdle \<and> lpcs t i \<noteq> lpcs s i"
proof (cases "lmutex s")
  case None
  with ll.reach_inv [OF assms(1)] have "lpcs s j \<noteq> LCritical" "lpcs s j \<noteq> LUnlocking"
    unfolding local_inv_def by (metis option.distinct(1))+
  with assms(2) have w: "lpcs s j = LWaiting" by (cases "lpcs s j") auto
  let ?t = "s\<lparr>lpcs := (lpcs s)(j := LCritical), lmutex := Some j\<rparr>"
  have "local_step s ?t" by (rule local_step.l_lock [OF w None])
  moreover have "lpcs ?t j \<noteq> lpcs s j" using w by simp
  ultimately show ?thesis using assms(2) by blast
next
  case (Some i)
  with ll.reach_inv [OF assms(1)] consider "lpcs s i = LCritical" | "lpcs s i = LUnlocking"
    unfolding local_inv_def by blast
  then show ?thesis
  proof cases
    case 1
    let ?t = "s\<lparr>lpcs := (lpcs s)(i := LUnlocking)\<rparr>"
    have "local_step s ?t" "lpcs ?t i \<noteq> lpcs s i" by (rule local_step.l_finish [OF 1]) (simp add: 1)
    with 1 show ?thesis by (metis local_pc.distinct(3))
  next
    case 2
    let ?t = "s\<lparr>lpcs := (lpcs s)(i := LIdle), lmutex := None\<rparr>"
    have "local_step s ?t" "lpcs ?t i \<noteq> lpcs s i" by (rule local_step.l_unlock [OF 2]) (simp add: 2)
    with 2 show ?thesis by (metis local_pc.distinct(5))
  qed
qed

section \<open>The TTL against the waiting times\<close>

text \<open>
  The default of \<open>NONCE_LOCK_TTL_MS\<close> and the times a critical section may wait for a
  transaction to be mined, in milliseconds.
\<close>

definition NonceLockTTLMs :: int where "NonceLockTTLMs = 30000"
definition txWaitTimeoutMs :: int where "txWaitTimeoutMs = 60000"
definition managedTxWaitTimeoutMs :: int where "managedTxWaitTimeoutMs = 90000"

text \<open>
  With the default TTL the redis lock does not serialise a wallet across processes. The
  TTL is shorter than the time the batcher and the managed transactions wait inside the
  critical section, so the key can expire under its owner, and then two processes are in the
  critical section of the same wallet at once.
\<close>

theorem default_ttl_not_exclusive:
  "\<exists>s g g' k k'. lk.reach (NonceLockTTLMs < min txWaitTimeoutMs managedTxWaitTimeoutMs) s
     \<and> fst g \<noteq> fst g' \<and> pcs s g = Critical k \<and> pcs s g' = Critical k'"
proof -
  have slow: "NonceLockTTLMs < min txWaitTimeoutMs managedTxWaitTimeoutMs"
    by (simp add: NonceLockTTLMs_def txWaitTimeoutMs_def managedTxWaitTimeoutMs_def)
  let ?s = "crit_state\<lparr>redis_lock := None\<rparr>"
  have "lk.reach True ?s"
    by (rule lk.reach_step [OF reach_crit_state], rule lock_step.expire [where k = "''a''"])
       (simp_all add: crit_state_def)
  from reach_enter [OF this, of 1 0 "''b''"]
  have "lk.reach True (?s\<lparr>pcs := (pcs ?s)((1, 0) := Critical ''b''),
      mutex := (mutex ?s)(1 := Some 0), redis_lock := Some ''b''\<rparr>)" (is "lk.reach True ?t")
    by (simp add: crit_state_def)
  moreover have "pcs ?t (0, 0) = Critical ''a''" "pcs ?t (1, 0) = Critical ''b''"
    by (simp_all add: crit_state_def)
  ultimately show ?thesis using slow by (metis (full_types) fst_conv zero_neq_one)
qed

end
