(* ===== verification/Nonce_Protocol.thy ===== *)
theory Nonce_Protocol
  imports Lock_Protocol
begin

text \<open>
  What the nonce lock is for: goroutines of several processes that send transactions from one
  wallet, each reading the pending nonce and submitting inside the lock of the wallet's key.
  Nonces are natural numbers, as a wallet does not send \<open>2 ^ 64\<close> transactions.
\<close>

section \<open>Steps\<close>

text \<open>
  The node: \<open>mined\<close> is the wallet's nonce on the chain, \<open>accepted\<close> are the nonces of the
  transactions it accepted, in order, \<open>too_low\<close> those it refused because they were mined
  already. \<open>slot\<close> is the nonce a goroutine will use next, while it is in the critical section.
\<close>

record nonce_state =
  nlock :: lock_state
  mined :: nat
  slot :: "goroutine \<Rightarrow> nat option"
  accepted :: "nat list"
  too_low :: "nat list"

text \<open>
  What \<open>PendingNonceAt\<close> returns for a wallet whose first nonce is \<open>p0\<close>: the first nonce that no
  accepted transaction has. The node keeps what it has accepted.
\<close>

definition next_free :: "nat \<Rightarrow> nat list \<Rightarrow> nat" where
  "next_free p0 ns = hd (filter (\<lambda>n. n \<notin> set ns) [p0..<p0 + length ns + 1])"

abbreviation pending :: "nat \<Rightarrow> nonce_state \<Rightarrow> nat" where
  "pending p0 s \<equiv> next_free p0 (accepted s)"

definition in_critical :: "lock_state \<Rightarrow> goroutine \<Rightarrow> bool" where
  "in_critical l g \<longleftrightarrow> (case pcs l g of Critical _ \<Rightarrow> True | _ \<Rightarrow> False)"

definition nonce_init :: "nat \<Rightarrow> nonce_state \<Rightarrow> bool" where
  "nonce_init p0 s \<longleftrightarrow> lock_init (nlock s) \<and> mined s = p0 \<and> slot s = (\<lambda>_. None) \<and> accepted s = [] \<and> too_low s = []"

text \<open>
  The node accepts any nonce that is not mined: one above the pending nonce waits for those
  before it, and one that an accepted transaction has replaces that transaction. A section may
  send several transactions with successive nonces; it ends after a refusal, or tries the same
  nonce again. The flag \<open>retry\<close> allows the two retries of a settlement: \<open>skip\<close> goes on with the
  next nonce although the transaction was not accepted, \<open>reuse\<close> sends the nonce of the transaction
  before once more.
\<close>

inductive nonce_step :: "nat \<Rightarrow> bool \<Rightarrow> bool \<Rightarrow> nonce_state \<Rightarrow> nonce_state \<Rightarrow> bool" for p0 slow retry where
  lock: "nonce_step p0 slow retry s (s\<lparr>nlock := l, slot := (\<lambda>g. if in_critical l g then slot s g else None)\<rparr>)"
    if "lock_step slow (nlock s) l"
| read_nonce: "nonce_step p0 slow retry s (s\<lparr>slot := (slot s)(g \<mapsto> pending p0 s)\<rparr>)"
    if "in_critical (nlock s) g"
| accept: "nonce_step p0 slow retry s (s\<lparr>slot := (slot s)(g \<mapsto> Suc n), accepted := accepted s @ [n]\<rparr>)"
    if "slot s g = Some n" "mined s \<le> n"
| refuse_mined: "nonce_step p0 slow retry s (s\<lparr>too_low := too_low s @ [n]\<rparr>)"
    if "slot s g = Some n" "n < mined s"
| refuse: "nonce_step p0 slow retry s (s\<lparr>slot := (slot s)(g := None)\<rparr>)" if "slot s g = Some n"
| skip: "nonce_step p0 slow retry s (s\<lparr>slot := (slot s)(g \<mapsto> Suc n)\<rparr>)" if "retry" "slot s g = Some n"
| reuse: "nonce_step p0 slow retry s (s\<lparr>slot := (slot s)(g \<mapsto> n)\<rparr>)" if "retry" "slot s g = Some (Suc n)"
| mine: "nonce_step p0 slow retry s (s\<lparr>mined := Suc (mined s)\<rparr>)" if "mined s < pending p0 s"

inductive_cases nonce_stepE: "nonce_step p0 slow retry s t"

lemma next_free_upt [simp]: "next_free p0 [p0..<p0 + k] = p0 + k"
proof -
  have "filter (\<lambda>n. n \<notin> set [p0..<p0 + k]) [p0..<p0 + k + 1] = [p0 + k]" by (simp add: filter_empty_conv)
  then show ?thesis by (simp add: next_free_def)
qed

section \<open>Invariant\<close>

text \<open>
  While no goroutine retries and the lock excludes, the accepted nonces follow each other, and
  every nonce a goroutine holds is the pending one.
\<close>

definition counter_inv :: "nat \<Rightarrow> nonce_state \<Rightarrow> bool" where
  "counter_inv p0 s \<longleftrightarrow> (\<exists>k. accepted s = [p0..<p0 + k] \<and> p0 \<le> mined s \<and> mined s \<le> p0 + k \<and> too_low s = []
     \<and> (\<forall>g n. slot s g = Some n \<longrightarrow> in_critical (nlock s) g \<and> n = p0 + k))"

definition nonce_inv :: "nat \<Rightarrow> bool \<Rightarrow> bool \<Rightarrow> nonce_state \<Rightarrow> bool" where
  "nonce_inv p0 slow retry s \<longleftrightarrow> lock_inv slow (nlock s) \<and> (\<not> slow \<and> \<not> retry \<longrightarrow> counter_inv p0 s)"

lemma in_criticalE: "in_critical l g \<Longrightarrow> (\<And>k. pcs l g = Critical k \<Longrightarrow> P) \<Longrightarrow> P"
  by (auto simp: in_critical_def split: lock_pc.splits)

lemma one_critical:
  assumes "lock_inv False l" "in_critical l g" "in_critical l g'"
  shows "g = g'"
proof -
  from assms obtain k k' where k: "pcs l g = Critical k" "pcs l g' = Critical k'" by (elim in_criticalE)
  with assms(1) have "k = k'" unfolding lock_inv_def owner_inv_def by (metis option.inject)
  with k have "pc_token (pcs l g) = Some k" "pc_token (pcs l g') = Some k" by simp_all
  with assms(1) show ?thesis unfolding lock_inv_def token_inv_def by blast
qed

lemma counter_inv_accept:
  assumes "counter_inv p0 s" "lock_inv False (nlock s)" "slot s g = Some n"
  shows "counter_inv p0 (s\<lparr>slot := (slot s)(g \<mapsto> Suc n), accepted := accepted s @ [n]\<rparr>)"
proof -
  from assms(1) obtain k where k: "accepted s = [p0..<p0 + k]" "p0 \<le> mined s" "mined s \<le> p0 + k" "too_low s = []"
    and sl: "\<And>g n. slot s g = Some n \<Longrightarrow> in_critical (nlock s) g \<and> n = p0 + k" unfolding counter_inv_def by blast
  from sl [OF assms(3)] have c: "in_critical (nlock s) g" and n: "n = p0 + k" by simp_all
  have "slot s g' = None" if "g' \<noteq> g" for g'
    using that sl one_critical [OF assms(2) c, of g'] by (cases "slot s g'") blast+
  then have "in_critical (nlock s) g' \<and> m = p0 + Suc k" if "((slot s)(g \<mapsto> Suc n)) g' = Some m" for g' m
    using that c n by (cases "g' = g") auto
  with k n show ?thesis unfolding counter_inv_def by (intro exI [of _ "Suc k"]) simp
qed

lemma counter_inv_step:
  assumes "nonce_step p0 False False s t" "lock_inv False (nlock s)" "counter_inv p0 s"
  shows "counter_inv p0 t"
proof -
  from assms(3) obtain k where k: "accepted s = [p0..<p0 + k]" "p0 \<le> mined s" "mined s \<le> p0 + k" "too_low s = []"
    and sl: "\<And>g n. slot s g = Some n \<Longrightarrow> in_critical (nlock s) g \<and> n = p0 + k" unfolding counter_inv_def by blast
  from assms(1) show ?thesis
  proof cases
    case (accept g n)
    show ?thesis unfolding accept(1) by (rule counter_inv_accept [OF assms(3,2) accept(2)])
  next
    case (refuse_mined g n)
    with sl k(3) show ?thesis by fastforce
  qed (use k sl in \<open>auto simp: counter_inv_def intro!: exI [of _ k] split: if_splits\<close>)
qed

interpretation np: invariant_system "nonce_init p0" "nonce_step p0 slow retry" "nonce_inv p0 slow retry" for p0 slow retry
proof unfold_locales
  fix s assume "nonce_init p0 s"
  then show "nonce_inv p0 slow retry s"
    using lk.inv_init [of "nlock s" slow]
    by (auto simp: nonce_init_def nonce_inv_def counter_inv_def intro: exI [of _ 0])
next
  fix s t assume inv: "nonce_inv p0 slow retry s" and step: "nonce_step p0 slow retry s t"
  have "lock_inv slow (nlock t)"
    using step inv lk.inv_step [of slow "nlock s"] by cases (auto simp: nonce_inv_def)
  then show "nonce_inv p0 slow retry t"
    using counter_inv_step [of p0 s t] step inv by (cases "slow \<or> retry") (auto simp: nonce_inv_def)
qed

section \<open>Properties\<close>

text \<open>
  C2: as long as the lock's TTL outlives every critical section and no settlement takes its retry
  paths, no nonce of a wallet is ever used twice and none is left out: although the node would
  accept gaps and replacements, the accepted transactions of all processes carry the successive
  nonces from the one at the start, no transaction is refused because its nonce is used, and every
  nonce read and not yet used is the pending one, held by the one goroutine in the critical section.
\<close>

theorem nonces_successive:
  assumes "np.reach p0 False False s"
  shows "accepted s = [p0..<pending p0 s] \<and> distinct (accepted s) \<and> too_low s = []
    \<and> (\<forall>g n. slot s g = Some n \<longrightarrow> n = pending p0 s \<and> (\<forall>g'. in_critical (nlock s) g' \<longleftrightarrow> g' = g))"
proof -
  from np.reach_inv [OF assms] have inv: "lock_inv False (nlock s)" "counter_inv p0 s" by (simp_all add: nonce_inv_def)
  then obtain k where "accepted s = [p0..<p0 + k]" "too_low s = []"
    "\<And>g n. slot s g = Some n \<Longrightarrow> in_critical (nlock s) g \<and> n = p0 + k" unfolding counter_inv_def by blast
  with one_critical [OF inv(1)] show ?thesis by (metis distinct_upt next_free_upt)
qed

text \<open>A run of the lock alone is a run in which nobody reads a nonce.\<close>

definition idle_state :: "nat \<Rightarrow> lock_state \<Rightarrow> nonce_state" where
  "idle_state p l = \<lparr>nlock = l, mined = p, slot = (\<lambda>_. None), accepted = [], too_low = []\<rparr>"

lemma idle_sel [simp]:
  "nlock (idle_state p l) = l" "mined (idle_state p l) = p" "slot (idle_state p l) g = None"
  "accepted (idle_state p l) = []" "too_low (idle_state p l) = []" "next_free p [] = p" "next_free p [p] = Suc p"
  by (simp_all add: idle_state_def next_free_def)

lemma lift_lock: "lk.reach slow l \<Longrightarrow> np.reach p slow retry (idle_state p l)"
proof (induction rule: lk.reach.induct)
  case (reach_init l)
  then show ?case by (intro np.reach_init) (simp add: nonce_init_def idle_state_def)
next
  case (reach_step l l')
  have "idle_state p l' = (idle_state p l)\<lparr>nlock := l', slot := (\<lambda>g. if in_critical l' g then slot (idle_state p l) g else None)\<rparr>"
    by (auto simp: idle_state_def)
  with reach_step show ?case by (metis np.reach_step nonce_step.lock idle_sel(1))
qed

lemma crit_in [simp]: "in_critical crit_state (0, 0)"
  by (simp add: crit_state_def in_critical_def)

text \<open>A section that reads 7 and sends two transactions, as an approval and a settlement do.\<close>

theorem nonces_successive_witness:
  "\<exists>s. np.reach 7 False False s \<and> accepted s = [7, 8] \<and> distinct (accepted s) \<and> pending 7 s = 9"
proof -
  let ?s = "idle_state 7 crit_state"
  let ?t = "?s\<lparr>slot := (slot ?s)((0, 0) \<mapsto> pending 7 ?s)\<rparr>"
  let ?u = "?t\<lparr>slot := (slot ?t)((0, 0) \<mapsto> Suc 7), accepted := accepted ?t @ [7]\<rparr>"
  let ?v = "?u\<lparr>slot := (slot ?u)((0, 0) \<mapsto> Suc 8), accepted := accepted ?u @ [8]\<rparr>"
  have 1: "np.reach 7 False False ?t"
    by (rule np.reach_step [OF lift_lock [OF reach_crit_state] nonce_step.read_nonce]) simp
  have 2: "np.reach 7 False False ?u"
    by (rule np.reach_step [OF 1 nonce_step.accept]) simp_all
  have 3: "np.reach 7 False False ?v"
    by (rule np.reach_step [OF 2 nonce_step.accept]) simp_all
  have a: "accepted ?v = [7, 8]" "next_free 7 [7, 8] = 9" by (simp_all add: next_free_def upt_rec)
  from nonces_successive [OF 3] have "distinct (accepted ?v)" by blast
  with 3 a show ?thesis by (intro exI [of _ ?v]) simp
qed

text \<open>
  With the default TTL, which is shorter than the waits inside the critical sections, two
  processes can send transactions with the same nonce, and the second replaces the first.
\<close>

lemma default_ttl_collides:
  "\<exists>s. np.reach p0 (NonceLockTTLMs < min txWaitTimeoutMs managedTxWaitTimeoutMs) False s \<and> accepted s = [p0, p0]"
proof -
  let ?slow = "NonceLockTTLMs < min txWaitTimeoutMs managedTxWaitTimeoutMs"
  obtain l g g' k k' where l: "lk.reach ?slow l" "fst g \<noteq> fst g'" "pcs l g = Critical k" "pcs l g' = Critical k'"
    using default_ttl_not_exclusive by blast
  then have ne: "g \<noteq> g'" and cr: "in_critical l g" "in_critical l g'" by (auto simp: in_critical_def)
  let ?a = "idle_state p0 l"
  let ?b = "?a\<lparr>slot := (slot ?a)(g \<mapsto> pending p0 ?a)\<rparr>"
  let ?c = "?b\<lparr>slot := (slot ?b)(g' \<mapsto> pending p0 ?b)\<rparr>"
  let ?d = "?c\<lparr>slot := (slot ?c)(g \<mapsto> Suc p0), accepted := accepted ?c @ [p0]\<rparr>"
  let ?e = "?d\<lparr>slot := (slot ?d)(g' \<mapsto> Suc p0), accepted := accepted ?d @ [p0]\<rparr>"
  have "np.reach p0 ?slow False ?b"
    by (rule np.reach_step [OF lift_lock [OF l(1)] nonce_step.read_nonce]) (simp add: cr)
  then have "np.reach p0 ?slow False ?c" by (rule np.reach_step [OF _ nonce_step.read_nonce]) (simp add: cr)
  then have "np.reach p0 ?slow False ?d" by (rule np.reach_step [OF _ nonce_step.accept]) (simp_all add: ne)
  then have "np.reach p0 ?slow False ?e" by (rule np.reach_step [OF _ nonce_step.accept]) (use ne in simp_all)
  moreover have "accepted ?e = [p0, p0]" by simp
  ultimately show ?thesis by blast
qed

text \<open>
  The retry of a settlement leaves a gap although the lock excludes: the nonce of an attempt that
  was never broadcast is skipped.
\<close>

lemma retry_leaves_gap: "\<exists>s. np.reach p0 False True s \<and> accepted s = [Suc p0] \<and> pending p0 s = p0"
proof -
  let ?s = "idle_state p0 crit_state"
  let ?t = "?s\<lparr>slot := (slot ?s)((0, 0) \<mapsto> pending p0 ?s)\<rparr>"
  let ?u = "?t\<lparr>slot := (slot ?t)((0, 0) \<mapsto> Suc p0)\<rparr>"
  let ?v = "?u\<lparr>slot := (slot ?u)((0, 0) \<mapsto> Suc (Suc p0)), accepted := accepted ?u @ [Suc p0]\<rparr>"
  have "np.reach p0 False True ?t"
    by (rule np.reach_step [OF lift_lock [OF reach_crit_state] nonce_step.read_nonce]) simp
  then have "np.reach p0 False True ?u" by (rule np.reach_step [OF _ nonce_step.skip]) simp_all
  then have "np.reach p0 False True ?v" by (rule np.reach_step [OF _ nonce_step.accept]) simp_all
  moreover have "accepted ?v = [Suc p0]" "next_free p0 [Suc p0] = p0" by (simp_all add: next_free_def)
  ultimately show ?thesis by (intro exI [of _ ?v]) simp
qed

end
