(* ===== verification/Json.thy ===== *)
theory Json
  imports Ethereum
begin

text \<open>
  What the handlers use of \<open>encoding/json\<close> and of \<open>float64\<close>: the syntax tree of a request body,
  number literals and their rounding to binary64, the \<open>%v\<close> rendering of a \<open>float64\<close>, and the
  decoding of object members into struct fields. The step from bytes to the tree is not
  modelled: a handler takes \<open>None\<close> for a body that is not valid JSON.
\<close>

section \<open>Trees\<close>

text \<open>A number keeps its literal, as \<open>json.RawMessage\<close> and \<open>json.Number\<close> do.\<close>

datatype json =
    JNull
  | JBool bool
  | JNum string
  | JStr string
  | JArr "json list"
  | JObj "(string \<times> json) list"

fun jsonKind :: "json \<Rightarrow> string" where
  "jsonKind JNull = ''null''"
| "jsonKind (JBool _) = ''bool''"
| "jsonKind (JNum _) = ''number''"
| "jsonKind (JStr _) = ''string''"
| "jsonKind (JArr _) = ''array''"
| "jsonKind (JObj _) = ''object''"

section \<open>Number literals\<close>

fun fracPart :: "string \<Rightarrow> (string \<times> string) option" where
  "fracPart (c # r) =
     (if c = CHR ''.'' then
        let f = takeWhile isDigit r in if f = [] then None else Some (f, dropWhile isDigit r)
      else Some ([], c # r))"
| "fracPart [] = Some ([], [])"

definition expDigits :: "string \<Rightarrow> int option" where
  "expDigits r = (if r = [] \<or> \<not> list_all isDigit r then None
                  else map_option int (digitsVal 10 r 0))"

fun expPart :: "string \<Rightarrow> int option" where
  "expPart [] = Some 0"
| "expPart (c # r) =
     (if c = CHR ''e'' \<or> c = CHR ''E'' then
        (if prefix ''-'' r then map_option uminus (expDigits (tl r))
         else if prefix ''+'' r then expDigits (tl r)
         else expDigits r)
      else None)"

text \<open>
  The grammar of a JSON number: sign, integer part without superfluous zeros, fraction,
  exponent. The result is the sign, the digits of integer part and fraction, and the power of
  ten they are scaled by.
\<close>

definition numParts :: "string \<Rightarrow> (bool \<times> nat \<times> int) option" where
  "numParts s =
     (let neg = prefix ''-'' s;
          s1 = (if neg then tl s else s);
          i = takeWhile isDigit s1
      in if i = [] \<or> (prefix ''0'' i \<and> 1 < length i) then None
         else case fracPart (dropWhile isDigit s1) of
           None \<Rightarrow> None
         | Some (f, r) \<Rightarrow>
             (case expPart r of
                None \<Rightarrow> None
              | Some e \<Rightarrow> map_option (\<lambda>m. (neg, m, e - int (length f))) (digitsVal 10 (i @ f) 0)))"

definition isValidNumber :: "string \<Rightarrow> bool" where
  "isValidNumber s \<longleftrightarrow> numParts s \<noteq> None"

section \<open>Binary64\<close>

text \<open>
  A finite \<open>float64\<close>: sign, significand and exponent, of value
  \<open>\<plusminus> f_mant * 2 ^ f_exp / 2 ^ 1074\<close>; 1074 is the exponent of the smallest positive number.
\<close>

record f64 =
  f_neg :: bool
  f_mant :: nat
  f_exp :: nat

fun bitlen :: "nat \<Rightarrow> nat" where
  "bitlen n = (if n = 0 then 0 else Suc (bitlen (n div 2)))"

declare bitlen.simps [simp del]

definition roundHalfEven :: "nat \<Rightarrow> nat \<Rightarrow> nat" where
  "roundHalfEven n d =
     (let q = n div d; r = n mod d in if d < 2 * r \<or> (2 * r = d \<and> odd q) then q + 1 else q)"

text \<open>The nearest \<open>float64\<close> to \<open>n / d\<close>, ties to even; \<open>None\<close> when it is out of range.\<close>

definition f64_round :: "bool \<Rightarrow> nat \<Rightarrow> nat \<Rightarrow> f64 option" where
  "f64_round neg n d =
     (let x = n * 2 ^ 1074;
          k = bitlen (x div d) - 53;
          m = roundHalfEven x (d * 2 ^ k);
          (m', k') = (if m = 2 ^ 53 then (2 ^ 52, k + 1) else (m, k))
      in if 2045 < k' then None else Some \<lparr>f_neg = neg, f_mant = m', f_exp = k'\<rparr>)"

text \<open>\<open>strconv.ParseFloat\<close> on a valid JSON number.\<close>

definition ParseFloat :: "string \<Rightarrow> f64 option" where
  "ParseFloat s =
     (case numParts s of
        None \<Rightarrow> None
      | Some (neg, m, e) \<Rightarrow>
          if 0 \<le> e then f64_round neg (m * 10 ^ nat e) 1 else f64_round neg m (10 ^ nat (- e)))"

text \<open>The value of an integral \<open>float64\<close>.\<close>

definition f64_int :: "f64 \<Rightarrow> int option" where
  "f64_int f =
     (let v = f_mant f * 2 ^ f_exp f in
      if 2 ^ 1074 dvd v
      then Some ((if f_neg f then - 1 else 1) * int (v div 2 ^ 1074)) else None)"

section \<open>Rendering a float\<close>

text \<open>The decimal point position of \<open>n / d\<close>: \<open>10 ^ (p - 1) \<le> n / d < 10 ^ p\<close>.\<close>

definition decPoint :: "nat \<Rightarrow> nat \<Rightarrow> int" where
  "decPoint n d = (if d \<le> n then int (length (decNat (n div d)))
                   else 1 - int (length (decNat ((d - 1) div n))))"

text \<open>
  The decimals with \<open>k\<close> significant digits next to \<open>n / d\<close> that read back as \<open>f\<close>, nearest
  first; a decimal is its digits as a number and its power of ten.
\<close>

definition candidates :: "f64 \<Rightarrow> nat \<Rightarrow> nat \<Rightarrow> nat \<Rightarrow> (nat \<times> int) list" where
  "candidates f n d k =
     (let e = decPoint n d - int k;
          (a, b) = (if 0 \<le> e then (n, d * 10 ^ nat e) else (n * 10 ^ nat (- e), d));
          lo = a div b;
          cs = (if 2 * (a mod b) < b then [lo, lo + 1] else [lo + 1, lo])
      in map (\<lambda>c. (c, e)) (filter (\<lambda>c.
           (if 0 \<le> e then f64_round (f_neg f) (c * 10 ^ nat e) 1
            else f64_round (f_neg f) c (10 ^ nat (- e))) = Some f) cs))"

text \<open>The shortest decimal that reads back as \<open>f\<close>; 17 digits always do.\<close>

definition shortest :: "f64 \<Rightarrow> nat \<times> int" where
  "shortest f =
     (let n = f_mant f * 2 ^ f_exp f; d = 2 ^ 1074
      in case concat (map (candidates f n d) [1..<18]) of c # _ \<Rightarrow> c | [] \<Rightarrow> (0, 0))"

text \<open>The verb \<open>%v\<close>, that is \<open>%g\<close> with the shortest precision.\<close>

definition FormatFloat :: "f64 \<Rightarrow> string" where
  "FormatFloat f =
     (if f_mant f = 0 then (if f_neg f then ''-0'' else ''0'')
      else let (c, e) = shortest f;
               ds = decNat c;
               dp = int (length ds) + e;
               ds = rev (dropWhile (\<lambda>x. x = CHR ''0'') (rev ds));
               x = dp - 1
           in (if f_neg f then ''-'' else []) @
             (if x < - 4 \<or> 6 \<le> x then
                [hd ds] @ (if tl ds = [] then [] else ''.'' @ tl ds) @ ''e'' @
                (if x < 0 then ''-'' else ''+'') @
                (if \<bar>x\<bar> < 10 then ''0'' else []) @ decNat (nat \<bar>x\<bar>)
              else if dp \<le> 0 then ''0.'' @ replicate (nat (- dp)) (CHR ''0'') @ ds
              else if int (length ds) \<le> dp then ds @ replicate (nat dp - length ds) (CHR ''0'')
              else take (nat dp) ds @ ''.'' @ drop (nat dp) ds))"

section \<open>Struct fields\<close>

text \<open>
  \<open>json.Unmarshal\<close> into a struct visits the members in order; a member whose key matches a
  field name, case aside, is decoded into that field. A value of the wrong type is an error that
  is saved, the first one only, while the decoding goes on; an error of a type's own
  \<open>UnmarshalJSON\<close> ends the decoding at once and is reported in place of a saved one. A decoder of
  a field takes the JSON value and the current field value.
\<close>

datatype decode_error = Saved (decode_message: string) | Abort (decode_message: string)

type_synonym 'a decoder = "json \<Rightarrow> 'a \<Rightarrow> decode_error + 'a"

fun keepError :: "decode_error option \<Rightarrow> decode_error \<Rightarrow> decode_error option" where
  "keepError (Some (Saved m)) (Saved _) = Some (Saved m)"
| "keepError _ e = Some e"

definition decodeStep ::
  "(string \<times> ('s decoder)) list \<Rightarrow> string \<times> json \<Rightarrow> 's \<times> decode_error option \<Rightarrow> 's \<times> decode_error option" where
  "decodeStep fds kv st =
     (case snd st of
        Some (Abort m) \<Rightarrow> st
      | _ \<Rightarrow>
          (case find (\<lambda>(name, _). EqualFold name (fst kv)) fds of
             None \<Rightarrow> st
           | Some (_, dec) \<Rightarrow>
               (case dec (snd kv) (fst st) of
                  Inr s \<Rightarrow> (s, snd st)
                | Inl e \<Rightarrow> (fst st, keepError (snd st) e))))"

definition Unmarshal ::
  "string \<Rightarrow> (string \<times> ('s decoder)) list \<Rightarrow> json \<Rightarrow> 's \<Rightarrow> 's \<times> string option" where
  "Unmarshal typ fds j s =
     (case j of
        JObj kvs \<Rightarrow> (case fold (decodeStep fds) kvs (s, None) of (s', e) \<Rightarrow> (s', map_option decode_message e))
      | JNull \<Rightarrow> (s, None)
      | _ \<Rightarrow> (s, Some (''json: cannot unmarshal '' @ jsonKind j @ '' into Go value of type '' @ typ)))"

definition typeErr :: "string \<Rightarrow> string \<Rightarrow> string \<Rightarrow> string" where
  "typeErr what path typ =
     ''json: cannot unmarshal '' @ what @ '' into Go struct field '' @ path @ '' of type '' @ typ"

text \<open>Decoders of the field types the handlers use: \<open>string\<close>, \<open>int64\<close> (also \<open>int\<close>) and \<open>any\<close>.\<close>

definition decString :: "string \<Rightarrow> (string \<Rightarrow> 's \<Rightarrow> 's) \<Rightarrow> 's decoder" where
  "decString path upd j s =
     (case j of JStr v \<Rightarrow> Inr (upd v s) | JNull \<Rightarrow> Inr s
      | _ \<Rightarrow> Inl (Saved (typeErr (jsonKind j) path ''string'')))"

definition decInt64 :: "string \<Rightarrow> (int64 \<Rightarrow> 's \<Rightarrow> 's) \<Rightarrow> 's decoder" where
  "decInt64 path upd j s =
     (case j of
        JNum l \<Rightarrow> (case ParseInt l 10 of Some n \<Rightarrow> Inr (upd n s)
                   | None \<Rightarrow> Inl (Saved (typeErr (''number '' @ l) path ''int64'')))
      | JNull \<Rightarrow> Inr s
      | _ \<Rightarrow> Inl (Saved (typeErr (jsonKind j) path ''int64'')))"

text \<open>Values of type \<open>any\<close>: a number has become a \<open>float64\<close>.\<close>

datatype any =
    ANil
  | ABool bool
  | AFloat f64
  | AString string
  | ANumber string
  | ABig int
  | ASlice
  | AMap

text \<open>The numbers of a tree that are out of range; the first makes the decoding into \<open>any\<close> fail.\<close>

fun badNumbers :: "json \<Rightarrow> string list" where
  "badNumbers (JNum l) = (if ParseFloat l = None then [l] else [])"
| "badNumbers (JArr js) = concat (map badNumbers js)"
| "badNumbers (JObj kvs) = concat (map (\<lambda>(k, v). badNumbers v) kvs)"
| "badNumbers _ = []"

fun anyOf :: "json \<Rightarrow> any" where
  "anyOf JNull = ANil"
| "anyOf (JBool b) = ABool b"
| "anyOf (JNum l) = (case ParseFloat l of Some f \<Rightarrow> AFloat f | None \<Rightarrow> ANil)"
| "anyOf (JStr s) = AString s"
| "anyOf (JArr _) = ASlice"
| "anyOf (JObj _) = AMap"

definition decAny :: "string \<Rightarrow> (any \<Rightarrow> 's \<Rightarrow> 's) \<Rightarrow> 's decoder" where
  "decAny path upd j s =
     (case badNumbers j of
        l # _ \<Rightarrow> Inl (Saved (typeErr (''number '' @ l) path ''float64''))
      | [] \<Rightarrow> Inr (upd (anyOf j) s))"

section \<open>Small integers are exact\<close>

lemma bitlen_01 [simp]: "bitlen 0 = 0" "bitlen (Suc 0) = 1"
  by (subst bitlen.simps, simp)+

lemma bitlen_le_iff: "bitlen n \<le> k \<longleftrightarrow> n < 2 ^ k"
proof (induction k arbitrary: n)
  case 0
  then show ?case by (subst bitlen.simps) simp
next
  case (Suc k)
  show ?case
  proof (cases "n = 0")
    case True
    then show ?thesis by simp
  next
    case False
    then have "bitlen n \<le> Suc k \<longleftrightarrow> bitlen (n div 2) \<le> k" by (subst bitlen.simps) simp
    also have "\<dots> \<longleftrightarrow> n < 2 ^ Suc k" using Suc.IH [of "n div 2"] by auto
    finally show ?thesis .
  qed
qed

lemma bitlen_double: "0 < n \<Longrightarrow> bitlen (n * 2) = Suc (bitlen n)"
  by (subst bitlen.simps) simp

lemma bitlen_shift: "0 < n \<Longrightarrow> bitlen (n * 2 ^ k) = bitlen n + k"
proof (induction k)
  case (Suc k)
  then have "bitlen (n * 2 ^ k * 2) = Suc (bitlen (n * 2 ^ k))" by (intro bitlen_double) simp
  with Suc show ?case by (simp add: mult.commute mult.left_commute)
qed simp

lemma roundHalfEven_exact: "0 < d \<Longrightarrow> roundHalfEven (m * d) d = m"
  by (simp add: roundHalfEven_def Let_def)

lemma roundHalfEven_scale: "0 < c \<Longrightarrow> roundHalfEven (n * c) (d * c) = roundHalfEven n d"
proof -
  assume c: "0 < c"
  have "n * c mod (d * c) = n mod d * c" using c by (simp add: mod_mult_mult2)
  moreover have "d * c < 2 * (n mod d * c) \<longleftrightarrow> d < 2 * (n mod d)"
    "2 * (n mod d * c) = d * c \<longleftrightarrow> 2 * (n mod d) = d"
    using c by (metis mult.assoc mult_less_cancel2, metis mult.assoc mult_cancel2 not_less0)
  ultimately show ?thesis using c by (simp add: roundHalfEven_def Let_def)
qed

lemma f64_int_shift:
  "f64_int \<lparr>f_neg = neg, f_mant = m, f_exp = 1074 + j\<rparr> = Some ((if neg then - 1 else 1) * int (m * 2 ^ j))"
proof -
  have e: "m * 2 ^ (1074 + j) = m * 2 ^ j * 2 ^ 1074" by (simp only: power_add mult_ac)
  show ?thesis unfolding f64_int_def Let_def f64.select_convs e by simp
qed

lemma small_split:
  assumes n: "0 < n" "n < 2 ^ 53" and k: "bitlen (n * 2 ^ E) - 53 = k"
  shows "k \<le> E \<and> n * 2 ^ E = n * 2 ^ (E - k) * 2 ^ k \<and> n * 2 ^ (E - k) \<noteq> 2 ^ 53
    \<and> roundHalfEven (n * 2 ^ E) (1 * 2 ^ k) = n * 2 ^ (E - k)"
proof -
  have b: "bitlen n \<le> 53" using n(2) by (simp only: bitlen_le_iff)
  have kb: "k = bitlen n + E - 53" using k bitlen_shift [OF n(1), of E] by simp
  with b have kE: "k \<le> E" by simp
  then have x: "n * 2 ^ E = n * 2 ^ (E - k) * 2 ^ k"
    by (metis le_add_diff_inverse2 mult.assoc power_add)
  have "bitlen (n * 2 ^ (E - k)) \<le> 53" using bitlen_shift [OF n(1), of "E - k"] kb b by arith
  then have "n * 2 ^ (E - k) \<noteq> 2 ^ 53" by (simp only: bitlen_le_iff)
  moreover have "roundHalfEven (n * 2 ^ E) (1 * 2 ^ k) = n * 2 ^ (E - k)"
    unfolding x mult_1 by (rule roundHalfEven_exact) simp
  ultimately show ?thesis using kE x by blast
qed

text \<open>An integer of at most 53 significant bits is represented exactly.\<close>

lemma f64_round_small:
  assumes "n \<le> 2 ^ 53"
  shows "\<exists>f. f64_round neg n 1 = Some f \<and> f64_int f = Some ((if neg then - 1 else 1) * int n)"
proof (cases "n = 0 \<or> n = 2 ^ 53")
  case True
  have 0: "f64_round neg 0 1 = Some \<lparr>f_neg = neg, f_mant = 0, f_exp = 0\<rparr>"
    "f64_int \<lparr>f_neg = neg, f_mant = 0, f_exp = 0\<rparr> = Some ((if neg then - 1 else 1) * int 0)"
    by (simp_all add: f64_round_def roundHalfEven_def f64_int_def)
  have b: "bitlen (2 ^ 53 * 2 ^ 1074) - 53 = 1074 + 1"
    using bitlen_shift [of 1 "53 + 1074"] by (simp only: power_add) simp
  have "roundHalfEven (2 ^ 53 * 2 ^ 1074) (1 * 2 ^ (1074 + 1)) = roundHalfEven (2 ^ 53 * 2 ^ 1074) (2 * 2 ^ 1074)"
    by simp
  also have "\<dots> = roundHalfEven (2 ^ 53) 2" by (rule roundHalfEven_scale) simp
  also have "\<dots> = 2 ^ 52" by (simp add: roundHalfEven_def)
  finally have r: "roundHalfEven (2 ^ 53 * 2 ^ 1074) (1 * 2 ^ (1074 + 1)) = 2 ^ 52" .
  have 1: "f64_round neg (2 ^ 53) 1 = Some \<lparr>f_neg = neg, f_mant = 2 ^ 52, f_exp = 1074 + 1\<rparr>"
    unfolding f64_round_def Let_def div_by_1 b r by simp
  have 2: "f64_int \<lparr>f_neg = neg, f_mant = 2 ^ 52, f_exp = 1074 + 1\<rparr>
      = Some ((if neg then - 1 else 1) * int (2 ^ 53))"
    unfolding f64_int_shift by simp
  from True show ?thesis using 0 1 2 by metis
next
  case False
  with assms have n: "0 < n" "n < 2 ^ 53" by auto
  obtain k where k: "bitlen (n * 2 ^ 1074) - 53 = k" by blast
  have s: "k \<le> 1074" "n * 2 ^ 1074 = n * 2 ^ (1074 - k) * 2 ^ k" "n * 2 ^ (1074 - k) \<noteq> 2 ^ 53"
    "roundHalfEven (n * 2 ^ 1074) (1 * 2 ^ k) = n * 2 ^ (1074 - k)"
    using small_split [OF n k] by blast+
  have "f64_round neg n 1 = Some \<lparr>f_neg = neg, f_mant = n * 2 ^ (1074 - k), f_exp = k\<rparr>"
    unfolding f64_round_def Let_def div_by_1 k s(4) using s(1,3) by simp
  moreover have "f64_int \<lparr>f_neg = neg, f_mant = n * 2 ^ (1074 - k), f_exp = k\<rparr>
      = Some ((if neg then - 1 else 1) * int n)"
    unfolding f64_int_def Let_def f64.select_convs s(2) [symmetric] by simp
  ultimately show ?thesis by blast
qed

lemma takeWhile_all: "(\<And>x. x \<in> set xs \<Longrightarrow> P x) \<Longrightarrow> takeWhile P xs = xs \<and> dropWhile P xs = []"
  by simp

lemma decNat_no_zero: "0 < n \<Longrightarrow> \<not> prefix ''0'' (decNat n)"
proof (induction n rule: decNat.induct)
  case (1 n)
  show ?case
  proof (cases "n < 10")
    case True
    have "char_of (48 + n) \<noteq> CHR ''0''"
    proof
      assume "char_of (48 + n) = CHR ''0''"
      then have "(of_char (char_of (48 + n) :: char) :: nat) = of_char (CHR ''0'')" by simp
      then show False using digit_char [OF True] "1.prems" by simp
    qed
    with True show ?thesis by (subst decNat.simps) simp
  next
    case False
    then have "\<not> prefix ''0'' (decNat (n div 10))" using 1 by simp
    then show ?thesis using False decNat_nonempty [of "n div 10"]
      by (subst decNat.simps) (cases "decNat (n div 10)", auto)
  qed
qed

lemma numParts_FormatInt: "numParts (FormatInt i) = Some (i < 0, nat \<bar>i\<bar>, 0)"
proof -
  let ?ds = "decNat (nat \<bar>i\<bar>)"
  have s: "prefix ''-'' (FormatInt i) \<longleftrightarrow> i < 0" "(if i < 0 then tl (FormatInt i) else FormatInt i) = ?ds"
    using decNat_no_sign(1) [of "nat i"] by (auto simp: FormatInt_def)
  have t: "takeWhile isDigit ?ds = ?ds" "dropWhile isDigit ?ds = []"
    using takeWhile_all [of ?ds isDigit] decNat_digits by blast+
  have z: "\<not> (prefix ''0'' ?ds \<and> 1 < length ?ds)"
  proof (cases "i = 0")
    case True
    then show ?thesis by (simp add: decNat.simps)
  next
    case False
    then show ?thesis using decNat_no_zero [of "nat \<bar>i\<bar>"] by simp
  qed
  show ?thesis
    unfolding numParts_def Let_def s t using z by (simp add: digitsVal_decNat)
qed

lemma ParseFloat_small:
  assumes "\<bar>i\<bar> \<le> 2 ^ 53"
  shows "\<exists>f. ParseFloat (FormatInt i) = Some f \<and> f64_int f = Some i"
proof -
  have "nat \<bar>i\<bar> \<le> 2 ^ 53" using assms by simp
  from f64_round_small [OF this, of "i < 0"] show ?thesis
    by (auto simp: ParseFloat_def numParts_FormatInt split: if_splits)
qed

end
