(* ===== verification/Evm.thy ===== *)
theory Evm
  imports Json Locker
begin

text \<open>
  \<open>internal/evm\<close>: hexadecimal and number parsing, signatures and CREATE2 addresses
  (\<open>evm.go\<close>); fees, gas limits, broadcasting and waiting for a receipt (\<open>gas.go\<close>).
\<close>

section \<open>evm.go\<close>

text \<open>\<open>copy\<close> into a fresh \<open>[32]byte\<close>: truncated or padded with zeros on the right.\<close>

definition copy32 :: "bytes \<Rightarrow> bytes" where
  "copy32 b = take 32 (b @ replicate 32 0)"

lemma length_copy32 [simp]: "length (copy32 b) = 32"
  by (simp add: copy32_def)

lemma copy32_id: "length b = 32 \<Longrightarrow> copy32 b = b"
  by (simp add: copy32_def)

text \<open>\<open>crypto.Sign\<close> returns 65 bytes; the last one is incremented as a byte.\<close>

definition Sign65 :: "geth \<Rightarrow> bytes \<Rightarrow> privkey \<Rightarrow> go_error + bytes" where
  "Sign65 g digest k =
     (case crypto_Sign g digest k of Inl e \<Rightarrow> Inl e | Inr sig \<Rightarrow> Inr (sig[64 := sig ! 64 + 27]))"

definition PredictCreate2 :: "geth \<Rightarrow> address \<Rightarrow> bytes \<Rightarrow> bytes \<Rightarrow> address" where
  "PredictCreate2 g deployer salt initCodeHash = crypto_CreateAddress2 g deployer salt initCodeHash"

definition ParseHexBytes :: "geth \<Rightarrow> string \<Rightarrow> go_error + bytes" where
  "ParseHexBytes g s =
     (let s = TrimSpace s in
      if s = [] \<or> s = ''0x'' \<or> s = ''0X'' then Inr []
      else let s = (if \<not> HasPrefix s ''0x'' \<and> \<not> HasPrefix s ''0X'' then ''0x'' @ s else s)
           in case hexutil_Decode g s of
                Inl e \<Rightarrow> Inl (ErrWrap ''invalid hex: '' (errorsNew e))
              | Inr b \<Rightarrow> Inr b)"

definition Keccak256 :: "geth \<Rightarrow> bytes \<Rightarrow> bytes" where
  "Keccak256 g data = copy32 (crypto_Keccak256 g data)"

definition SaltToBytes32 :: "geth \<Rightarrow> string \<Rightarrow> bytes" where
  "SaltToBytes32 g salt =
     (let s = TrimSpace salt in
      if (HasPrefix s ''0x'' \<or> HasPrefix s ''0X'') \<and> length s = 66 then
        (case hexutil_Decode g s of
           Inr b \<Rightarrow> copy32 b
         | Inl _ \<Rightarrow> copy32 (crypto_Keccak256 g (bytes_of s)))
      else copy32 (crypto_Keccak256 g (bytes_of s)))"

definition parseBigString :: "string \<Rightarrow> go_error + int" where
  "parseBigString s =
     (let s = TrimSpace s in
      if s = [] then Inl (errorsNew ''empty number'')
      else let hex = HasPrefix s ''0x'' \<or> HasPrefix s ''0X'';
               s = (if hex then drop 2 s else s)
           in case SetString s (if hex then 16 else 10) of
                None \<Rightarrow> Inl (errorsNew (''invalid integer '' @ Quote s))
              | Some n \<Rightarrow> Inr n)"

text \<open>
  The conversion \<open>int64(t)\<close> of a \<open>float64\<close> that is not representable is taken as on amd64, where
  it gives the smallest \<open>int64\<close>; the comparison with \<open>t\<close> then holds exactly for the integral
  values in range.
\<close>

fun ToBigInt :: "any \<Rightarrow> go_error + int" where
  "ToBigInt ANil = Inl (errorsNew ''nil value'')"
| "ToBigInt (AString t) = parseBigString t"
| "ToBigInt (ANumber t) = parseBigString t"
| "ToBigInt (AFloat t) =
     (case f64_int t of
        Some i \<Rightarrow> if in_int64 i then Inr i else
          Inl (errorsNew (''non-integer number '' @ FormatFloat t @ ''; send large values as string''))
      | None \<Rightarrow>
          Inl (errorsNew (''non-integer number '' @ FormatFloat t @ ''; send large values as string'')))"
| "ToBigInt (ABig n) = Inr n"
| "ToBigInt (ABool _) = Inl (errorsNew ''unsupported numeric type bool'')"
| "ToBigInt ASlice = Inl (errorsNew ''unsupported numeric type []interface {}'')"
| "ToBigInt AMap = Inl (errorsNew ''unsupported numeric type map[string]interface {}'')"

text \<open>
  \<open>Uint256\<close> wraps a \<open>*big.Int\<close> that may be nil. A number out of the range of \<open>float64\<close> fails in
  the inner \<open>json.Unmarshal\<close>, whose error the outer decoder completes with the field's path. An
  error of \<open>UnmarshalJSON\<close> ends the decoding of the operation.
\<close>

type_synonym Uint256 = "int option"

definition UnmarshalJSON :: "string \<Rightarrow> json \<Rightarrow> string + Uint256" where
  "UnmarshalJSON path j =
     (case badNumbers j of
        l # _ \<Rightarrow> Inl (typeErr (''number '' @ l) path ''float64'')
      | [] \<Rightarrow> if anyOf j = ANil then Inr None
              else (case ToBigInt (anyOf j) of Inl e \<Rightarrow> Inl (err_Error e) | Inr n \<Rightarrow> Inr (Some n)))"

definition decUint256 :: "string \<Rightarrow> (Uint256 \<Rightarrow> 's \<Rightarrow> 's) \<Rightarrow> 's decoder" where
  "decUint256 path upd j s =
     (case UnmarshalJSON path j of Inl e \<Rightarrow> Inl (Abort e) | Inr u \<Rightarrow> Inr (upd u s))"

definition Big :: "Uint256 \<Rightarrow> int" where
  "Big u = (case u of None \<Rightarrow> 0 | Some n \<Rightarrow> n)"

definition HexQuantity :: "geth \<Rightarrow> int64 \<Rightarrow> string" where
  "HexQuantity g n = hexutil_EncodeUint64 g (of_int n)"

section \<open>gas.go\<close>

record Fees =
  MaxFee :: "int option"
  MaxPriority :: "int option"
  GasPrice :: "int option"

definition Gwei :: "int64 \<Rightarrow> int" where
  "Gwei n = n * 1000000000"

definition bump180 :: "int \<Rightarrow> int" where
  "bump180 x = x * 180 div 100"

text \<open>The EIP-1559 branch, for a positive base fee and tip.\<close>

definition dynamicFees :: "int \<Rightarrow> int \<Rightarrow> Fees" where
  "dynamicFees baseFee tipCap =
     (let minPriority = Gwei 2;
          maxPriority = bump180 tipCap;
          maxPriority = (if maxPriority < minPriority then minPriority else maxPriority);
          maxFee = bump180 (baseFee * 2 + tipCap);
          minMax = baseFee * 125 div 100 * 2 + maxPriority;
          maxFee = (if maxFee < minMax then minMax * 110 div 100 else maxFee)
      in \<lparr>MaxFee = Some maxFee, MaxPriority = Some maxPriority, GasPrice = None\<rparr>)"

text \<open>The fallback: a legacy gas price, or fixed caps when the node gives none.\<close>

definition legacyFees :: "deps \<Rightarrow> client \<Rightarrow> Fees weio" where
  "legacyFees d c =
     bindI (extcall (\<lambda>t. x_SuggestGasPrice (d_ext d) t c) (EvSuggestGasPrice c)) (\<lambda>gp.
       case gp of
         Inr (Some p) \<Rightarrow>
           if 0 < p then retE \<lparr>MaxFee = None, MaxPriority = None, GasPrice = Some (bump180 p)\<rparr>
           else retE \<lparr>MaxFee = Some (Gwei 150), MaxPriority = Some (Gwei 5), GasPrice = None\<rparr>
       | _ \<Rightarrow> retE \<lparr>MaxFee = Some (Gwei 150), MaxPriority = Some (Gwei 5), GasPrice = None\<rparr>)"

definition FeeFromProvider :: "deps \<Rightarrow> client \<Rightarrow> Fees weio" where
  "FeeFromProvider d c =
     bindI (extcall (\<lambda>t. x_SuggestGasTipCap (d_ext d) t c) (EvSuggestGasTipCap c)) (\<lambda>tip.
     bindI (extcall (\<lambda>t. x_HeaderByNumber (d_ext d) t c) (EvHeaderByNumber c)) (\<lambda>head.
       case (tip, head) of
         (Inr (Some tipCap), Inr (Some baseFee)) \<Rightarrow>
           if 0 < baseFee \<and> 0 < tipCap then retE (dynamicFees baseFee tipCap)
           else legacyFees d c
       | _ \<Rightarrow> legacyFees d c))"

definition BumpGasLimit :: "uint64 \<Rightarrow> uint64 \<Rightarrow> uint64 \<Rightarrow> uint64" where
  "BumpGasLimit estimated minGas maxCap =
     (let bumped = estimated * 130 div 100 + 8000 in
      if bumped < minGas then minGas else if maxCap < bumped then maxCap else bumped)"

definition EstimateGas :: "deps \<Rightarrow> client \<Rightarrow> callmsg \<Rightarrow> uint64 \<Rightarrow> uint64 \<Rightarrow> uint64 \<Rightarrow> uint64 wio" where
  "EstimateGas d c msg minGas maxCap fallback =
     bindI (extcall (\<lambda>t. x_EstimateGas (d_ext d) t c msg) (EvEstimateGas c msg)) (\<lambda>est.
       case est of Inl _ \<Rightarrow> ret fallback | Inr e \<Rightarrow> ret (BumpGasLimit e minGas maxCap))"

text \<open>The hash is returned with the error when the broadcast itself fails.\<close>

definition SignAndSend ::
  "deps \<Rightarrow> client \<Rightarrow> int64 \<Rightarrow> privkey \<Rightarrow> uint64 \<Rightarrow> address \<Rightarrow> int \<Rightarrow> bytes \<Rightarrow> uint64 \<Rightarrow> Fees
     \<Rightarrow> (txhash \<times> go_error option) wio" where
  "SignAndSend d c chainID k nonce dest value data gasLimit fees =
     (let t = (case MaxFee fees of
          Some cap \<Rightarrow> DynamicFeeTx chainID nonce (MaxPriority fees) cap gasLimit dest value data
        | None \<Rightarrow> LegacyTx nonce (GasPrice fees) gasLimit dest value data)
      in case types_SignTx (d_geth d) chainID k t of
           Inl e \<Rightarrow> ret ([], Some e)
         | Inr stx \<Rightarrow>
             bindI (extcall (\<lambda>tr. x_SendTransaction (d_ext d) tr c stx) (EvSendTransaction c stx))
               (\<lambda>err. ret (signed_Hash (d_geth d) stx, err)))"

text \<open>
  The polling loop, with the number of ticks still to come before the deadline or the
  cancellation wins the \<open>select\<close>.
\<close>

fun pollReceipt :: "deps \<Rightarrow> client \<Rightarrow> txhash \<Rightarrow> nat \<Rightarrow> (tx_receipt option \<times> go_error option) wio" where
  "pollReceipt d c h n =
     bindI (extcall (\<lambda>t. x_TransactionReceipt (d_ext d) t c h) (EvTransactionReceipt c h)) (\<lambda>r.
       case r of
         Inr (Some rc) \<Rightarrow>
           ret (Some rc, if rcpt_Status rc = 0 then Some (errorsNew ''transaction reverted (status 0)'') else None)
       | _ \<Rightarrow>
           (case n of
              0 \<Rightarrow> bindI (extcall (x_CtxWait (d_ext d)) EvCtxWait) (\<lambda>done.
                     ret (None, Some (case done of Some e \<Rightarrow> e
                       | None \<Rightarrow> errorsNew (''tx.wait timeout: '' @ h))))
            | Suc m \<Rightarrow> pollReceipt d c h m))"

declare pollReceipt.simps [simp del]

definition WaitReceipt :: "deps \<Rightarrow> client \<Rightarrow> txhash \<Rightarrow> (tx_receipt option \<times> go_error option) wio" where
  "WaitReceipt d c h = bindI (extcall (x_Ticks (d_ext d)) EvTicks) (pollReceipt d c h)"

section \<open>Numbers\<close>

lemma FormatInt_not_hex: "\<not> HasPrefix (FormatInt i) ''0x''" "\<not> HasPrefix (FormatInt i) ''0X''"
  by (auto dest!: set_mono_prefix FormatInt_chars [of "CHR ''x''" i] FormatInt_chars [of "CHR ''X''" i]
      simp: isDigit_def)

lemma parseBigString_FormatInt [simp, go_str]: "parseBigString (FormatInt i) = Inr i"
  using FormatInt_not_hex by (simp add: parseBigString_def Let_def)

lemma parseBigString_trim: "parseBigString (TrimSpace s) = parseBigString s"
  by (simp add: parseBigString_def)

text \<open>
  C24: an amount sent as a decimal string, with surrounding white space or not, is read back
  exactly, whatever its size; sent as a JSON number it is read exactly up to 2^53.
\<close>

theorem ToBigInt_roundtrip:
  "TrimSpace s = FormatInt i \<Longrightarrow> ToBigInt (AString s) = Inr i \<and>
     (\<bar>i\<bar> \<le> 2 ^ 53 \<longrightarrow> ToBigInt (anyOf (JNum (FormatInt i))) = Inr i)"
proof (intro conjI impI)
  assume s: "TrimSpace s = FormatInt i"
  show "ToBigInt (AString s) = Inr i"
    using parseBigString_trim [of s] s by simp
next
  assume "\<bar>i\<bar> \<le> 2 ^ 53"
  then have "in_int64 i" by (auto simp: in_int64_def)
  with ParseFloat_small [OF \<open>\<bar>i\<bar> \<le> 2 ^ 53\<close>] show "ToBigInt (anyOf (JNum (FormatInt i))) = Inr i"
    by auto
qed

theorem ToBigInt_roundtrip_witness:
  "ToBigInt (AString '' 12 '') = Inr 12 \<and> ToBigInt (anyOf (JNum (FormatInt 12))) = Inr 12"
proof -
  have "TrimSpace '' 12 '' = FormatInt 12" by code_simp
  from ToBigInt_roundtrip [OF this] show ?thesis by simp
qed

text \<open>
  A larger JSON integer is silently replaced by a neighbour: the literal 9007199254740993
  is accepted and read as 9007199254740992, although the comment of \<open>ToBigInt\<close> says that large
  numbers are refused.
\<close>

theorem ToBigInt_float_rounds:
  "ToBigInt (anyOf (JNum (FormatInt 9007199254740993))) = Inr 9007199254740992"
proof -
  have b: "bitlen (9007199254740993 * 2 ^ 1074) - 53 = 1074 + 1"
  proof -
    have "bitlen 9007199254740993 \<le> 54" "\<not> bitlen 9007199254740993 \<le> 53"
      by (simp_all add: bitlen_le_iff)
    then have "bitlen 9007199254740993 = 54" by simp
    then show ?thesis using bitlen_shift [of 9007199254740993 1074] by simp
  qed
  have n: "numParts (FormatInt 9007199254740993) = Some (False, 9007199254740993, 0)"
    using numParts_FormatInt [of 9007199254740993] by simp
  have "roundHalfEven (9007199254740993 * 2 ^ 1074) (1 * 2 ^ (1074 + 1))
      = roundHalfEven (9007199254740993 * 2 ^ 1074) (2 * 2 ^ 1074)" by simp
  also have "\<dots> = roundHalfEven 9007199254740993 2" by (rule roundHalfEven_scale) simp
  also have "\<dots> = 2 ^ 52" by (simp add: roundHalfEven_def Let_def)
  finally have r: "roundHalfEven (9007199254740993 * 2 ^ 1074) (1 * 2 ^ (1074 + 1)) = 2 ^ 52" .
  have "ParseFloat (FormatInt 9007199254740993) = f64_round False 9007199254740993 1"
    by (simp add: ParseFloat_def n)
  also have "\<dots> = Some \<lparr>f_neg = False, f_mant = 2 ^ 52, f_exp = 1074 + 1\<rparr>"
    unfolding f64_round_def Let_def div_by_1 b r by simp
  finally have f: "ParseFloat (FormatInt 9007199254740993)
      = Some \<lparr>f_neg = False, f_mant = 2 ^ 52, f_exp = 1074 + 1\<rparr>" .
  show ?thesis unfolding anyOf.simps f option.case ToBigInt.simps f64_int_shift
    by (simp add: in_int64_def)
qed

section \<open>Fees and gas\<close>

lemma bump180_ge: "0 \<le> x \<Longrightarrow> x \<le> bump180 x"
  by (simp add: bump180_def)

lemma dynamicFees_shape:
  assumes "0 < b" "0 < t"
  shows "\<exists>m p. dynamicFees b t = \<lparr>MaxFee = Some m, MaxPriority = Some p, GasPrice = None\<rparr>
     \<and> Gwei 2 \<le> p \<and> t \<le> p \<and> b * 125 div 100 * 2 + p \<le> m"
proof -
  have "x \<le> x * 110 div 100" if "0 \<le> x" for x :: int using that by simp
  then show ?thesis
    using assms bump180_ge [of t] by (auto simp: dynamicFees_def Let_def Gwei_def)
qed

text \<open>What a node accepts: a tip within the fee cap, or a positive legacy price.\<close>

definition fees_ok :: "Fees \<Rightarrow> bool" where
  "fees_ok f = (case MaxFee f of
       Some m \<Rightarrow> GasPrice f = None \<and> (case MaxPriority f of Some p \<Rightarrow> Gwei 2 \<le> p \<and> p \<le> m | None \<Rightarrow> False)
     | None \<Rightarrow> MaxPriority f = None \<and> (case GasPrice f of Some p \<Rightarrow> 0 < p | None \<Rightarrow> False))"

lemma fees_ok_dynamic: "0 < b \<Longrightarrow> 0 < t \<Longrightarrow> fees_ok (dynamicFees b t)"
  using dynamicFees_shape [of b t] by (auto simp: fees_ok_def Gwei_def)

text \<open>Queries: events that read from a node, or wait, and change nothing.\<close>

fun query :: "event \<Rightarrow> bool" where
  "query (EvPendingNonceAt _ _ _) = True"
| "query (EvSuggestGasTipCap _ _) = True"
| "query (EvHeaderByNumber _ _) = True"
| "query (EvSuggestGasPrice _ _) = True"
| "query (EvEstimateGas _ _ _) = True"
| "query (EvTransactionReceipt _ _ _) = True"
| "query (EvCall _ _ _ _ _) = True"
| "query (EvWaitMined _ _ _) = True"
| "query (EvTicks _) = True"
| "query (EvCtxWait _) = True"
| "query EvSleep = True"
| "query _ = False"

lemma query_plain: "query e \<Longrightarrow> \<not> submission e \<and> \<not> mutex_event e"
  by (cases e) auto

lemma asks_legacyFees: "asks query (legacyFees d c)"
  unfolding legacyFees_def by (intro asks_bindI asks_extcall) (auto split: sum.split option.split)

lemma asks_FeeFromProvider [intro, simp]: "asks query (FeeFromProvider d c)"
  unfolding FeeFromProvider_def
  by (intro asks_bindI asks_extcall) (auto split: sum.split option.split intro: asks_legacyFees)

lemma asks_EstimateGas [intro, simp]: "asks query (EstimateGas d c m lo hi f)"
  unfolding EstimateGas_def by (intro asks_bindI asks_extcall) (auto split: sum.split)

lemma legacyFees_ok: "\<exists>f w'. legacyFees d c w = (Inr f, w') \<and> fees_ok f"
  by (auto simp: legacyFees_def io_simps fees_ok_def Gwei_def bump180_def split: sum.split option.split)

lemma FeeFromProvider_ok: "\<exists>f w'. FeeFromProvider d c w = (Inr f, w') \<and> fees_ok f"
  using legacyFees_ok fees_ok_dynamic
  by (simp add: FeeFromProvider_def io_simps split: sum.split option.split)

text \<open>The largest base fee EIP-1559 allows after a block of base fee \<open>b\<close>.\<close>

definition nextBase :: "int \<Rightarrow> int" where
  "nextBase b = b + max 1 (b div 8)"

lemma nextBase_growth: "8 \<le> b \<Longrightarrow> b \<le> (nextBase ^^ k) b \<and> 8 ^ k * (nextBase ^^ k) b \<le> 9 ^ k * b"
proof (induction k)
  case (Suc k)
  let ?x = "(nextBase ^^ k) b"
  from Suc have x: "b \<le> ?x" "8 ^ k * ?x \<le> 9 ^ k * b" by auto
  then have "8 * nextBase ?x \<le> 9 * ?x" "?x \<le> nextBase ?x"
    using Suc.prems by (auto simp: nextBase_def max_def)
  then have "8 ^ k * (8 * nextBase ?x) \<le> 8 ^ k * (9 * ?x)" by (intro mult_left_mono) auto
  also have "\<dots> \<le> 9 * (9 ^ k * b)" using x(2) by simp
  finally show ?case using x(1) \<open>?x \<le> nextBase ?x\<close> by (simp add: mult_ac)
qed simp

text \<open>
  C21: the dynamic fee cap leaves room for the base fee to rise at the maximal rate of
  EIP-1559 for seven consecutive full blocks with the whole tip still paid, and the tip is at
  least the suggested one and at least 2 gwei.
\<close>

theorem dynamicFees_survive:
  assumes "8 \<le> b" "0 < t"
  shows "\<exists>m p. dynamicFees b t = \<lparr>MaxFee = Some m, MaxPriority = Some p, GasPrice = None\<rparr>
     \<and> Gwei 2 \<le> p \<and> t \<le> p \<and> (nextBase ^^ 7) b + p \<le> m"
proof -
  from dynamicFees_shape [of b t] assms obtain m p where mp:
    "dynamicFees b t = \<lparr>MaxFee = Some m, MaxPriority = Some p, GasPrice = None\<rparr>"
    "Gwei 2 \<le> p" "t \<le> p" "b * 125 div 100 * 2 + p \<le> m" by auto
  have "8 ^ 7 * (nextBase ^^ 7) b \<le> 9 ^ 7 * b" using nextBase_growth [OF assms(1), of 7] by simp
  then have "2097152 * (nextBase ^^ 7) b \<le> 4782969 * b" by simp
  moreover have "5 * b - 3 \<le> 4 * (b * 125 div 100)"
  proof -
    have "b * 125 div 100 = b * 5 div 4" using div_mult_mult2 [of 25 "b * 5" 4] by simp
    then show ?thesis by simp
  qed
  ultimately have "(nextBase ^^ 7) b \<le> b * 125 div 100 * 2" using assms(1) by linarith
  with mp show ?thesis by auto
qed

theorem dynamicFees_survive_witness:
  "\<exists>m p. dynamicFees (Gwei 30) (Gwei 1) = \<lparr>MaxFee = Some m, MaxPriority = Some p, GasPrice = None\<rparr>
     \<and> Gwei 2 \<le> p \<and> Gwei 1 \<le> p \<and> (nextBase ^^ 7) (Gwei 30) + p \<le> m"
  by (rule dynamicFees_survive) (simp_all add: Gwei_def)

text \<open>
  C20: \<open>FeeFromProvider\<close> never fails: whatever the node answers, it returns either an EIP-1559
  pair with a tip of at least 2 gwei within the fee cap, or a positive legacy price, never a
  mixture, and it only reads from the node.
\<close>

theorem FeeFromProvider_total:
  "\<exists>f es. FeeFromProvider d c w = (Inr f, w\<lparr>trace := trace w @ es\<rparr>) \<and> fees_ok f \<and> list_all query es"
proof -
  obtain f w' where f: "FeeFromProvider d c w = (Inr f, w')" "fees_ok f"
    using FeeFromProvider_ok by blast
  from asksE [OF asks_FeeFromProvider f(1)] obtain es
    where "w' = w\<lparr>trace := trace w @ es\<rparr>" "list_all query es" by blast
  with f show ?thesis by blast
qed

lemma unat_bump:
  fixes e :: uint64
  assumes "unat e < 2 ^ 56"
  shows "unat (e * 130 div 100 + 8000) = unat e * 130 div 100 + 8000"
proof -
  have "unat (e * 130) = unat e * 130"
    using assms by (subst unat_mult_lem [THEN iffD1]) simp_all
  then have "unat (e * 130 div 100) = unat e * 130 div 100" by (simp add: unat_div)
  then show ?thesis using assms by (subst unat_add_lem [THEN iffD1]) simp_all
qed

text \<open>
  C22: a gas limit lies between the caller's minimum and cap whatever the estimate, even when
  the 64-bit product wraps around, and for estimates below 2^56 it is never below the estimate
  or the cap, whichever is smaller.
\<close>

theorem BumpGasLimit_bounds:
  "minGas \<le> maxCap \<Longrightarrow> minGas \<le> BumpGasLimit e minGas maxCap \<and> BumpGasLimit e minGas maxCap \<le> maxCap
     \<and> (unat e < 2 ^ 56 \<longrightarrow> min e maxCap \<le> BumpGasLimit e minGas maxCap)"
proof (intro conjI impI)
  assume m: "minGas \<le> maxCap"
  show "minGas \<le> BumpGasLimit e minGas maxCap" "BumpGasLimit e minGas maxCap \<le> maxCap"
    using m by (auto simp: BumpGasLimit_def Let_def not_less)
  assume "unat e < 2 ^ 56"
  from unat_bump [OF this] have "e \<le> e * 130 div 100 + 8000" by (simp add: word_le_nat_alt)
  then show "min e maxCap \<le> BumpGasLimit e minGas maxCap"
    by (auto simp: BumpGasLimit_def Let_def min_def)
qed

theorem BumpGasLimit_bounds_witness:
  "21000 \<le> BumpGasLimit 100000 21000 2000000 \<and> BumpGasLimit 100000 21000 2000000 \<le> 2000000
     \<and> min 100000 2000000 \<le> BumpGasLimit 100000 21000 2000000"
  using BumpGasLimit_bounds [of 21000 2000000 100000] by simp

section \<open>Broadcasting and waiting\<close>

text \<open>The transaction \<open>SignAndSend\<close> builds from its arguments.\<close>

definition tx_of :: "int64 \<Rightarrow> uint64 \<Rightarrow> address \<Rightarrow> int \<Rightarrow> bytes \<Rightarrow> uint64 \<Rightarrow> Fees \<Rightarrow> tx" where
  "tx_of chainID nonce dest value data gasLimit fees = (case MaxFee fees of
      Some cap \<Rightarrow> DynamicFeeTx chainID nonce (MaxPriority fees) cap gasLimit dest value data
    | None \<Rightarrow> LegacyTx nonce (GasPrice fees) gasLimit dest value data)"

lemma tx_of_sel [simp]:
  "tx_Nonce (tx_of c n a v b g f) = n" "tx_To (tx_of c n a v b g f) = a"
  "tx_Value (tx_of c n a v b g f) = v" "tx_Data (tx_of c n a v b g f) = b"
  "tx_Gas (tx_of c n a v b g f) = g"
  by (simp_all add: tx_of_def split: option.split)

lemma SignAndSend_cases:
  "SignAndSend d c ch k n a v b g f w =
     (case types_SignTx (d_geth d) ch k (tx_of ch n a v b g f) of
        Inl e \<Rightarrow> (([], Some e), w)
      | Inr stx \<Rightarrow>
          let err = x_SendTransaction (d_ext d) (trace w) c stx
          in ((signed_Hash (d_geth d) stx, err), w\<lparr>trace := trace w @ [EvSendTransaction c stx err]\<rparr>))"
  unfolding SignAndSend_def tx_of_def [symmetric]
  by (simp add: io_simps Let_def split: sum.split)

fun is_poll :: "event \<Rightarrow> bool" where
  "is_poll (EvTransactionReceipt _ _ _) = True"
| "is_poll _ = False"

text \<open>The verdict of a poll loop: a receipt comes from a poll, and it is an error exactly if reverted.\<close>

definition poll_verdict ::
  "client \<Rightarrow> txhash \<Rightarrow> tx_receipt option \<times> go_error option \<Rightarrow> trace \<Rightarrow> bool" where
  "poll_verdict c h re es \<longleftrightarrow> list_all query es \<and>
     (case re of
        (Some rc, e) \<Rightarrow> EvTransactionReceipt c h (Inr (Some rc)) \<in> set es \<and> (e = None \<longleftrightarrow> rcpt_Status rc \<noteq> 0)
      | (None, e) \<Rightarrow> e \<noteq> None)"

lemma pollReceipt_verdict:
  "pollReceipt d c h n w = (re, w') \<Longrightarrow>
     \<exists>es. w' = w\<lparr>trace := trace w @ es\<rparr> \<and> poll_verdict c h re es \<and> length (filter is_poll es) \<le> Suc n"
proof (induction n arbitrary: w)
  case 0
  let ?r = "x_TransactionReceipt (d_ext d) (trace w) c h"
  from 0 show ?case
    by (subst (asm) pollReceipt.simps)
       (auto simp: io_simps poll_verdict_def split: sum.splits option.splits)
next
  case (Suc n)
  let ?r = "x_TransactionReceipt (d_ext d) (trace w) c h"
  let ?w = "w\<lparr>trace := trace w @ [EvTransactionReceipt c h ?r]\<rparr>"
  show ?case
  proof (cases "\<exists>rc. ?r = Inr (Some rc)")
    case True
    with Suc.prems show ?thesis
      by (subst (asm) pollReceipt.simps) (auto simp: io_simps poll_verdict_def)
  next
    case False
    with Suc.prems have "pollReceipt d c h n ?w = (re, w')"
      by (subst (asm) pollReceipt.simps) (auto simp: io_simps split: sum.splits option.splits)
    from Suc.IH [OF this] obtain es where es: "w' = ?w\<lparr>trace := trace ?w @ es\<rparr>"
      "poll_verdict c h re es" "length (filter is_poll es) \<le> Suc n" by blast
    then show ?thesis
      by (intro exI [of _ "EvTransactionReceipt c h ?r # es"])
         (auto simp: poll_verdict_def split: prod.splits option.splits)
  qed
qed

text \<open>
  C23: waiting for a receipt. \<open>WaitReceipt\<close> reports success only for a receipt the node returned
  for that transaction and whose status is not 0; a reverted transaction is an error that still
  carries its receipt, no receipt at all is an error, and the node is polled at most once more
  than the ticker fires before the deadline.
\<close>

theorem WaitReceipt_sound:
  assumes "WaitReceipt d c h w = (re, w')"
  shows "poll_verdict c h re (new_events w w')
     \<and> length (filter is_poll (new_events w w')) \<le> x_Ticks (d_ext d) (trace w) + 1"
proof -
  let ?n = "x_Ticks (d_ext d) (trace w)"
  let ?w = "w\<lparr>trace := trace w @ [EvTicks ?n]\<rparr>"
  from assms have "pollReceipt d c h ?n ?w = (re, w')" by (simp add: WaitReceipt_def io_simps)
  from pollReceipt_verdict [OF this] obtain es where "w' = ?w\<lparr>trace := trace ?w @ es\<rparr>"
    "poll_verdict c h re es" "length (filter is_poll es) \<le> Suc ?n" by blast
  then show ?thesis by (auto simp: new_events_def poll_verdict_def split: prod.splits option.splits)
qed

theorem WaitReceipt_sound_witness:
  "\<exists>re w'. WaitReceipt (demo_deps (offline_ext\<lparr>x_Ticks := \<lambda>t. 2, x_TransactionReceipt := \<lambda>t c h.
        if length t < 2 then Inr None
        else Inr (Some \<lparr>rcpt_Status = 0, rcpt_GasUsed = 1, rcpt_EffectiveGasPrice = None, rcpt_Logs = []\<rparr>)\<rparr>)
      False) 1 ''0x'' init_world = (re, w')
     \<and> snd re \<noteq> None \<and> poll_verdict 1 ''0x'' re (new_events init_world w')"
proof -
  let ?d = "demo_deps (offline_ext\<lparr>x_Ticks := \<lambda>t. 2, x_TransactionReceipt := \<lambda>t c h.
        if length t < 2 then Inr None
        else Inr (Some \<lparr>rcpt_Status = 0, rcpt_GasUsed = 1, rcpt_EffectiveGasPrice = None, rcpt_Logs = []\<rparr>)\<rparr>) False"
  obtain re w' where r: "WaitReceipt ?d 1 ''0x'' init_world = (re, w')" by fastforce
  moreover from r have "snd re \<noteq> None"
    by (auto simp: WaitReceipt_def io_simps numeral_2_eq_2 pollReceipt.simps)
  ultimately show ?thesis using WaitReceipt_sound [OF r] by blast
qed

end
