(* ===== verification/Kms.thy ===== *)
theory Kms
  imports Evm "HOL-Library.Char_ord" "HOL-Library.List_Lexorder"
begin

text \<open>
  \<open>internal/platform/kms\<close>: the SQLite key store, the NHN Cloud KMS client and the provider that
  combines them.
\<close>

section \<open>Operations\<close>

record KeyEntry =
  KeyID :: string
  CiphertextBase64 :: string

text \<open>\<open>SQLiteKeystore.Lookup\<close>; the result is None for \<open>found = false\<close>.\<close>

definition Lookup :: "deps \<Rightarrow> string \<Rightarrow> KeyEntry option weio" where
  "Lookup d name =
     bindI (extcall (\<lambda>t. x_Lookup (d_ext d) t name) (EvLookup name)) (\<lambda>row.
       case row of
         SqlNoRows \<Rightarrow> retE None
       | SqlErr e \<Rightarrow> failE e
       | SqlRow k c \<Rightarrow>
           (let keyID = TrimSpace k; encKey = TrimSpace c in
            if keyID = [] \<or> encKey = [] then retE None
            else retE (Some \<lparr>KeyID = keyID, CiphertextBase64 = encKey\<rparr>)))"

text \<open>The rows come from \<open>SELECT Name FROM keys WHERE Name LIKE ?\<close>.\<close>

definition ListByPrefix :: "deps \<Rightarrow> string \<Rightarrow> string list weio" where
  "ListByPrefix d p =
     bindE (extcall (\<lambda>t. x_ListLike (d_ext d) t (p @ ''%'')) (EvListLike (p @ ''%'')))
       (\<lambda>names. retE (sort (map TrimSpace names)))"

text \<open>\<open>url.PathEscape\<close>.\<close>

definition hexDigitUpper :: "nat \<Rightarrow> char" where
  "hexDigitUpper n = ''0123456789ABCDEF'' ! n"

definition pathSafe :: "char \<Rightarrow> bool" where
  "pathSafe c \<longleftrightarrow> isUpper c \<or> isLower c \<or> isDigit c \<or> c \<in> set ''-_.~$&+=:@''"

definition PathEscape :: "string \<Rightarrow> string" where
  "PathEscape s = concat (map (\<lambda>c. if pathSafe c then [c]
     else [CHR ''%'', hexDigitUpper (of_char c div 16), hexDigitUpper (of_char c mod 16)]) s)"

definition defaultNHNBaseURL :: string where
  "defaultNHNBaseURL = ''https://api-keymanager.nhncloudservice.com/keymanager/v1.0''"

definition NewNHNClient :: "string \<Rightarrow> string \<Rightarrow> go_error + NHNClient" where
  "NewNHNClient key url =
     (if key = [] then Inl (errorsNew ''NHN KMS: appKey required (NHN_APPKEY)'')
      else Inr \<lparr>appKey = key, baseURL = (if url = [] then defaultNHNBaseURL else url)\<rparr>)"

definition nhnEndpoint :: "NHNClient \<Rightarrow> string \<Rightarrow> string" where
  "nhnEndpoint c keyID = baseURL c @ ''/appkey/'' @ appKey c @ ''/symmetric-keys/'' @ PathEscape keyID @ ''/decrypt''"

text \<open>
  The HTTP exchange, up to the decoded response body, is one external call; its error is the
  transport's, or the decoder's with its prefix.
\<close>

definition Decrypt :: "deps \<Rightarrow> NHNClient \<Rightarrow> string \<Rightarrow> string \<Rightarrow> string weio" where
  "Decrypt d c keyID ciphertextBase64 =
     bindE (extcall (\<lambda>t. x_Decrypt (d_ext d) t (nhnEndpoint c keyID) ciphertextBase64)
              (EvDecrypt (nhnEndpoint c keyID) ciphertextBase64))
       (\<lambda>r. if nhn_StatusCode r div 100 \<noteq> 2 \<or> \<not> nhn_IsSuccessful r then
               failE (errorsNew (''NHN KMS decrypt: '' @
                 (if nhn_ResultMessage r = [] then nhn_Status r else nhn_ResultMessage r)))
             else if nhn_Plaintext r = [] then
               failE (errorsNew ''NHN KMS decrypt: empty plaintext in response'')
             else retE (nhn_Plaintext r))"

text \<open>
  \<open>OpenSQLite\<close>: the error, if any. \<open>sqlOpen\<close> and \<open>ping\<close> are \<open>sql.Open\<close> with the driver and
  \<open>db.Ping\<close>, given the data source name.
\<close>

definition OpenSQLite :: "(string \<Rightarrow> go_error option) \<Rightarrow> (string \<Rightarrow> go_error option) \<Rightarrow> string \<Rightarrow> go_error option" where
  "OpenSQLite sqlOpen ping path =
     (if path = [] then Some (errorsNew ''keystore: empty db path'')
      else let dsn = ''file:'' @ path @ ''?mode=ro'' in
        (case sqlOpen dsn of
           Some e \<Rightarrow> Some (ErrWrap ''keystore open: '' e)
         | None \<Rightarrow> (case ping dsn of Some e \<Rightarrow> Some (ErrWrap ''keystore ping: '' e) | None \<Rightarrow> None)))"

definition Enabled :: "deps \<Rightarrow> bool" where
  "Enabled d \<longleftrightarrow> d_dec d \<noteq> None \<and> d_ks d"

definition LoadHexKey :: "deps \<Rightarrow> string \<Rightarrow> string option weio" where
  "LoadHexKey d name =
     (case d_dec d of
        None \<Rightarrow> retE None
      | Some c \<Rightarrow>
          if \<not> d_ks d then retE None
          else bindE (wrapE (''keystore lookup '' @ Quote name @ '': '') (Lookup d name)) (\<lambda>entry.
            case entry of
              None \<Rightarrow> retE None
            | Some en \<Rightarrow>
                bindE (wrapE (''kms decrypt '' @ Quote name @ '': '') (Decrypt d c (KeyID en) (CiphertextBase64 en)))
                  (\<lambda>plain. let plain = TrimSpace plain in
                     if plain = [] then
                       failE (errorsNew (''kms decrypt '' @ Quote name @ '': empty plaintext''))
                     else retE (Some plain))))"

definition ListNames :: "deps \<Rightarrow> string \<Rightarrow> string list weio" where
  "ListNames d p = (if \<not> Enabled d then retE [] else ListByPrefix d p)"

text \<open>\<open>Provider.Close\<close>; \<open>dbClose\<close> is what closing the database answers.\<close>

definition closeProvider :: "deps \<Rightarrow> go_error option \<Rightarrow> go_error option" where
  "closeProvider d dbClose = (if d_ks d then dbClose else None)"

section \<open>Properties\<close>

text \<open>Events of the key store and the KMS.\<close>

fun key_event :: "event \<Rightarrow> bool" where
  "key_event (EvLookup _ _) = True"
| "key_event (EvListLike _ _) = True"
| "key_event (EvDecrypt _ _ _) = True"
| "key_event _ = False"

lemma asks_Lookup: "asks key_event (Lookup d n)"
  unfolding Lookup_def by (intro asks_bindI asks_extcall) (auto simp: Let_def split: sql_row.split)

lemma asks_ListByPrefix: "asks key_event (ListByPrefix d p)"
  unfolding ListByPrefix_def by (intro asks_bindE asks_extcall) auto

lemma asks_Decrypt: "asks key_event (Decrypt d c k v)"
  unfolding Decrypt_def by (intro asks_bindE asks_extcall) auto

lemma asks_LoadHexKey: "asks key_event (LoadHexKey d n)"
  unfolding LoadHexKey_def
  by (auto simp: Let_def intro!: asks_bindE asks_wrapE asks_Lookup asks_Decrypt split: option.split)

lemma asks_ListNames: "asks key_event (ListNames d p)"
  unfolding ListNames_def by (auto intro: asks_ListByPrefix)

text \<open>
  The documented behaviour of SQLite's \<open>LIKE\<close>: \<open>%\<close> matches any sequence, \<open>_\<close> any one character,
  and letters match case-insensitively.
\<close>

fun like :: "string \<Rightarrow> string \<Rightarrow> bool" where
  "like [] s = (s = [])"
| "like (x # p) [] = (x = CHR ''%'' \<and> like p [])"
| "like (x # p) (c # s) =
     (if x = CHR ''%'' then like p (c # s) \<or> like (x # p) s
      else (x = CHR ''_'' \<or> lowerByte x = lowerByte c) \<and> like p s)"

definition like_law :: "deps \<Rightarrow> string list \<Rightarrow> bool" where
  "like_law d rows \<longleftrightarrow> (\<forall>t p. x_ListLike (d_ext d) t p = Inr (filter (like p) rows))"

lemma like_percent: "like ''%'' s"
  by (induction s) auto

lemma like_prefix: "CHR ''%'' \<notin> set p \<Longrightarrow> like (p @ ''%'') (p @ s)"
  by (induction p) (auto simp: like_percent)

lemma ListByPrefix_rows:
  assumes "like_law d rows"
  shows "\<exists>w'. ListByPrefix d p w = (Inr (sort (map TrimSpace (filter (like (p @ ''%'')) rows))), w')"
  using assms by (simp add: ListByPrefix_def like_law_def io_simps)

text \<open>
  The key store lists, sorted, every row whose name starts with the prefix.
\<close>

theorem ListByPrefix_complete:
  assumes "like_law d rows" "CHR ''%'' \<notin> set p" "p @ s \<in> set rows"
  shows "\<exists>names w'. ListByPrefix d p w = (Inr names, w') \<and> sorted names \<and> TrimSpace (p @ s) \<in> set names"
  using ListByPrefix_rows [OF assms(1), of p w] like_prefix [OF assms(2), of s] assms(3) by auto

theorem ListByPrefix_complete_witness:
  "\<exists>names w'. ListByPrefix (demo_deps (offline_ext\<lparr>x_ListLike := \<lambda>t p. Inr (filter (like p) [''bundler_key_1_0''])\<rparr>) False)
       ''bundler_key_1_'' init_world = (Inr names, w')
     \<and> sorted names \<and> TrimSpace (''bundler_key_1_'' @ ''0'') \<in> set names"
  by (rule ListByPrefix_complete [where rows = "[''bundler_key_1_0'']"]) (simp_all add: like_law_def)

text \<open>
  But it lists rows of other chains too, because \<open>_\<close> is a wildcard of \<open>LIKE\<close>: asked for the
  prefix of chain 1 it returns the key of chain 137.
\<close>

theorem ListByPrefix_wildcard:
  assumes "like_law d [''bundler_key_137_0'']"
  shows "\<exists>w'. ListByPrefix d ''bundler_key_1_'' w = (Inr [''bundler_key_137_0''], w')"
proof -
  have "like (''bundler_key_1_'' @ ''%'') ''bundler_key_137_0''" by (simp add: lowerByte_def isUpper_def)
  moreover have "TrimSpace ''bundler_key_137_0'' = ''bundler_key_137_0''"
    by (rule TrimSpace_visible) (simp add: visible_def)
  ultimately show ?thesis using ListByPrefix_rows [OF assms, of "''bundler_key_1_''" w] by simp
qed

theorem ListByPrefix_wildcard_witness:
  "\<exists>w'. ListByPrefix (demo_deps (offline_ext\<lparr>x_ListLike := \<lambda>t p. Inr (filter (like p) [''bundler_key_137_0''])\<rparr>) False)
      ''bundler_key_1_'' init_world = (Inr [''bundler_key_137_0''], w')"
  by (rule ListByPrefix_wildcard) (simp add: like_law_def)

text \<open>The escape of one byte.\<close>

definition escChar :: "char \<Rightarrow> string" where
  "escChar c = (if pathSafe c then [c]
     else [CHR ''%'', hexDigitUpper (of_char c div 16), hexDigitUpper (of_char c mod 16)])"

lemma PathEscape_eq: "PathEscape s = concat (map escChar s)"
  by (simp add: PathEscape_def escChar_def [abs_def])

lemma hexDigitUpper_inj: "m < 16 \<Longrightarrow> n < 16 \<Longrightarrow> hexDigitUpper m = hexDigitUpper n \<longleftrightarrow> m = n"
  unfolding hexDigitUpper_def by (rule nth_eq_iff_index_eq) simp_all

lemma hexDigitUpper_safe: "n < 16 \<Longrightarrow> pathSafe (hexDigitUpper n)"
proof -
  assume "n < 16"
  then have "hexDigitUpper n \<in> set ''0123456789ABCDEF''" unfolding hexDigitUpper_def by (intro nth_mem) simp
  then show ?thesis by (auto simp: pathSafe_def isUpper_def isDigit_def)
qed

lemma char_nibbles: "of_char c div 16 < (16 :: nat)" "of_char c mod 16 < (16 :: nat)"
  using nat_of_char_less_256 [of c] by (auto intro: less_mult_imp_div_less)

lemma escChar_prefix_free: "escChar c @ x = escChar d @ y \<Longrightarrow> c = d \<and> x = y"
proof -
  have pct: "\<not> pathSafe (CHR ''%'')" by (simp add: pathSafe_def isUpper_def isLower_def isDigit_def)
  assume e: "escChar c @ x = escChar d @ y"
  show ?thesis
  proof (cases "pathSafe c \<or> pathSafe d")
    case True
    with e pct show ?thesis by (auto simp: escChar_def split: if_splits)
  next
    case False
    with e have "hexDigitUpper (of_char c div 16) = hexDigitUpper (of_char d div 16)"
      "hexDigitUpper (of_char c mod 16) = hexDigitUpper (of_char d mod 16)" and xy: "x = y"
      by (auto simp: escChar_def)
    then have "of_char c div 16 = (of_char d div 16 :: nat)" "of_char c mod 16 = (of_char d mod 16 :: nat)"
      by (simp_all add: hexDigitUpper_inj char_nibbles)
    then have "of_char c = (of_char d :: nat)" by (metis div_mult_mod_eq)
    with xy show ?thesis by simp
  qed
qed

lemma PathEscape_inj: "PathEscape s = PathEscape t \<Longrightarrow> s = t"
  unfolding PathEscape_eq
proof (induction s arbitrary: t)
  case Nil
  then show ?case by (cases t) (auto simp: escChar_def split: if_splits)
next
  case (Cons c s)
  then obtain d t' where t: "t = d # t'" by (cases t) (auto simp: escChar_def split: if_splits)
  with Cons.prems have "escChar c @ concat (map escChar s) = escChar d @ concat (map escChar t')" by simp
  from escChar_prefix_free [OF this] Cons.IH t show ?case by blast
qed

lemma PathEscape_chars: "c \<in> set (PathEscape s) \<Longrightarrow> pathSafe c \<or> c = CHR ''%''"
  by (auto simp: PathEscape_def hexDigitUpper_safe char_nibbles split: if_splits)

text \<open>
  A key identifier read from the key store cannot leave its path segment of the KMS URL:
  the escaped identifier contains no path separator, query or fragment mark and no space, and
  distinct identifiers give distinct URLs.
\<close>

theorem nhnEndpoint_confined:
  "set (PathEscape k) \<inter> {CHR ''/'', CHR ''?'', CHR ''#'', CHR '' ''} = {}
     \<and> nhnEndpoint c k = baseURL c @ ''/appkey/'' @ appKey c @ ''/symmetric-keys/'' @ PathEscape k @ ''/decrypt''
     \<and> inj (nhnEndpoint c)"
proof (intro conjI)
  show "set (PathEscape k) \<inter> {CHR ''/'', CHR ''?'', CHR ''#'', CHR '' ''} = {}"
    by (auto dest!: PathEscape_chars simp: pathSafe_def isUpper_def isLower_def isDigit_def)
  show "inj (nhnEndpoint c)" by (rule injI) (auto simp: nhnEndpoint_def dest: PathEscape_inj)
qed (simp add: nhnEndpoint_def)

end
