(* ===== verification/Signer.thy ===== *)
theory Signer
  imports Kms
begin

text \<open>
  \<open>internal/signer\<close>: accounts, the per-chain hot-wallet pools and the two server keys, loaded on
  first use from the environment or from the key store and cached.
\<close>

section \<open>Operations\<close>

definition newAccount :: "geth \<Rightarrow> string \<Rightarrow> go_error + Account" where
  "newAccount g hexKey =
     (let k = TrimPrefix (TrimPrefix (TrimSpace hexKey) ''0x'') ''0X'' in
      case crypto_HexToECDSA g k of
        Inl e \<Rightarrow> Inl (ErrWrap ''invalid private key: '' e)
      | Inr p \<Rightarrow> Inr \<lparr>priv = p, addr = crypto_PubkeyToAddress g p\<rparr>)"

definition Transactor :: "geth \<Rightarrow> Account \<Rightarrow> int \<Rightarrow> go_error + transactopts" where
  "Transactor g a chainID = bind_NewKeyedTransactor g (priv a) chainID"

fun sig_firstNonEmpty :: "string list \<Rightarrow> string" where
  "sig_firstNonEmpty [] = []"
| "sig_firstNonEmpty (v # vals) = (if TrimSpace v \<noteq> [] then TrimSpace v else sig_firstNonEmpty vals)"

definition trailingIndex :: "string \<Rightarrow> int" where
  "trailingIndex name =
     (case LastIndexByte name (CHR ''_'') of
        None \<Rightarrow> 0
      | Some i \<Rightarrow> (case Atoi (drop (i + 1) name) of None \<Rightarrow> 0 | Some n \<Rightarrow> n))"

text \<open>
  \<open>sort.Slice\<close>. The order of names with equal indices is not specified by the library; the
  model keeps their previous order.
\<close>

definition sortByTrailingIndex :: "string list \<Rightarrow> string list" where
  "sortByTrailingIndex names = sort_key trailingIndex names"

definition tryLoad :: "deps \<Rightarrow> string \<Rightarrow> Account option weio" where
  "tryLoad d name =
     bindE (LoadHexKey d name) (\<lambda>k.
       case k of
         None \<Rightarrow> retE None
       | Some hexKey \<Rightarrow>
           (case newAccount (d_geth d) hexKey of
              Inl e \<Rightarrow> failE (ErrWrap (''keystore key '' @ Quote name @ '': '') e)
            | Inr acc \<Rightarrow> retE (Some acc)))"

definition loadAccount :: "deps \<Rightarrow> string \<Rightarrow> Account weio" where
  "loadAccount d name =
     bindE (tryLoad d name) (\<lambda>acc.
       case acc of
         None \<Rightarrow> failE (errorsNew (''keystore key '' @ Quote name @ '' not found''))
       | Some a \<Rightarrow> retE a)"

text \<open>The loop that fills the pool.\<close>

fun loadAccounts :: "deps \<Rightarrow> string list \<Rightarrow> Account list weio" where
  "loadAccounts d [] = retE []"
| "loadAccounts d (name # names) =
     bindE (loadAccount d name) (\<lambda>acc. bindE (loadAccounts d names) (\<lambda>pool. retE (acc # pool)))"

definition poolMissing :: "int64 \<Rightarrow> go_error" where
  "poolMissing chainID = errorsNew
     (''bundler key not configured for chain '' @ FormatInt chainID @
      '': set OWNER_KEY/BUNDLER_PRIVATE_KEY, or keystore bundler_key_'' @ FormatInt chainID @
      ''_<idx> (or owner_key) with KMS'')"

definition buildPool :: "deps \<Rightarrow> int64 \<Rightarrow> Account list weio" where
  "buildPool d chainID =
     (let envKey = sig_firstNonEmpty [OwnerKey (d_env d), BundlerKey (d_env d)] in
      if envKey \<noteq> [] then
        (case newAccount (d_geth d) envKey of
           Inl e \<Rightarrow> failE (ErrWrap ''OWNER_KEY/BUNDLER_PRIVATE_KEY: '' e)
         | Inr acc \<Rightarrow> retE [acc])
      else if Enabled d then
        bindE (ListNames d (''bundler_key_'' @ FormatInt chainID @ ''_'')) (\<lambda>names.
          if names \<noteq> [] then loadAccounts d (sortByTrailingIndex names)
          else bindE (tryLoad d ''owner_key'') (\<lambda>acc.
            case acc of Some a \<Rightarrow> retE [a] | None \<Rightarrow> failE (poolMissing chainID)))
      else failE (poolMissing chainID))"

text \<open>The manager's mutex makes the look-up and the store one step.\<close>

definition BundlerPool :: "deps \<Rightarrow> int64 \<Rightarrow> Account list weio" where
  "BundlerPool d chainID = (\<lambda>w.
     case pools w chainID of
       Some p \<Rightarrow> (Inr p, w)
     | None \<Rightarrow>
         bindE (buildPool d chainID)
           (\<lambda>pool w'. (Inr pool, w'\<lparr>pools := (pools w')(chainID \<mapsto> pool)\<rparr>)) w)"

text \<open>Indexing a pool panics out of range.\<close>

definition walletAt :: "Account list \<Rightarrow> int \<Rightarrow> go_error + Account" where
  "walletAt pool i =
     (if 0 \<le> i \<and> nat i < length pool then Inr (pool ! nat i) else Inl (GoPanic ''index out of range''))"

definition SelectBundler :: "deps \<Rightarrow> int64 \<Rightarrow> Account weio" where
  "SelectBundler d chainID =
     bindE (BundlerPool d chainID) (\<lambda>pool.
       if length pool = 1 then liftE (walletAt pool 0)
       else bindE (NextIndex d (FormatInt chainID) (length pool)) (\<lambda>idx. liftE (walletAt pool idx)))"

definition PrimaryBundler :: "deps \<Rightarrow> int64 \<Rightarrow> Account weio" where
  "PrimaryBundler d chainID = bindE (BundlerPool d chainID) (\<lambda>pool. liftE (walletAt pool 0))"

definition loadServerKey :: "deps \<Rightarrow> string \<Rightarrow> string \<Rightarrow> string \<Rightarrow> Account weio" where
  "loadServerKey d keystoreName envKey envVar =
     (if envKey \<noteq> [] then
        (case newAccount (d_geth d) envKey of
           Inl e \<Rightarrow> failE (ErrWrap (envVar @ '': '') e)
         | Inr acc \<Rightarrow> retE acc)
      else bindE (tryLoad d keystoreName) (\<lambda>acc.
        case acc of
          Some a \<Rightarrow> retE a
        | None \<Rightarrow> failE (errorsNew (keystoreName @ '' not configured: set '' @ envVar @
            '' env, or keystore row '' @ keystoreName @ '' (KeyID+EncKey) with KMS''))))"

definition ServerKey1 :: "deps \<Rightarrow> Account weio" where
  "ServerKey1 d = (\<lambda>w.
     case server1 w of
       Some a \<Rightarrow> (Inr a, w)
     | None \<Rightarrow>
         bindE (loadServerKey d ''server_key1'' (ServerKey1Env (d_env d)) ''SERVER_KEY1'')
           (\<lambda>acc w'. (Inr acc, w'\<lparr>server1 := Some acc\<rparr>)) w)"

definition ServerKey2 :: "deps \<Rightarrow> Account weio" where
  "ServerKey2 d = (\<lambda>w.
     case server2 w of
       Some a \<Rightarrow> (Inr a, w)
     | None \<Rightarrow>
         bindE (loadServerKey d ''server_key2'' (ServerKey2Env (d_env d)) ''SERVER_KEY2'')
           (\<lambda>acc w'. (Inr acc, w'\<lparr>server2 := Some acc\<rparr>)) w)"

section \<open>Loading only asks the key store\<close>

lemma asks_tryLoad: "asks key_event (tryLoad d n)"
  unfolding tryLoad_def by (auto intro!: asks_bindE asks_LoadHexKey split: option.split sum.split)

lemma asks_loadAccount: "asks key_event (loadAccount d n)"
  unfolding loadAccount_def by (auto intro!: asks_bindE asks_tryLoad split: option.split)

lemma asks_loadAccounts: "asks key_event (loadAccounts d ns)"
  by (induction ns) (auto intro!: asks_bindE asks_loadAccount)

lemma asks_buildPool: "asks key_event (buildPool d c)"
  unfolding buildPool_def Let_def
  by (auto intro!: asks_bindE asks_ListNames asks_loadAccounts asks_tryLoad split: option.split sum.split)

lemma asks_loadServerKey: "asks key_event (loadServerKey d n k v)"
  unfolding loadServerKey_def by (auto intro!: asks_bindE asks_tryLoad split: option.split sum.split)

section \<open>The caches\<close>

lemma BundlerPool_cases:
  assumes "BundlerPool d c w = (r, w')" "pools w c = None"
  obtains es where "w' = w\<lparr>trace := trace w @ es, pools := (case r of Inr p \<Rightarrow> (pools w)(c \<mapsto> p) | Inl _ \<Rightarrow> pools w)\<rparr>"
    "list_all key_event es" "\<exists>w2. buildPool d c w = (r, w2)"
proof -
  obtain r2 w2 where b: "buildPool d c w = (r2, w2)" by fastforce
  from asksE [OF asks_buildPool b] obtain es where es: "w2 = w\<lparr>trace := trace w @ es\<rparr>" "list_all key_event es"
    by blast
  with b assms have "r2 = r" "w' = w\<lparr>trace := trace w @ es,
      pools := (case r of Inr p \<Rightarrow> (pools w)(c \<mapsto> p) | Inl _ \<Rightarrow> pools w)\<rparr>"
    by (auto simp: BundlerPool_def bindE_def split: sum.splits)
  with that es b show thesis by blast
qed

interpretation pool: lazy_cache "\<lambda>w. pools w c" "BundlerPool d c" for d c
proof
  fix w v w' e
  show "BundlerPool d c w = (Inr v, w)" if "pools w c = Some v"
    using that by (simp add: BundlerPool_def)
  show "pools w' c = Some v" if r: "BundlerPool d c w = (Inr v, w')"
  proof (cases "pools w c")
    case None
    with r show ?thesis by (auto elim: BundlerPool_cases)
  qed (use r in \<open>simp add: BundlerPool_def\<close>)
  show "pools w c = None \<and> pools w' c = None" if r: "BundlerPool d c w = (Inl e, w')"
  proof (cases "pools w c")
    case None
    with r show ?thesis by (auto elim: BundlerPool_cases)
  qed (use r in \<open>simp add: BundlerPool_def\<close>)
qed

lemma ServerKey1_cases:
  assumes "ServerKey1 d w = (r, w')" "server1 w = None"
  obtains es where "w' = w\<lparr>trace := trace w @ es, server1 := (case r of Inr a \<Rightarrow> Some a | Inl _ \<Rightarrow> None)\<rparr>"
    "list_all key_event es"
proof -
  obtain r2 w2 where b: "loadServerKey d ''server_key1'' (ServerKey1Env (d_env d)) ''SERVER_KEY1'' w = (r2, w2)"
    by fastforce
  from asksE [OF asks_loadServerKey b] obtain es
    where es: "w2 = w\<lparr>trace := trace w @ es\<rparr>" "list_all key_event es" by blast
  with b assms have "w' = w\<lparr>trace := trace w @ es, server1 := (case r of Inr a \<Rightarrow> Some a | Inl _ \<Rightarrow> None)\<rparr>"
    by (auto simp: ServerKey1_def bindE_def split: sum.splits)
  with that es show thesis by blast
qed

lemma ServerKey2_cases:
  assumes "ServerKey2 d w = (r, w')" "server2 w = None"
  obtains es where "w' = w\<lparr>trace := trace w @ es, server2 := (case r of Inr a \<Rightarrow> Some a | Inl _ \<Rightarrow> None)\<rparr>"
    "list_all key_event es"
proof -
  obtain r2 w2 where b: "loadServerKey d ''server_key2'' (ServerKey2Env (d_env d)) ''SERVER_KEY2'' w = (r2, w2)"
    by fastforce
  from asksE [OF asks_loadServerKey b] obtain es
    where es: "w2 = w\<lparr>trace := trace w @ es\<rparr>" "list_all key_event es" by blast
  with b assms have "w' = w\<lparr>trace := trace w @ es, server2 := (case r of Inr a \<Rightarrow> Some a | Inl _ \<Rightarrow> None)\<rparr>"
    by (auto simp: ServerKey2_def bindE_def split: sum.splits)
  with that es show thesis by blast
qed

lemma ServerKey1_keeps2: "ServerKey1 d w = (r, w') \<Longrightarrow> server2 w' = server2 w"
proof (cases "server1 w")
  case None
  show "ServerKey1 d w = (r, w') \<Longrightarrow> ?thesis" by (erule ServerKey1_cases [OF _ None]) simp
qed (simp add: ServerKey1_def)

lemma ServerKey2_keeps1: "ServerKey2 d w = (r, w') \<Longrightarrow> server1 w' = server1 w"
proof (cases "server2 w")
  case None
  show "ServerKey2 d w = (r, w') \<Longrightarrow> ?thesis" by (erule ServerKey2_cases [OF _ None]) simp
qed (simp add: ServerKey2_def)

lemma key_event_plain: "key_event e \<Longrightarrow> \<not> submission e \<and> \<not> mutex_event e"
  by (cases e) auto

lemma ServerKey_appends: "appends key_event (ServerKey1 d)" "appends key_event (ServerKey2 d)"
proof -
  show "appends key_event (ServerKey1 d)"
  proof (rule appendsI)
    fix w x w' assume r: "ServerKey1 d w = (x, w')"
    show "\<exists>es. trace w' = trace w @ es \<and> list_all key_event es"
    proof (cases "server1 w")
      case None
      show ?thesis by (rule ServerKey1_cases [OF r None]) auto
    qed (use r in \<open>simp add: ServerKey1_def\<close>)
  qed
  show "appends key_event (ServerKey2 d)"
  proof (rule appendsI)
    fix w x w' assume r: "ServerKey2 d w = (x, w')"
    show "\<exists>es. trace w' = trace w @ es \<and> list_all key_event es"
    proof (cases "server2 w")
      case None
      show ?thesis by (rule ServerKey2_cases [OF r None]) auto
    qed (use r in \<open>simp add: ServerKey2_def\<close>)
  qed
qed

interpretation sk1: lazy_cache server1 "ServerKey1 d" for d
proof
  fix w v w' e
  show "ServerKey1 d w = (Inr v, w)" if "server1 w = Some v"
    using that by (simp add: ServerKey1_def)
  show "server1 w' = Some v" if r: "ServerKey1 d w = (Inr v, w')"
  proof (cases "server1 w")
    case None
    with r show ?thesis by (auto elim: ServerKey1_cases)
  qed (use r in \<open>simp add: ServerKey1_def\<close>)
  show "server1 w = None \<and> server1 w' = None" if r: "ServerKey1 d w = (Inl e, w')"
  proof (cases "server1 w")
    case None
    with r show ?thesis by (auto elim: ServerKey1_cases)
  qed (use r in \<open>simp add: ServerKey1_def\<close>)
qed

interpretation sk2: lazy_cache server2 "ServerKey2 d" for d
proof
  fix w v w' e
  show "ServerKey2 d w = (Inr v, w)" if "server2 w = Some v"
    using that by (simp add: ServerKey2_def)
  show "server2 w' = Some v" if r: "ServerKey2 d w = (Inr v, w')"
  proof (cases "server2 w")
    case None
    with r show ?thesis by (auto elim: ServerKey2_cases)
  qed (use r in \<open>simp add: ServerKey2_def\<close>)
  show "server2 w = None \<and> server2 w' = None" if r: "ServerKey2 d w = (Inl e, w')"
  proof (cases "server2 w")
    case None
    with r show ?thesis by (auto elim: ServerKey2_cases)
  qed (use r in \<open>simp add: ServerKey2_def\<close>)
qed

section \<open>Properties\<close>

text \<open>Cached pools are never empty.\<close>

definition pools_wf :: "world \<Rightarrow> bool" where
  "pools_wf w \<longleftrightarrow> (\<forall>c p. pools w c = Some p \<longrightarrow> p \<noteq> [])"

lemma pools_wf_init [simp]: "pools_wf init_world"
  by (simp add: pools_wf_def)

lemma loadAccounts_length: "loadAccounts d ns w = (Inr p, w') \<Longrightarrow> length p = length ns"
  by (induction ns arbitrary: w w' p) (auto simp: bindE_Inr_iff)

lemma buildPool_nonempty: "buildPool d c w = (Inr p, w') \<Longrightarrow> p \<noteq> []"
  by (auto simp: buildPool_def Let_def bindE_Inr_iff sortByTrailingIndex_def dest!: loadAccounts_length
      split: if_splits sum.splits option.splits)

lemma BundlerPool_nonempty:
  assumes "BundlerPool d c w = (Inr p, w')" "pools_wf w"
  shows "p \<noteq> [] \<and> pools_wf w' \<and> pools w' c = Some p"
proof (cases "pools w c")
  case None
  from assms(1) None obtain es where w': "w' = w\<lparr>trace := trace w @ es, pools := (pools w)(c \<mapsto> p)\<rparr>"
    and "p \<noteq> []" by (auto elim!: BundlerPool_cases dest: buildPool_nonempty)
  with assms(2) show ?thesis by (auto simp: pools_wf_def)
next
  case (Some q)
  with assms pool.hit_iff [OF Some assms(1)] show ?thesis by (auto simp: pools_wf_def)
qed

lemma BundlerPool_fail:
  assumes "BundlerPool d c w = (Inl e, w')"
  obtains es where "w' = w\<lparr>trace := trace w @ es\<rparr>" "list_all key_event es"
proof -
  from pool.failed [OF assms] have n: "pools w c = None" by simp
  from assms n show thesis by (rule BundlerPool_cases) (use that in \<open>auto simp: n\<close>)
qed

lemma walletAt_Inr: "walletAt p i = Inr a \<longleftrightarrow> 0 \<le> i \<and> nat i < length p \<and> a = p ! nat i"
  by (auto simp: walletAt_def)

lemma walletAt_member: "walletAt p i = Inr a \<Longrightarrow> a \<in> set p"
  by (auto simp: walletAt_Inr)

text \<open>The wallet of administrative work is the first of the chain's pool.\<close>

lemma PrimaryBundler_run:
  assumes "PrimaryBundler d c w = (Inr a, w')"
  obtains p es where "pools w' c = Some p" "a = p ! 0" "w' = w\<lparr>trace := trace w @ es, pools := pools w'\<rparr>"
    "list_all key_event es"
proof -
  from assms obtain p where b: "BundlerPool d c w = (Inr p, w')" "a = p ! 0"
    by (auto simp: PrimaryBundler_def bindE_Inr_iff liftE_def walletAt_Inr)
  have "\<exists>es. w' = w\<lparr>trace := trace w @ es, pools := pools w'\<rparr> \<and> list_all key_event es"
  proof (cases "pools w c")
    case None
    with b(1) show ?thesis by (rule BundlerPool_cases) auto
  next
    case (Some q)
    with pool.hit_iff [OF Some b(1)] show ?thesis by (auto intro: exI [of _ "[]"])
  qed
  with that [OF pool.filled [OF b(1)] b(2)] show thesis by blast
qed

text \<open>Selection in a loaded pool is the round-robin cursor applied to the pool.\<close>

lemma SelectBundler_loaded:
  assumes "pools w c = Some p" "p \<noteq> []"
  shows "SelectBundler d c w = (case NextIndex d (FormatInt c) (length p) w of
     (Inl e, w') \<Rightarrow> (Inl e, w') | (Inr i, w') \<Rightarrow> (walletAt p i, w'))"
proof (cases "length p = 1")
  case True
  with assms show ?thesis
    by (simp add: SelectBundler_def pool.hit bindE_def NextIndex_def retE_def liftE_def)
next
  case False
  with assms show ?thesis
    by (simp add: SelectBundler_def pool.hit bindE_def liftE_def split: prod.split sum.split)
qed

lemma NextIndex_pools: "NextIndex d k n w = (r, w') \<Longrightarrow> pools w' = pools w"
  by (auto simp: NextIndex_def nextIndexLocal_def wrapE_def io_simps Let_def split: if_splits sum.splits)

lemma NextIndex_range:
  assumes "NextIndex d k n w = (Inr i, w')" "0 < n" "n < 2 ^ 63"
  shows "0 \<le> i \<and> i < int n"
proof (cases "1 < n \<and> d_rdb d")
  case True
  then obtain v where "x_Incr (d_ext d) (trace w) (''walletcursor:'' @ k) = Inr v"
    using assms(1)
    by (cases "x_Incr (d_ext d) (trace w) (''walletcursor:'' @ k)") (auto simp: NextIndex_def wrapE_def io_simps)
  with True NextIndex_redis [of d n w k v] assms(1) show ?thesis by auto
next
  case False
  with assms NextIndex_local [of d n k w] show ?thesis
    by (cases "1 < n") (auto simp: NextIndex_def)
qed

lemma NextIndex_error: "NextIndex d k n w = (Inl e, w') \<Longrightarrow> \<exists>e'. e = ErrWrap ''redis cursor incr: '' e'"
  by (auto simp: NextIndex_def nextIndexLocal_def wrapE_def io_simps Let_def split: if_splits sum.splits)

text \<open>
  C19: \<open>SelectBundler\<close> always picks a wallet of the chain's pool, whatever redis returns as
  cursor value, the pool it picks from is the one that stays cached, and pools are never empty;
  the index is never out of range, and with a loaded pool only a failing redis makes it fail.
\<close>

theorem SelectBundler_member:
  assumes "SelectBundler d c w = (r, w')" "pools_wf w"
  shows "(\<forall>a. r = Inr a \<longrightarrow> (\<exists>p. pools w' c = Some p \<and> pools_wf w' \<and> (length p < 2 ^ 63 \<longrightarrow> a \<in> set p)))
    \<and> (\<forall>p. pools w' c = Some p \<longrightarrow> length p < 2 ^ 63 \<longrightarrow>
         (\<exists>a \<in> set p. r = Inr a) \<or> (\<exists>e. r = Inl (ErrWrap ''redis cursor incr: '' e)))"
proof -
  obtain q w1 where b: "BundlerPool d c w = (q, w1)" by fastforce
  show ?thesis
  proof (cases q)
    case (Inl e)
    with b assms(1) have "r = Inl e" "w' = w1" by (auto simp: SelectBundler_def bindE_def)
    with pool.failed [OF b [unfolded Inl]] show ?thesis by simp
  next
    case (Inr p)
    note b = b [unfolded Inr]
    from BundlerPool_nonempty [OF b assms(2)] have p: "p \<noteq> []" "pools_wf w1" "pools w1 c = Some p" by auto
    have "SelectBundler d c w1 = SelectBundler d c w"
      using b pool.load_again [OF b] by (simp add: SelectBundler_def bindE_def)
    with assms(1) SelectBundler_loaded [OF p(3,1)] obtain i
      where i: "NextIndex d (FormatInt c) (length p) w1 = (i, w')"
        "r = (case i of Inl e \<Rightarrow> Inl e | Inr n \<Rightarrow> walletAt p n)"
      by (auto split: prod.splits sum.splits)
    have "walletAt p n = Inr (p ! nat n) \<and> p ! nat n \<in> set p" if "length p < 2 ^ 63" "i = Inr n" for n
      using NextIndex_range [OF i(1) [unfolded that(2)] _ that(1)] p(1) by (cases "length p") (auto simp: walletAt_def)
    moreover have "pools w' = pools w1" by (rule NextIndex_pools) (rule i(1))
    ultimately show ?thesis using p i NextIndex_error by (auto simp: pools_wf_def split: sum.splits)
  qed
qed

definition two_wallets :: "Account list" where
  "two_wallets = [\<lparr>priv = 1, addr = 1\<rparr>, \<lparr>priv = 2, addr = 2\<rparr>]"

theorem SelectBundler_member_witness:
  "\<exists>a w'. SelectBundler (demo_deps offline_ext False) 1 (init_world\<lparr>pools := [1 \<mapsto> two_wallets]\<rparr>) = (Inr a, w')
     \<and> a \<in> set two_wallets"
proof -
  let ?d = "demo_deps offline_ext False" and ?w = "init_world\<lparr>pools := [1 \<mapsto> two_wallets]\<rparr>"
  have wf: "pools_wf ?w" by (simp add: pools_wf_def two_wallets_def)
  have run: "SelectBundler ?d 1 ?w = (Inr \<lparr>priv = 1, addr = 1\<rparr>, ?w\<lparr>cursors := (cursors ?w)(FormatInt 1 := 1)\<rparr>)"
    by (subst SelectBundler_loaded [where p = two_wallets])
       (simp_all add: two_wallets_def NextIndex_local walletAt_def)
  from SelectBundler_member [OF run wf] show ?thesis
    by (intro exI conjI) (rule run, simp add: two_wallets_def)
qed

text \<open>
  The fixed wallet of administrative work does not move: once \<open>PrimaryBundler\<close> has returned
  a wallet, it returns the same one, without any external call, in every later state in which
  the chain's pool is still cached.
\<close>

theorem PrimaryBundler_fixed:
  assumes "PrimaryBundler d c w = (Inr a, w')" "pools u c = pools w' c"
  shows "PrimaryBundler d c u = (Inr a, u)"
proof -
  from assms(1) obtain p where b: "BundlerPool d c w = (Inr p, w')" "walletAt p 0 = Inr a"
    by (auto simp: PrimaryBundler_def bindE_Inr_iff liftE_def)
  from pool.load_agrees [OF b(1)] assms(2) have "BundlerPool d c u = (Inr p, u)" by simp
  with b(2) show ?thesis by (simp add: PrimaryBundler_def bindE_def liftE_def)
qed

theorem PrimaryBundler_fixed_witness:
  "\<exists>a w'. PrimaryBundler ((demo_deps offline_ext False)\<lparr>d_env := \<lparr>OwnerKey = ''0xab'', BundlerKey = [],
        ServerKey1Env = [], ServerKey2Env = []\<rparr>\<rparr>) 1 init_world = (Inr a, w')
     \<and> PrimaryBundler ((demo_deps offline_ext False)\<lparr>d_env := \<lparr>OwnerKey = ''0xab'', BundlerKey = [],
        ServerKey1Env = [], ServerKey2Env = []\<rparr>\<rparr>) 1 (w'\<lparr>trace := []\<rparr>) = (Inr a, w'\<lparr>trace := []\<rparr>)"
proof -
  let ?d = "(demo_deps offline_ext False)\<lparr>d_env := \<lparr>OwnerKey = ''0xab'', BundlerKey = [],
        ServerKey1Env = [], ServerKey2Env = []\<rparr>\<rparr>"
  have t: "TrimSpace ''0xab'' = ''0xab''" by (rule TrimSpace_visible) (simp add: visible_def)
  obtain a w' where r: "PrimaryBundler ?d 1 init_world = (Inr a, w')"
    by (simp add: PrimaryBundler_def BundlerPool_def buildPool_def Let_def t newAccount_def TrimPrefix_def
        opaque_geth_def bindE_def retE_def liftE_def walletAt_def)
  with PrimaryBundler_fixed [OF r, of "w'\<lparr>trace := []\<rparr>"] show ?thesis by auto
qed

lemma trailingIndex_name: "in_int64 i \<Longrightarrow> trailingIndex (p @ ''_'' @ FormatInt i) = i"
proof -
  assume i: "in_int64 i"
  have u: "CHR ''_'' \<notin> set (FormatInt i)" by (auto dest!: FormatInt_chars simp: isDigit_def)
  have "LastIndexByte (p @ ''_'' @ FormatInt i) (CHR ''_'') = Some (length p)"
  proof (induction p)
    case Nil
    from u have "LastIndexByte (FormatInt i) (CHR ''_'') = None" by (simp add: LastIndexByte_None)
    then show ?case by simp
  qed simp
  with i show ?thesis by (simp add: trailingIndex_def)
qed

lemma insort_key_map:
  "f (g x) = h x \<Longrightarrow> (\<And>y. y \<in> set ys \<Longrightarrow> f (g y) = h y) \<Longrightarrow>
     insort_key f (g x) (map g ys) = map g (insort_key h x ys)"
  by (induction ys) auto

lemma sort_key_map:
  "(\<And>x. x \<in> set xs \<Longrightarrow> f (g x) = h x) \<Longrightarrow> sort_key f (map g xs) = map g (sort_key h xs)"
  by (induction xs) (auto intro!: insort_key_map)

text \<open>
  The pool is ordered by the numeric index of the key names: names
  \<open>bundler_key_<chainId>_<idx>\<close> are sorted as their indices are, so that 2 comes before 10.
\<close>

theorem sortByTrailingIndex_numeric:
  assumes "\<forall>i \<in> set is. in_int64 i"
  shows "sortByTrailingIndex (map (\<lambda>i. p @ ''_'' @ FormatInt i) is) = map (\<lambda>i. p @ ''_'' @ FormatInt i) (sort is)"
  unfolding sortByTrailingIndex_def
  by (rule sort_key_map) (use assms trailingIndex_name [of _ p] in auto)

theorem sortByTrailingIndex_numeric_witness:
  "sortByTrailingIndex (map (\<lambda>i. ''bundler_key_1'' @ ''_'' @ FormatInt i) [10, 2])
     = map (\<lambda>i. ''bundler_key_1'' @ ''_'' @ FormatInt i) [2, 10]"
  using sortByTrailingIndex_numeric [of "[10, 2]" "''bundler_key_1''"] by (simp add: in_int64_def)

end
