(* ===== verification/Chain.thy ===== *)
theory Chain
  imports World
begin

text \<open>
  \<open>internal/chain\<close>: the per-chain configuration, read from environment variables through an
  injected lookup function.
\<close>

record Config =
  ChainID :: int64
  cfg_RPCURL :: string
  cfg_EntryPoint :: string
  cfg_Create2Factory :: string
  cfg_EOFSProxy :: string

record Registry =
  getenv :: "string \<Rightarrow> string"

definition NewRegistryWithLookup :: "(string \<Rightarrow> string) \<Rightarrow> Registry" where
  "NewRegistryWithLookup f = \<lparr>getenv = f\<rparr>"

definition lookup :: "Registry \<Rightarrow> string \<Rightarrow> string" where
  "lookup r key = TrimSpace (getenv r key)"

definition perChainOrDefault :: "Registry \<Rightarrow> string \<Rightarrow> int64 \<Rightarrow> string" where
  "perChainOrDefault r key chainID =
     (let v = lookup r (key @ ''_'' @ FormatInt chainID) in
      if v \<noteq> [] then v else lookup r key)"

definition RPCURL :: "Registry \<Rightarrow> int64 \<Rightarrow> go_error + string" where
  "RPCURL r chainID =
     (let url = perChainOrDefault r ''RPC_URL'' chainID in
      if url = [] then
        Inl (errorsNew (''no RPC URL for chainId '' @ FormatInt chainID @
             '': set RPC_URL or RPC_URL_'' @ FormatInt chainID))
      else Inr url)"

definition EntryPoint :: "Registry \<Rightarrow> go_error + string" where
  "EntryPoint r =
     (let v = lookup r ''ENTRYPOINT_ADDRESS'' in
      if v = [] then Inl (errorsNew ''missing ENTRYPOINT_ADDRESS'') else Inr v)"

definition Create2Factory :: "Registry \<Rightarrow> int64 \<Rightarrow> string" where
  "Create2Factory r chainID = perChainOrDefault r ''CREATE2_FACTORY_ADDRESS'' chainID"

definition EOFSProxy :: "Registry \<Rightarrow> int64 \<Rightarrow> go_error + string" where
  "EOFSProxy r chainID =
     (let v = perChainOrDefault r ''EOFS_PROXY_ADDRESS'' chainID in
      if v = [] then
        Inl (errorsNew (''EoaFundedSplit proxy not configured: set EOFS_PROXY_ADDRESS_'' @
             FormatInt chainID @ '' or EOFS_PROXY_ADDRESS''))
      else Inr v)"

definition DefaultChainID :: "Registry \<Rightarrow> int64 \<times> bool" where
  "DefaultChainID r =
     (let v = lookup r ''DEFAULT_CHAIN_ID'' in
      if v = [] then (0, False)
      else case ParseInt v 10 of None \<Rightarrow> (0, False) | Some n \<Rightarrow> (n, True))"

definition ResolveChainID :: "Registry \<Rightarrow> int64 \<Rightarrow> go_error + int64" where
  "ResolveChainID r candidate =
     (if candidate \<noteq> 0 then Inr candidate
      else case DefaultChainID r of
        (d, True) \<Rightarrow> Inr d
      | (_, False) \<Rightarrow> Inl (errorsNew
          ''chainId required: use path /api/bundler/<chainId>, pass chainId in params, or set DEFAULT_CHAIN_ID''))"

definition Get :: "Registry \<Rightarrow> int64 \<Rightarrow> go_error + Config" where
  "Get r chainID = (case RPCURL r chainID of
     Inl e \<Rightarrow> Inl e
   | Inr rpcURL \<Rightarrow> (case EntryPoint r of
       Inl e \<Rightarrow> Inl e
     | Inr ep \<Rightarrow> Inr \<lparr>ChainID = chainID, cfg_RPCURL = rpcURL, cfg_EntryPoint = ep,
         cfg_Create2Factory = Create2Factory r chainID,
         cfg_EOFSProxy = perChainOrDefault r ''EOFS_PROXY_ADDRESS'' chainID\<rparr>))"

text \<open>\<open>environ\<close> is the list of \<open>key=value\<close> strings of \<open>os.Environ\<close>.\<close>

definition AssertConfig :: "Registry \<Rightarrow> string list \<Rightarrow> go_error option" where
  "AssertConfig r environ = (case EntryPoint r of
     Inl e \<Rightarrow> Some e
   | Inr _ \<Rightarrow>
       if lookup r ''RPC_URL'' \<noteq> [] then None
       else if \<exists>kv \<in> set environ. HasPrefix kv ''RPC_URL_'' \<and>
              (case IndexByte kv CHR ''='' of
                 Some i \<Rightarrow> TrimSpace (drop (i + 1) kv) \<noteq> []
               | None \<Rightarrow> False)
       then None
       else Some (errorsNew ''missing RPC: set RPC_URL or RPC_URL_<chainId>''))"

section \<open>Lemmas\<close>

lemma lookup_trimmed: "TrimSpace (lookup r k) = lookup r k"
  by (simp add: lookup_def)

lemma perChainOrDefault_specific:
  "lookup r (key @ ''_'' @ FormatInt c) \<noteq> [] \<Longrightarrow>
     perChainOrDefault r key c = lookup r (key @ ''_'' @ FormatInt c)"
  by (simp add: perChainOrDefault_def)

lemma perChainOrDefault_nonempty:
  "perChainOrDefault r key c \<noteq> [] \<longleftrightarrow> lookup r (key @ ''_'' @ FormatInt c) \<noteq> [] \<or> lookup r key \<noteq> []"
  by (simp add: perChainOrDefault_def Let_def)

lemma chain_key_inj: "key @ ''_'' @ FormatInt c = key @ ''_'' @ FormatInt c' \<Longrightarrow> c = c'"
  by (auto dest: FormatInt_inj)

lemma not_suffixed_key:
  "key \<in> {''RPC_URL'', ''CREATE2_FACTORY_ADDRESS'', ''EOFS_PROXY_ADDRESS''} \<Longrightarrow>
   k \<in> {''RPC_URL'', ''CREATE2_FACTORY_ADDRESS'', ''EOFS_PROXY_ADDRESS'', ''ENTRYPOINT_ADDRESS''} \<Longrightarrow>
     k \<noteq> key @ ''_'' @ FormatInt c"
  by (auto simp: append_eq_append_conv2 Cons_eq_append_conv)

lemma suffixed_key_eq:
  "key \<in> {''RPC_URL'', ''CREATE2_FACTORY_ADDRESS'', ''EOFS_PROXY_ADDRESS''} \<Longrightarrow>
   k \<in> {''RPC_URL'', ''CREATE2_FACTORY_ADDRESS'', ''EOFS_PROXY_ADDRESS''} \<Longrightarrow>
     k @ ''_'' @ FormatInt c = key @ ''_'' @ FormatInt c' \<Longrightarrow> c = c'"
  by (auto dest: FormatInt_inj)

lemma perChainOrDefault_cong:
  assumes "f (k @ ''_'' @ FormatInt c) = f' (k @ ''_'' @ FormatInt c)" "f k = f' k"
  shows "perChainOrDefault \<lparr>getenv = f\<rparr> k c = perChainOrDefault \<lparr>getenv = f'\<rparr> k c"
  using assms by (simp add: perChainOrDefault_def lookup_def Let_def)

lemma prefix_before_byte: "prefix p (a @ c # b) \<Longrightarrow> c \<notin> set p \<Longrightarrow> prefix p a"
  by (auto simp: prefix_append prefix_Cons)

lemma IndexByte_split:
  "IndexByte s c = Some i \<Longrightarrow> s = take i s @ c # drop (i + 1) s \<and> c \<notin> set (take i s)"
  by (induction s arbitrary: i) (auto split: if_splits)

section \<open>Properties\<close>

text \<open>
  Chain isolation. Setting a per-chain variable (RPC URL, factory or split router) of
  another chain does not change the configuration a chain gets.
\<close>

theorem Get_other_chain:
  assumes "key \<in> {''RPC_URL'', ''CREATE2_FACTORY_ADDRESS'', ''EOFS_PROXY_ADDRESS''}" "c' \<noteq> c"
  shows "Get (NewRegistryWithLookup (f(key @ ''_'' @ FormatInt c' := v))) c = Get (NewRegistryWithLookup f) c"
proof -
  let ?f' = "f(key @ ''_'' @ FormatInt c' := v)"
  have same: "?f' k = f k" if "k \<in> {''RPC_URL'', ''CREATE2_FACTORY_ADDRESS'', ''EOFS_PROXY_ADDRESS'', ''ENTRYPOINT_ADDRESS''}" for k
    using not_suffixed_key [OF assms(1) that, of c'] by simp
  have spec: "?f' (k @ ''_'' @ FormatInt c) = f (k @ ''_'' @ FormatInt c)"
    if "k \<in> {''RPC_URL'', ''CREATE2_FACTORY_ADDRESS'', ''EOFS_PROXY_ADDRESS''}" for k
    using suffixed_key_eq [OF assms(1) that, of c c'] assms(2) by (metis fun_upd_other)
  have "perChainOrDefault \<lparr>getenv = ?f'\<rparr> k c = perChainOrDefault \<lparr>getenv = f\<rparr> k c"
    if "k \<in> {''RPC_URL'', ''CREATE2_FACTORY_ADDRESS'', ''EOFS_PROXY_ADDRESS''}" for k
    using that by (intro perChainOrDefault_cong spec same) auto
  moreover have "EntryPoint \<lparr>getenv = ?f'\<rparr> = EntryPoint \<lparr>getenv = f\<rparr>"
    using same [of "''ENTRYPOINT_ADDRESS''"] by (simp add: EntryPoint_def lookup_def)
  ultimately show ?thesis
    by (auto simp: Get_def RPCURL_def Create2Factory_def NewRegistryWithLookup_def Let_def
        split: sum.split)
qed

theorem Get_other_chain_witness:
  "Get (NewRegistryWithLookup ((\<lambda>k. ''x'')(''RPC_URL'' @ ''_'' @ FormatInt 137 := ''polygon''))) 1
     = Get (NewRegistryWithLookup (\<lambda>k. ''x'')) 1"
  by (rule Get_other_chain) simp_all

text \<open>
  A chain has a configuration exactly when the entry point is set and either its own RPC
  URL or the default one is; the chain's own URL wins over the default.
\<close>

theorem Get_iff:
  "(\<exists>cfg. Get r c = Inr cfg \<and> ChainID cfg = c
      \<and> cfg_EntryPoint cfg = lookup r ''ENTRYPOINT_ADDRESS''
      \<and> cfg_RPCURL cfg = (if lookup r (''RPC_URL_'' @ FormatInt c) \<noteq> []
           then lookup r (''RPC_URL_'' @ FormatInt c) else lookup r ''RPC_URL''))
   \<longleftrightarrow> lookup r ''ENTRYPOINT_ADDRESS'' \<noteq> [] \<and>
     perChainOrDefault r ''RPC_URL'' c \<noteq> []"
  by (auto simp: Get_def RPCURL_def EntryPoint_def perChainOrDefault_def Let_def split: if_splits)

text \<open>
  The start-up check is sound. When it passes, either every chain has a configuration, or
  the process environment holds a non-blank \<open>RPC_URL_<suffix>\<close> variable, and the chain whose
  decimal id is that suffix has one, provided the lookup returns that variable's value.
\<close>

theorem AssertConfig_sound:
  assumes "AssertConfig r environ = None"
  shows "(\<forall>c. \<exists>cfg. Get r c = Inr cfg) \<or>
    (\<exists>sfx v. ''RPC_URL_'' @ sfx @ ''='' @ v \<in> set environ \<and> TrimSpace v \<noteq> [] \<and>
       (\<forall>c. sfx = FormatInt c \<and> getenv r (''RPC_URL_'' @ sfx) = v \<longrightarrow> (\<exists>cfg. Get r c = Inr cfg)))"
proof (cases "lookup r ''RPC_URL'' = []")
  case False
  with assms show ?thesis
    by (auto simp: AssertConfig_def EntryPoint_def Get_def RPCURL_def perChainOrDefault_def Let_def
        split: if_splits)
next
  case True
  with assms obtain ep kv i where ep: "EntryPoint r = Inr ep"
    and kv: "kv \<in> set environ" "prefix ''RPC_URL_'' kv" "IndexByte kv CHR ''='' = Some i"
      "TrimSpace (drop (i + 1) kv) \<noteq> []"
    by (auto simp: AssertConfig_def split: sum.splits if_splits option.splits)
  let ?v = "drop (i + 1) kv"
  from IndexByte_split [OF kv(3)] have s: "kv = take i kv @ ''='' @ ?v" "CHR ''='' \<notin> set (take i kv)"
    by simp_all
  have "prefix ''RPC_URL_'' (take i kv @ CHR ''='' # ?v)" using kv(2) s(1) by simp
  then have "prefix ''RPC_URL_'' (take i kv)" by (rule prefix_before_byte) simp
  then obtain sfx where sfx: "take i kv = ''RPC_URL_'' @ sfx" by (rule prefixE)
  have "''RPC_URL_'' @ sfx @ ''='' @ ?v \<in> set environ" using kv(1) s(1) sfx by simp
  moreover have "\<exists>cfg. Get r c = Inr cfg" if "sfx = FormatInt c" "getenv r (''RPC_URL_'' @ sfx) = ?v" for c
    using that ep kv(4) by (simp add: Get_def RPCURL_def perChainOrDefault_def lookup_def Let_def)
  ultimately show ?thesis using kv(4) by blast
qed

theorem AssertConfig_sound_witness:
  "let r = NewRegistryWithLookup (\<lambda>k. if k = ''ENTRYPOINT_ADDRESS'' then ''0xe'' else
             if k = ''RPC_URL_1'' then ''http://n'' else []) in
   (\<forall>c. \<exists>cfg. Get r c = Inr cfg) \<or>
    (\<exists>sfx v. ''RPC_URL_'' @ sfx @ ''='' @ v \<in> set [''HOME=/'', ''RPC_URL_1=http://n''] \<and> TrimSpace v \<noteq> [] \<and>
       (\<forall>c. sfx = FormatInt c \<and> getenv r (''RPC_URL_'' @ sfx) = v \<longrightarrow> (\<exists>cfg. Get r c = Inr cfg)))"
proof -
  define r where "r = NewRegistryWithLookup (\<lambda>k. if k = ''ENTRYPOINT_ADDRESS'' then ''0xe'' else
             if k = ''RPC_URL_1'' then ''http://n'' else [])"
  have "TrimSpace ''0xe'' = ''0xe''" "TrimSpace ''http://n'' = ''http://n''"
    by (code_simp, code_simp)
  then have "AssertConfig r [''HOME=/'', ''RPC_URL_1=http://n''] = None"
    by (simp add: AssertConfig_def EntryPoint_def lookup_def r_def NewRegistryWithLookup_def)
  from AssertConfig_sound [OF this] show ?thesis by (simp only: r_def Let_def)
qed

text \<open>
  The resolved chain id is the request's when it names one, otherwise the default of the
  environment; a decimal \<open>DEFAULT_CHAIN_ID\<close> in the 64-bit range is read back exactly, and an
  unset or unparsable one is an error, never chain 0 by accident.
\<close>

theorem ResolveChainID_default:
  "ResolveChainID r c = (if c \<noteq> 0 then Inr c else
     case ParseInt (lookup r ''DEFAULT_CHAIN_ID'') 10 of
       Some n \<Rightarrow> Inr n
     | None \<Rightarrow> Inl (errorsNew
         ''chainId required: use path /api/bundler/<chainId>, pass chainId in params, or set DEFAULT_CHAIN_ID''))
   \<and> (ResolveChainID (NewRegistryWithLookup (f(''DEFAULT_CHAIN_ID'' := FormatInt n))) 0 = Inr n) = in_int64 n"
proof -
  have "ParseInt [] 10 = None" by (simp add: ParseInt_def SetString_def)
  then show ?thesis
    by (auto simp: ResolveChainID_def DefaultChainID_def NewRegistryWithLookup_def lookup_def Let_def
        split: option.splits)
qed

end
