(* ===== verification/Core.thy ===== *)
theory Core
  imports Signer Chain
begin

text \<open>
  \<open>internal/platform/ethclient\<close> (the cache of connected clients) and \<open>internal/core\<close> (the lock
  key of an account's nonces, and the managed transaction that deployment and the gas pool
  share).
\<close>

section \<open>Clients\<close>

definition registry :: "deps \<Rightarrow> Registry" where
  "registry d = NewRegistryWithLookup (d_getenv d)"

text \<open>
  The second critical section of \<open>Client\<close>: a client that lost the race against another
  goroutine is closed and the cached one is returned.
\<close>

definition storeClient :: "int64 \<Rightarrow> client \<Rightarrow> client weio" where
  "storeClient chainID c = (\<lambda>w.
     case clients w chainID of
       Some existing \<Rightarrow> bindI (emit (EvCloseClient c)) (\<lambda>_. retE existing) w
     | None \<Rightarrow> (Inr c, w\<lparr>clients := (clients w)(chainID \<mapsto> c)\<rparr>))"

definition Client :: "deps \<Rightarrow> int64 \<Rightarrow> client weio" where
  "Client d chainID = (\<lambda>w.
     case clients w chainID of
       Some c \<Rightarrow> (Inr c, w)
     | None \<Rightarrow>
         bindE (liftE (RPCURL (registry d) chainID)) (\<lambda>url.
         bindE (extcall (\<lambda>t. x_Dial (d_ext d) t url) (EvDial url)) (\<lambda>c.
         storeClient chainID c)) w)"

text \<open>\<open>Close\<close> at shutdown; \<open>keys\<close> is the order in which the iteration visits the map.\<close>

definition closeClients :: "int64 list \<Rightarrow> unit wio" where
  "closeClients keys = (\<lambda>w. ((), w\<lparr>trace := trace w @ map EvCloseClient (List.map_filter (clients w) keys),
     clients := Map.empty\<rparr>))"

text \<open>The call of a view method through \<open>bind.BoundContract\<close>, with its one output.\<close>

definition callView :: "deps \<Rightarrow> client \<Rightarrow> address \<Rightarrow> string \<Rightarrow> abival list \<Rightarrow> abival weio" where
  "callView d c a method args = extcall (\<lambda>t. x_Call (d_ext d) t c a method args) (EvCall c a method args)"

section \<open>Managed transactions\<close>

definition NonceLockKey :: "int64 \<Rightarrow> string \<Rightarrow> string" where
  "NonceLockKey chainID address = ''nonce:'' @ FormatInt chainID @ '':'' @ address"

text \<open>
  The critical section. The captured variables are \<open>tx\<close> and \<open>receipt\<close>; they are set as far as
  the section gets.
\<close>

definition managedTx ::
  "deps \<Rightarrow> client \<Rightarrow> int64 \<Rightarrow> Account \<Rightarrow> address \<Rightarrow> int option \<Rightarrow> string \<Rightarrow> abival list
     \<Rightarrow> ((txhash option \<times> tx_receipt option) \<times> go_error option) wio" where
  "managedTx d c chainID acc dest value method args =
     bindI (extcall (\<lambda>t. x_PendingNonceAt (d_ext d) t c (addr acc)) (EvPendingNonceAt c (addr acc))) (\<lambda>n.
       case n of
         Inl e \<Rightarrow> ret ((None, None), Some e)
       | Inr nonce \<Rightarrow>
           (case Transactor (d_geth d) acc chainID of
              Inl e \<Rightarrow> ret ((None, None), Some e)
            | Inr opts \<Rightarrow>
                let opts = opts\<lparr>opts_Nonce := nonce, opts_Value := (if value \<noteq> None then value else opts_Value opts)\<rparr>
                in bindI (extcall (\<lambda>t. x_Transact (d_ext d) t c opts dest method args)
                            (EvTransact c opts dest method args)) (\<lambda>r.
                     case r of
                       Inl e \<Rightarrow> ret ((None, None), Some e)
                     | Inr h \<Rightarrow>
                         bindI (extcall (\<lambda>t. x_WaitMined (d_ext d) t c h) (EvWaitMined c h)) (\<lambda>m.
                           case m of
                             Inl e \<Rightarrow> ret ((Some h, None), Some e)
                           | Inr rc \<Rightarrow> ret ((Some h, Some rc), None)))))"

definition SendManagedTx ::
  "deps \<Rightarrow> int64 \<Rightarrow> Account \<Rightarrow> address \<Rightarrow> int option \<Rightarrow> string \<Rightarrow> abival list
     \<Rightarrow> ((txhash option \<times> tx_receipt option) \<times> go_error option) wio" where
  "SendManagedTx d chainID acc dest value method args =
     bindI (Client d chainID) (\<lambda>r.
       case r of
         Inl e \<Rightarrow> ret ((None, None), Some e)
       | Inr c \<Rightarrow>
           WithNonceLock d (NonceLockKey chainID (address_Hex (d_geth d) (addr acc))) (None, None)
             (managedTx d c chainID acc dest value method args))"

section \<open>The client cache\<close>

fun dial_event :: "event \<Rightarrow> bool" where
  "dial_event (EvDial _ _) = True"
| "dial_event (EvCloseClient _) = True"
| "dial_event _ = False"

lemma Client_miss:
  assumes "Client d ch w = (r, w')" "clients w ch = None"
  obtains es where "w' = w\<lparr>trace := trace w @ es, clients := (case r of Inr c \<Rightarrow> (clients w)(ch \<mapsto> c) | Inl _ \<Rightarrow> clients w)\<rparr>"
    "list_all dial_event es"
proof -
  have "\<exists>es. w' = w\<lparr>trace := trace w @ es, clients := (case r of Inr c \<Rightarrow> (clients w)(ch \<mapsto> c) | Inl _ \<Rightarrow> clients w)\<rparr>
      \<and> list_all dial_event es"
  proof (cases "RPCURL (registry d) ch")
    case (Inl e)
    with assms show ?thesis by (intro exI [of _ "[]"]) (auto simp: Client_def io_simps)
  next
    case (Inr url)
    with assms show ?thesis
      by (intro exI [of _ "[EvDial url (x_Dial (d_ext d) (trace w) url)]"])
         (auto simp: Client_def storeClient_def io_simps split: sum.splits)
  qed
  with that show thesis by blast
qed

interpretation cl: lazy_cache "\<lambda>w. clients w ch" "Client d ch" for d ch
proof
  fix w v w' e
  show "Client d ch w = (Inr v, w)" if "clients w ch = Some v"
    using that by (simp add: Client_def)
  show "clients w' ch = Some v" if r: "Client d ch w = (Inr v, w')"
  proof (cases "clients w ch")
    case None
    with r show ?thesis by (auto elim: Client_miss)
  qed (use r in \<open>simp add: Client_def\<close>)
  show "clients w ch = None \<and> clients w' ch = None" if r: "Client d ch w = (Inl e, w')"
  proof (cases "clients w ch")
    case None
    with r show ?thesis by (auto elim: Client_miss)
  qed (use r in \<open>simp add: Client_def\<close>)
qed

lemma Client_trace:
  assumes "Client d ch w = (r, w')"
  obtains es where "trace w' = trace w @ es" "list_all dial_event es"
proof (cases "clients w ch")
  case None
  with assms that show thesis by (auto elim: Client_miss)
next
  case (Some c)
  with assms that [of "[]"] show thesis by (simp add: Client_def)
qed

lemma closeClients_closes:
  assumes "set keys = dom (clients w)" "closeClients keys w = ((), w')"
  shows "set (new_events w w') = EvCloseClient ` ran (clients w) \<and> clients w' = Map.empty"
proof -
  from assms(2) have w': "new_events w w' = map EvCloseClient (List.map_filter (clients w) keys)" "clients w' = Map.empty"
    by (auto simp: closeClients_def new_events_def)
  have "set (List.map_filter (clients w) keys) = ran (clients w)"
    using assms(1) by (force simp: List.map_filter_def ran_def)
  with w' show ?thesis by simp
qed

lemma Client_frame:
  assumes "Client d ch w = (r, w')"
  shows "server1 w' = server1 w" "server2 w' = server2 w" "pools w' = pools w" "chains w' = chains w"
  using assms
  by (auto simp: Client_def storeClient_def io_simps split: option.splits sum.splits prod.splits)

lemma Client_detached: "Client d ch w = (r, w') \<Longrightarrow> detached w' = detached w"
  by (auto simp: Client_def storeClient_def io_simps split: option.splits sum.splits prod.splits)

lemma dial_event_plain: "dial_event e \<Longrightarrow> \<not> mutex_event e \<and> \<not> submission e"
  by (cases e) simp_all

lemma dial_plain: "list_all dial_event es \<Longrightarrow> list_all (\<lambda>e. \<not> mutex_event e \<and> \<not> submission e) es"
  unfolding list_all_iff using dial_event_plain by blast

text \<open>
  Racing connections. Storing a freshly dialled client never replaces a cached one: the
  caller gets the client that stays in the cache, and a client that lost the race is closed.
\<close>

theorem storeClient_race:
  "storeClient ch c w = (case clients w ch of
      Some c0 \<Rightarrow> (Inr c0, w\<lparr>trace := trace w @ [EvCloseClient c]\<rparr>)
    | None \<Rightarrow> (Inr c, w\<lparr>clients := (clients w)(ch \<mapsto> c)\<rparr>))
   \<and> map_option Inr (clients (snd (storeClient ch c w)) ch) = Some (fst (storeClient ch c w))"
  by (simp add: storeClient_def io_simps split: option.split)

lemma asks_callView [intro, simp]: "asks query (callView d c a m args)"
  unfolding callView_def by (rule asks_extcall) simp

lemma callView_runs: "runs (callView d c a m args) (\<lambda>r es. es = [EvCall c a m args r])"
  unfolding callView_def by (rule runs_extcall) simp

section \<open>Serialised submissions\<close>

text \<open>
  \<open>nonce_ok a p es\<close>: every transaction in \<open>es\<close> is sent right after the pending nonce of \<open>a\<close> was
  read from the same node, and with that nonce; \<open>p\<close> is the event before \<open>es\<close>.
\<close>

fun nonce_ok :: "address \<Rightarrow> event option \<Rightarrow> trace \<Rightarrow> bool" where
  "nonce_ok a p [] = True"
| "nonce_ok a p (EvTransact c opts dest m args r # es) =
     (p = Some (EvPendingNonceAt c a (Inr (opts_Nonce opts))) \<and> nonce_ok a (Some (EvTransact c opts dest m args r)) es)"
| "nonce_ok a p (EvSendTransaction c (t, sig) r # es) =
     (p = Some (EvPendingNonceAt c a (Inr (tx_Nonce t))) \<and> nonce_ok a (Some (EvSendTransaction c (t, sig) r)) es)"
| "nonce_ok a p (e # es) = nonce_ok a (Some e) es"

lemma nonce_ok_Cons_other: "\<not> submission e \<Longrightarrow> nonce_ok a p (e # es) = nonce_ok a (Some e) es"
  by (cases e) auto

lemma nonce_ok_weaken: "nonce_ok a None es \<Longrightarrow> nonce_ok a p es"
proof (cases es)
  case (Cons e fs)
  moreover assume "nonce_ok a None es"
  ultimately show ?thesis by (cases e) auto
qed simp

lemma nonce_ok_append: "nonce_ok a p es \<Longrightarrow> nonce_ok a None fs \<Longrightarrow> nonce_ok a p (es @ fs)"
proof (induction es arbitrary: p)
  case Nil
  then show ?case by (simp add: nonce_ok_weaken)
next
  case (Cons e es)
  then show ?case by (cases e) auto
qed

lemma nonce_ok_plain: "list_all (\<lambda>e. \<not> submission e) es \<Longrightarrow> nonce_ok a p es"
  by (induction es arbitrary: p) (auto simp: nonce_ok_Cons_other)

text \<open>
  What the nonce lock is for: all submissions of \<open>es\<close> happen while \<open>k\<close> is held, \<open>k\<close> is free at
  the end, and nonces are read afresh.
\<close>

definition serialized :: "string \<Rightarrow> address \<Rightarrow> trace \<Rightarrow> bool" where
  "serialized k a es \<longleftrightarrow> guarded k False es \<and> \<not> held k False es \<and> nonce_ok a None es"

lemma serialized_Nil [simp]: "serialized k a []"
  by (simp add: serialized_def)

lemma serialized_append: "serialized k a es \<Longrightarrow> serialized k a fs \<Longrightarrow> serialized k a (es @ fs)"
  by (simp add: serialized_def guarded_append held_append nonce_ok_append)

lemma serialized_plain:
  assumes "list_all (\<lambda>e. \<not> mutex_event e \<and> \<not> submission e) es"
  shows "serialized k a es"
proof -
  have "list_all (\<lambda>e. \<not> mutex_event e) es" "list_all (\<lambda>e. \<not> submission e) es"
    using assms by (auto simp: list_all_iff)
  then show ?thesis using guarded_none [OF assms] by (simp add: serialized_def held_plain nonce_ok_plain)
qed

lemma serialized_region:
  assumes "quiet pre" "quiet post" "list_all (\<lambda>e. \<not> mutex_event e) es" "nonce_ok a None es"
  shows "serialized k a (EvLock k # pre @ es @ post @ [EvUnlock k])"
proof -
  have q: "list_all (\<lambda>e. \<not> submission e) xs" if "quiet xs" for xs
    using that by (auto simp: list_all_iff dest: lock_noise_plain)
  let ?es = "pre @ es @ post"
  have p: "list_all (\<lambda>e. \<not> mutex_event e) ?es" using assms quiet_plain(1) by simp
  have "guarded k False ([] @ EvLock k # ?es @ [EvUnlock k])" using guarded_region [OF _ p, of "[]"] by simp
  moreover have "held k True (?es @ [EvUnlock k]) = False" using held_plain [OF p] by (simp only: held_append) simp
  moreover have "nonce_ok a (Some (EvLock k)) (pre @ es @ post @ [EvUnlock k])"
  proof (rule nonce_ok_append)
    show "nonce_ok a None (es @ post @ [EvUnlock k])"
      by (rule nonce_ok_append [OF assms(4)], rule nonce_ok_plain) (use q [OF assms(2)] in auto)
  qed (rule nonce_ok_plain [OF q [OF assms(1)]])
  ultimately show ?thesis by (simp add: serialized_def)
qed

text \<open>A function all of whose runs are serialised.\<close>

definition serializes :: "string \<Rightarrow> address \<Rightarrow> 'a wio \<Rightarrow> bool" where
  "serializes k a m \<longleftrightarrow> (\<forall>w. \<exists>es. trace (snd (m w)) = trace w @ es \<and> serialized k a es)"

lemma serializesI: "(\<And>w x w'. m w = (x, w') \<Longrightarrow> \<exists>es. trace w' = trace w @ es \<and> serialized k a es) \<Longrightarrow> serializes k a m"
  unfolding serializes_def by (metis surjective_pairing)

lemma serializesE:
  assumes "serializes k a m" "m w = (x, w')"
  obtains es where "trace w' = trace w @ es" "serialized k a es"
  using assms unfolding serializes_def by (metis snd_conv)

lemma serializes_new_events: "serializes k a m \<Longrightarrow> m w = (x, w') \<Longrightarrow> serialized k a (new_events w w')"
  by (erule serializesE) (auto simp: new_events_append)

lemma appends_serializes: "appends (\<lambda>e. \<not> mutex_event e \<and> \<not> submission e) m \<Longrightarrow> serializes k a m"
  by (rule serializesI) (auto elim!: appendsE intro: serialized_plain)

lemma serializes_ret [simp]: "serializes k a (ret x)"
  by (rule appends_serializes) simp

lemma serializes_bindI:
  assumes "serializes k a m" "\<And>x. serializes k a (f x)"
  shows "serializes k a (bindI m f)"
proof (rule serializesI)
  fix w y w' assume r: "bindI m f w = (y, w')"
  obtain x u where m: "m w = (x, u)" by fastforce
  with r have f: "f x u = (y, w')" by (simp add: bindI_def)
  from assms(1) m obtain es where es: "trace u = trace w @ es" "serialized k a es" by (rule serializesE)
  from assms(2) f obtain fs where "trace w' = trace u @ fs" "serialized k a fs" by (rule serializesE)
  with es show "\<exists>es. trace w' = trace w @ es \<and> serialized k a es" by (auto intro: serialized_append)
qed

lemma serializes_bindE:
  assumes "serializes k a m" "\<And>w x w'. m w = (Inr x, w') \<Longrightarrow> serializes k a (f x)"
  shows "serializes k a (bindE m f)"
proof (rule serializesI)
  fix w y w' assume r: "bindE m f w = (y, w')"
  obtain x u where m: "m w = (x, u)" by fastforce
  from assms(1) m obtain es where es: "trace u = trace w @ es" "serialized k a es" by (rule serializesE)
  show "\<exists>es. trace w' = trace w @ es \<and> serialized k a es"
  proof (cases x)
    case (Inl e)
    with r m es show ?thesis by (auto simp: bindE_def)
  next
    case (Inr z)
    with r m have f: "f z u = (y, w')" by (simp add: bindE_def)
    from assms(2) [OF m [unfolded Inr]] f obtain fs where "trace w' = trace u @ fs" "serialized k a fs"
      by (rule serializesE)
    with es show ?thesis by (auto intro: serialized_append)
  qed
qed

lemma serializes_pureE [simp]:
  "serializes k a (liftE r)" "serializes k a (retE x)" "serializes k a (failE e)"
  by (auto intro: appends_serializes)

lemma nonce_ok_queries: "list_all query es \<Longrightarrow> nonce_ok a p es"
  by (rule nonce_ok_plain) (auto simp: list_all_iff dest: query_plain)

text \<open>The documented law of \<open>types.SignTx\<close>: signing does not change the transaction.\<close>

definition signs_faithfully :: "geth \<Rightarrow> bool" where
  "signs_faithfully g \<longleftrightarrow> (\<forall>ch k t s. types_SignTx g ch k t = Inr s \<longrightarrow> fst s = t)"

text \<open>A signed transaction of an account with a given destination, value and data.\<close>

definition carries :: "geth \<Rightarrow> int64 \<Rightarrow> Account \<Rightarrow> address \<Rightarrow> int \<Rightarrow> bytes \<Rightarrow> signed_tx \<Rightarrow> bool" where
  "carries g ch acc dest v data stx \<longleftrightarrow> (\<exists>t. types_SignTx g ch (priv acc) t = Inr stx
     \<and> tx_To t = dest \<and> tx_Value t = v \<and> tx_Data t = data)"

text \<open>A critical section that reads nonces afresh is serialised by the lock around it.\<close>

definition fresh_section :: "address \<Rightarrow> 'a wio \<Rightarrow> bool" where
  "fresh_section a m \<longleftrightarrow> (\<forall>w. \<exists>es. trace (snd (m w)) = trace w @ es
     \<and> list_all (\<lambda>e. \<not> mutex_event e) es \<and> nonce_ok a None es)"

lemma fresh_sectionI:
  "(\<And>w x w'. m w = (x, w') \<Longrightarrow> \<exists>es. trace w' = trace w @ es \<and> list_all (\<lambda>e. \<not> mutex_event e) es \<and> nonce_ok a None es)
     \<Longrightarrow> fresh_section a m"
  unfolding fresh_section_def by (metis surjective_pairing)

lemma fresh_sectionE:
  assumes "fresh_section a m" "m w = (x, w')"
  obtains es where "trace w' = trace w @ es" "list_all (\<lambda>e. \<not> mutex_event e) es" "nonce_ok a None es"
  using assms unfolding fresh_section_def by (metis snd_conv)

lemma WithNonceLock_serializes:
  assumes "fresh_section a fn"
  shows "serializes k a (WithNonceLock d k cap fn)"
proof (rule serializesI)
  fix w res w' assume "WithNonceLock d k cap fn w = (res, w')"
  from wl.lock_runs [OF this] show "\<exists>es. trace w' = trace w @ es \<and> serialized k a es"
  proof (elim disjE exE conjE)
    fix pre post w2 assume q: "quiet pre" "quiet post"
      and f: "fn (w\<lparr>trace := trace w @ EvLock k # pre\<rparr>) = (res, w2)"
      and w': "w' = w2\<lparr>trace := trace w2 @ post @ [EvUnlock k]\<rparr>"
    from fresh_sectionE [OF assms f] obtain es where es: "trace w2 = trace w @ EvLock k # pre @ es"
      "list_all (\<lambda>e. \<not> mutex_event e) es" "nonce_ok a None es" by auto
    with w' serialized_region [OF q es(2,3)] show ?thesis by auto
  next
    fix es e assume "quiet es" "w' = w\<lparr>trace := trace w @ EvLock k # es @ [EvUnlock k]\<rparr>"
    then show ?thesis using serialized_region [of es "[]" "[]" a k] by auto
  qed
qed

lemma Client_serializes [intro, simp]: "serializes k a (Client d ch)"
  by (rule appends_serializes, rule appendsI) (auto elim!: Client_trace dest: dial_plain)

section \<open>The managed transaction\<close>

lemma NonceLockKey_inj: "NonceLockKey c a = NonceLockKey c' a' \<Longrightarrow> c = c' \<and> a = a'"
proof -
  assume "NonceLockKey c a = NonceLockKey c' a'"
  then have e: "FormatInt c @ CHR '':'' # a = FormatInt c' @ CHR '':'' # a'" by (simp add: NonceLockKey_def)
  have n: "CHR '':'' \<notin> set (FormatInt i)" for i by (auto dest!: FormatInt_chars simp: isDigit_def)
  have "takeWhile (\<lambda>x. x \<noteq> CHR '':'') (FormatInt i @ CHR '':'' # b) = FormatInt i"
    "dropWhile (\<lambda>x. x \<noteq> CHR '':'') (FormatInt i @ CHR '':'' # b) = CHR '':'' # b" for i b
    using n [of i] by (subst takeWhile_append2 dropWhile_append2; force)+
  with e have "FormatInt c = FormatInt c'" "a = a'" by (metis, metis list.inject)
  then show ?thesis by (auto dest: FormatInt_inj)
qed

text \<open>The events of a critical section that got as far as a mined transaction.\<close>

definition managed_events ::
  "client \<Rightarrow> address \<Rightarrow> uint64 \<Rightarrow> transactopts \<Rightarrow> address \<Rightarrow> string \<Rightarrow> abival list \<Rightarrow> txhash \<Rightarrow> tx_receipt \<Rightarrow> trace" where
  "managed_events c a n opts dest method args h rc =
     [EvPendingNonceAt c a (Inr n), EvTransact c opts dest method args (Inr h), EvWaitMined c h (Inr rc)]"

text \<open>The options of a managed transaction: the account's signer, the nonce and the value if one is given.\<close>

definition signed_by :: "deps \<Rightarrow> Account \<Rightarrow> int64 \<Rightarrow> uint64 \<Rightarrow> int option \<Rightarrow> transactopts \<Rightarrow> bool" where
  "signed_by d acc ch n v opts \<longleftrightarrow> (\<exists>o0. Transactor (d_geth d) acc ch = Inr o0
     \<and> opts = o0\<lparr>opts_Nonce := n, opts_Value := (if v \<noteq> None then v else opts_Value o0)\<rparr>)"

lemma managedTx_success:
  assumes "managedTx d c ch acc dest v m args w = ((x, None), w')"
  shows "\<exists>n opts h rc. x = (Some h, Some rc) \<and> signed_by d acc ch n v opts
     \<and> w' = w\<lparr>trace := trace w @ managed_events c (addr acc) n opts dest m args h rc\<rparr>"
proof -
  let ?n = "x_PendingNonceAt (d_ext d) (trace w) c (addr acc)"
  from assms obtain n o0 where n: "?n = Inr n" "Transactor (d_geth d) acc ch = Inr o0"
    by (auto simp: managedTx_def io_simps split: sum.splits)
  let ?o = "o0\<lparr>opts_Nonce := n, opts_Value := (if v \<noteq> None then v else opts_Value o0)\<rparr>"
  obtain o1 where o1: "?o = o1" by blast
  from assms n obtain h rc where "x = (Some h, Some rc)"
    "w' = w\<lparr>trace := trace w @ managed_events c (addr acc) n o1 dest m args h rc\<rparr>"
    unfolding managedTx_def by (auto simp: io_simps Let_def managed_events_def o1 simp del: not_None_eq split: sum.splits)
  moreover have "signed_by d acc ch n v o1" using n(2) by (auto simp: signed_by_def simp flip: o1)
  ultimately show ?thesis by blast
qed

lemma managedTx_fresh: "fresh_section (addr acc) (managedTx d c ch acc dest v m args)"
  by (rule fresh_sectionI) (auto simp: managedTx_def io_simps Let_def split: sum.splits)

lemma SendManagedTx_pools: "keeps pools (SendManagedTx d ch acc dest v m args)"
proof (rule keepsI)
  fix w x w' assume r: "SendManagedTx d ch acc dest v m args w = (x, w')"
  obtain y w1 where cl: "Client d ch w = (y, w1)" by fastforce
  have m: "keeps pools (managedTx d c ch acc dest v m args)" for c
    by (rule keepsI) (auto simp: managedTx_def io_simps Let_def split: sum.splits)
  show "pools w' = pools w"
  proof (cases y)
    case (Inr c)
    with r cl have "WithNonceLock d (NonceLockKey ch (address_Hex (d_geth d) (addr acc))) (None, None)
        (managedTx d c ch acc dest v m args) w1 = (x, w')" by (simp add: SendManagedTx_def io_simps)
    from wl.lock_runs [OF this] have "pools w' = pools w1" using keepsD [OF m] by fastforce
    with Client_frame(3) [OF cl] show ?thesis by simp
  qed (use r cl Client_frame(3) [OF cl] in \<open>simp add: SendManagedTx_def io_simps\<close>)
qed

lemma SendManagedTx_mined:
  assumes "SendManagedTx d ch acc dest v m args w = ((x, None), w')"
  shows "\<exists>dial c pre n opts h rc post. x = (Some h, Some rc) \<and> signed_by d acc ch n v opts
     \<and> list_all dial_event dial \<and> quiet pre \<and> quiet post
     \<and> trace w' = trace w @ dial @ EvLock (NonceLockKey ch (address_Hex (d_geth d) (addr acc))) # pre
         @ managed_events c (addr acc) n opts dest m args h rc
         @ post @ [EvUnlock (NonceLockKey ch (address_Hex (d_geth d) (addr acc)))]"
proof -
  let ?k = "NonceLockKey ch (address_Hex (d_geth d) (addr acc))"
  obtain r w1 where cl: "Client d ch w = (r, w1)" by fastforce
  with assms obtain c where c: "r = Inr c"
    and l: "WithNonceLock d ?k (None, None) (managedTx d c ch acc dest v m args) w1 = ((x, None), w')"
    by (auto simp: SendManagedTx_def io_simps split: sum.splits)
  obtain dial where dial: "trace w1 = trace w @ dial" "list_all dial_event dial"
    using Client_trace [OF cl] by blast
  from wl.success_ran [OF l] obtain pre post w2 where q: "quiet pre" "quiet post"
    and f: "managedTx d c ch acc dest v m args (w1\<lparr>trace := trace w1 @ EvLock ?k # pre\<rparr>) = ((x, None), w2)"
    and w': "w' = w2\<lparr>trace := trace w2 @ post @ [EvUnlock ?k]\<rparr>" by blast
  from managedTx_success [OF f] obtain n opts h rc where s: "x = (Some h, Some rc)" "signed_by d acc ch n v opts"
    "trace w2 = trace w1 @ EvLock ?k # pre @ managed_events c (addr acc) n opts dest m args h rc" by auto
  show ?thesis
    by (intro exI [of _ dial] exI [of _ c] exI [of _ pre] exI [of _ n] exI [of _ opts] exI [of _ h]
        exI [of _ rc] exI [of _ post]) (use dial q s w' in simp)
qed

text \<open>
  C1: a managed transaction that succeeds has read the account's pending nonce, sent one
  transaction with exactly that nonce and seen it mined, in this order and with no other call
  in between, all inside one critical section of the account's nonce lock.
\<close>

theorem SendManagedTx_success:
  assumes "SendManagedTx d ch acc dest v m args w = ((x, None), w')"
  shows "\<exists>dial c pre n opts h rc post. x = (Some h, Some rc) \<and> signed_by d acc ch n v opts
     \<and> list_all dial_event dial \<and> quiet pre \<and> quiet post
     \<and> new_events w w' = dial @ EvLock (NonceLockKey ch (address_Hex (d_geth d) (addr acc))) # pre
         @ managed_events c (addr acc) n opts dest m args h rc
         @ post @ [EvUnlock (NonceLockKey ch (address_Hex (d_geth d) (addr acc)))]"
  using SendManagedTx_mined [OF assms] unfolding new_events_def by (metis append_eq_conv_conj)

text \<open>A node that accepts everything and mines it with a given status.\<close>

definition mining_ext :: "uint64 \<Rightarrow> ext" where
  "mining_ext status = offline_ext\<lparr>x_PendingNonceAt := \<lambda>t c a. Inr 7,
     x_Transact := \<lambda>t c opts a m vs. Inr ''0xaa'',
     x_SendTransaction := \<lambda>t c s. None,
     x_EstimateGas := \<lambda>t c m. Inr 50000,
     x_Call := \<lambda>t c a m vs. Inr (VUint 4),
     x_WaitMined := \<lambda>t c h. Inr \<lparr>rcpt_Status = status, rcpt_GasUsed = 21000,
       rcpt_EffectiveGasPrice = Some 1, rcpt_Logs = []\<rparr>\<rparr>"

lemma mining_run:
  "\<exists>w'. SendManagedTx (demo_deps (mining_ext s) False) 1 \<lparr>priv = 1, addr = 1\<rparr> 2 None ''deploy'' []
       (init_world\<lparr>clients := [1 \<mapsto> 5]\<rparr>)
     = (((Some ''0xaa'', Some \<lparr>rcpt_Status = s, rcpt_GasUsed = 21000,
          rcpt_EffectiveGasPrice = Some 1, rcpt_Logs = []\<rparr>), None), w')"
  by (simp add: SendManagedTx_def Client_def WithNonceLock_def managedTx_def mining_ext_def Transactor_def
      opaque_geth_def io_simps Let_def)

theorem SendManagedTx_success_witness:
  "\<exists>x w' h rc. SendManagedTx (demo_deps (mining_ext 1) False) 1 \<lparr>priv = 1, addr = 1\<rparr> 2 None ''deploy'' []
       (init_world\<lparr>clients := [1 \<mapsto> 5]\<rparr>) = ((x, None), w') \<and> x = (Some h, Some rc)"
  using mining_run [of 1] SendManagedTx_success by blast

text \<open>
  A managed transaction that was mined but reverted (receipt status 0) is reported as a
  success: the receipt's status is not looked at.
\<close>

theorem SendManagedTx_ignores_status:
  "\<exists>d ch acc dest m args w h rc w'.
     SendManagedTx d ch acc dest None m args w = (((Some h, Some rc), None), w') \<and> rcpt_Status rc = 0"
  using mining_run [of 0] by (metis tx_receipt.select_convs(1))

text \<open>
  Whatever the node, redis and the clock do, every transaction \<open>SendManagedTx\<close> submits is
  submitted while the account's nonce lock is held and with the pending nonce read just before
  in the same critical section, and the lock is free again afterwards.
\<close>

theorem SendManagedTx_serialized:
  "serializes (NonceLockKey ch (address_Hex (d_geth d) (addr acc))) (addr acc)
     (SendManagedTx d ch acc dest v m args)"
  unfolding SendManagedTx_def
  by (intro serializes_bindI Client_serializes)
     (auto split: sum.split intro: WithNonceLock_serializes managedTx_fresh)

end
