(* ===== verification/Client_Protocol.thy ===== *)
theory Client_Protocol
  imports Core
begin

text \<open>
  Goroutines of one process that ask the client cache at the same time. \<open>Client\<close> looks into the
  map under the mutex, dials without it, and stores under it again, so that several goroutines
  can dial the same chain; \<open>Close\<close> can run at any time. A step is a critical section or a dial,
  and runs the definitions of \<open>Core\<close> on the shared world.
\<close>

section \<open>Steps\<close>

datatype client_pc = Asking | Missed | Fresh client | Got client | Failed

text \<open>\<open>dialed\<close> are all clients dialled so far, \<open>down\<close> whether \<open>Close\<close> has run.\<close>

record cache_state =
  shared :: world
  cpc :: "nat \<Rightarrow> client_pc"
  dialed :: "client set"
  down :: bool

text \<open>
  Goroutine \<open>g\<close> asks for the chain \<open>ch g\<close>. A dial returns a new client; it fails for want of an
  RPC URL or by the error of the connection.
\<close>

inductive client_step :: "(nat \<Rightarrow> int64) \<Rightarrow> cache_state \<Rightarrow> cache_state \<Rightarrow> bool" for ch where
  hit: "client_step ch s (s\<lparr>cpc := (cpc s)(g := Got c)\<rparr>)"
    if "cpc s g = Asking" "clients (shared s) (ch g) = Some c"
| miss: "client_step ch s (s\<lparr>cpc := (cpc s)(g := Missed)\<rparr>)"
    if "cpc s g = Asking" "clients (shared s) (ch g) = None"
| fail: "client_step ch s (s\<lparr>cpc := (cpc s)(g := Failed)\<rparr>)" if "cpc s g = Missed"
| dial: "client_step ch s (s\<lparr>shared := w, cpc := (cpc s)(g := Fresh c), dialed := insert c (dialed s)\<rparr>)"
    if "cpc s g = Missed" "c \<notin> dialed s" "w = (shared s)\<lparr>trace := trace (shared s) @ [EvDial url (Inr c)]\<rparr>"
| store: "client_step ch s (s\<lparr>shared := w, cpc := (cpc s)(g := Got r)\<rparr>)"
    if "cpc s g = Fresh c" "storeClient (ch g) c (shared s) = (Inr r, w)"
| close_all: "client_step ch s (s\<lparr>shared := w, down := True\<rparr>)"
    if "set keys = dom (clients (shared s))" "distinct keys" "closeClients keys (shared s) = ((), w)"

inductive_cases client_stepE: "client_step ch s t"

definition client_init :: "cache_state \<Rightarrow> bool" where
  "client_init s \<longleftrightarrow> s = \<lparr>shared = init_world, cpc = (\<lambda>_. Asking), dialed = {}, down = False\<rparr>"

section \<open>Invariant\<close>

text \<open>How often a client was closed.\<close>

definition closings :: "world \<Rightarrow> client \<Rightarrow> nat" where
  "closings w c = count_list (trace w) (EvCloseClient c)"

definition cached :: "cache_state \<Rightarrow> client \<Rightarrow> bool" where
  "cached s c \<longleftrightarrow> c \<in> ran (clients (shared s))"

definition racing :: "cache_state \<Rightarrow> client \<Rightarrow> bool" where
  "racing s c \<longleftrightarrow> (\<exists>g. cpc s g = Fresh c)"

text \<open>A client dialled is in exactly one place, and in no second chain's entry or goroutine.\<close>

definition placed :: "cache_state \<Rightarrow> client \<Rightarrow> bool" where
  "placed s c \<longleftrightarrow> closings (shared s) c = (if c \<in> dialed s \<and> \<not> cached s c \<and> \<not> racing s c then 1 else 0)
     \<and> \<not> (cached s c \<and> racing s c) \<and> (cached s c \<or> racing s c \<longrightarrow> c \<in> dialed s)"

definition places_inv :: "cache_state \<Rightarrow> bool" where
  "places_inv s \<longleftrightarrow> (\<forall>c. placed s c)"

definition unique_inv :: "cache_state \<Rightarrow> bool" where
  "unique_inv s \<longleftrightarrow> (\<forall>g g' c. cpc s g = Fresh c \<and> cpc s g' = Fresh c \<longrightarrow> g = g')
     \<and> (\<forall>a b c. clients (shared s) a = Some c \<and> clients (shared s) b = Some c \<longrightarrow> a = b)"

definition held_inv :: "(nat \<Rightarrow> int64) \<Rightarrow> cache_state \<Rightarrow> bool" where
  "held_inv ch s \<longleftrightarrow> (\<not> down s \<longrightarrow> (\<forall>g c. cpc s g = Got c \<longrightarrow> clients (shared s) (ch g) = Some c))"

definition cache_inv :: "(nat \<Rightarrow> int64) \<Rightarrow> cache_state \<Rightarrow> bool" where
  "cache_inv ch s \<longleftrightarrow> places_inv s \<and> unique_inv s \<and> held_inv ch s"

lemma closeClients_closings:
  assumes "set keys = dom (clients w)" "distinct keys" "closeClients keys w = ((), w')"
    and inj: "\<And>a b c. clients w a = Some c \<Longrightarrow> clients w b = Some c \<Longrightarrow> a = b"
  shows "closings w' c = closings w c + (if c \<in> ran (clients w) then 1 else 0)"
proof -
  let ?cs = "List.map_filter (clients w) keys"
  have "set ?cs = ran (clients w)" using assms(1) by (force simp: List.map_filter_def ran_def)
  moreover have "distinct ?cs"
    using assms(2) inj unfolding List.map_filter_def by (auto simp: distinct_map intro!: inj_onI)
  moreover have "distinct (map EvCloseClient ?cs)" using \<open>distinct ?cs\<close> by (simp add: distinct_map inj_on_def)
  ultimately have "count_list (map EvCloseClient ?cs) (EvCloseClient c) = (if c \<in> ran (clients w) then 1 else 0)"
    using distinct_count_list [of "map EvCloseClient ?cs" "EvCloseClient c"] by (auto simp: count_list_0_iff)
  then show ?thesis using assms(3) by (auto simp: closings_def closeClients_def)
qed

lemma storeClient_cases:
  assumes "storeClient ch c w = (Inr r, w')"
  obtains (Won) "clients w ch = None" "r = c" "w' = w\<lparr>clients := (clients w)(ch \<mapsto> c)\<rparr>"
  | (Lost) "clients w ch = Some r" "w' = w\<lparr>trace := trace w @ [EvCloseClient c]\<rparr>"
  using assms by (auto simp: storeClient_def io_simps split: option.splits)

text \<open>A goroutine that leaves or enters a race.\<close>

lemma racing_update:
  assumes "\<And>c. p \<noteq> Fresh c" "\<And>c. cpc s g \<noteq> Fresh c"
  shows "(\<exists>g'. ((cpc s)(g := p)) g' = Fresh c) \<longleftrightarrow> (\<exists>g'. cpc s g' = Fresh c)"
proof
  assume "\<exists>g'. ((cpc s)(g := p)) g' = Fresh c"
  then show "\<exists>g'. cpc s g' = Fresh c" using assms(1) by (auto split: if_splits)
next
  assume "\<exists>g'. cpc s g' = Fresh c"
  then obtain g' where "cpc s g' = Fresh c" by blast
  moreover from this have "g' \<noteq> g" using assms(2) by auto
  ultimately have "((cpc s)(g := p)) g' = Fresh c" by simp
  then show "\<exists>g'. ((cpc s)(g := p)) g' = Fresh c" by blast
qed

lemma racing_leave:
  assumes "unique_inv s" "cpc s g = Fresh c"
  shows "(\<exists>g'. ((cpc s)(g := Got r)) g' = Fresh c') \<longleftrightarrow> racing s c' \<and> c' \<noteq> c"
proof
  assume "\<exists>g'. ((cpc s)(g := Got r)) g' = Fresh c'"
  then obtain g' where "((cpc s)(g := Got r)) g' = Fresh c'" by blast
  then have "cpc s g' = Fresh c'" "g' \<noteq> g" by (auto split: if_splits)
  with assms show "racing s c' \<and> c' \<noteq> c" unfolding racing_def unique_inv_def by blast
next
  assume "racing s c' \<and> c' \<noteq> c"
  then obtain g' where g: "cpc s g' = Fresh c'" "c' \<noteq> c" by (auto simp: racing_def)
  with assms(2) have "g' \<noteq> g" by auto
  with g(1) show "\<exists>g'. ((cpc s)(g := Got r)) g' = Fresh c'" by (intro exI [of _ g']) simp
qed

lemma places_inv_step:
  assumes "client_step ch s t" "places_inv s" "unique_inv s"
  shows "places_inv t"
  using assms(1)
proof cases
  case (hit g c)
  then show ?thesis using assms(2) racing_update [of "Got c" s g]
    by (simp add: places_inv_def placed_def cached_def racing_def closings_def del: fun_upd_apply)
next
  case (miss g)
  then show ?thesis using assms(2) racing_update [of Missed s g]
    by (simp add: places_inv_def placed_def cached_def racing_def closings_def del: fun_upd_apply)
next
  case (fail g)
  then show ?thesis using assms(2) racing_update [of Failed s g]
    by (simp add: places_inv_def placed_def cached_def racing_def closings_def del: fun_upd_apply)
next
  case (dial g c w url)
  have r: "racing t c' \<longleftrightarrow> racing s c' \<or> c' = c" for c'
  proof -
    have "racing t c' \<longleftrightarrow> (\<exists>g'. g' \<noteq> g \<and> cpc s g' = Fresh c') \<or> c' = c"
      using dial(1) unfolding racing_def by (auto split: if_splits)
    also have "(\<exists>g'. g' \<noteq> g \<and> cpc s g' = Fresh c') \<longleftrightarrow> racing s c'"
      unfolding racing_def using dial(2) client_pc.distinct by metis
    finally show ?thesis .
  qed
  have "cached t c' = cached s c'" "closings (shared t) c' = closings (shared s) c'" "dialed t = insert c (dialed s)" for c'
    using dial by (simp_all add: cached_def closings_def)
  with r dial(3) show ?thesis using assms(2) by (auto simp: places_inv_def placed_def)
next
  case (store g c r w)
  have t: "racing t c' \<longleftrightarrow> racing s c' \<and> c' \<noteq> c" for c'
    using racing_leave [OF assms(3) store(2)] store(1) by (simp add: racing_def del: fun_upd_apply)
  have rc: "racing s c" using store(2) by (auto simp: racing_def)
  show ?thesis using store(3)
  proof (cases rule: storeClient_cases)
    case Won
    have 1: "cached t c' \<longleftrightarrow> cached s c' \<or> c' = c" for c'
      using ran_map_upd [of "clients (shared s)" "ch g" c] by (auto simp: store(1) Won cached_def)
    have 2: "closings (shared t) c' = closings (shared s) c'" "dialed t = dialed s" for c'
      by (simp_all add: store(1) Won(3) closings_def)
    show ?thesis unfolding places_inv_def
    proof
      fix c'
      have "placed s c'" using assms(2) by (simp add: places_inv_def)
      then show "placed t c'" unfolding placed_def 1 2 t by (cases "c' = c") (simp_all add: rc)
    qed
  next
    case Lost
    have 1: "cached t c' \<longleftrightarrow> cached s c'" "closings (shared t) c' = closings (shared s) c' + (if c' = c then 1 else 0)"
      "dialed t = dialed s" for c'
      by (simp_all add: store(1) Lost(2) cached_def closings_def)
    show ?thesis unfolding places_inv_def
    proof
      fix c'
      have "placed s c'" using assms(2) by (simp add: places_inv_def)
      then show "placed t c'" unfolding placed_def 1 t by (cases "c' = c") (simp_all add: rc)
    qed
  qed
next
  case (close_all keys w)
  have inj: "clients (shared s) a = Some c \<Longrightarrow> clients (shared s) b = Some c \<Longrightarrow> a = b" for a b c
    using assms(3) unfolding unique_inv_def by blast
  have "closings (shared t) c = closings (shared s) c + (if cached s c then 1 else 0)" "\<not> cached t c" "racing t c = racing s c"
    "dialed t = dialed s" for c
    using closeClients_closings [OF close_all(2-4) inj] close_all(1,4)
    by (auto simp: cached_def racing_def closeClients_def)
  then show ?thesis using assms(2) by (auto simp: places_inv_def placed_def)
qed

lemma unique_inv_step:
  assumes "client_step ch s t" "places_inv s" "unique_inv s"
  shows "unique_inv t"
  using assms(1)
proof cases
  case (dial g c w url)
  then have "cpc s g' \<noteq> Fresh c" for g' using assms(2) unfolding places_inv_def placed_def racing_def by blast
  with dial assms(3) show ?thesis by (auto simp: unique_inv_def)
next
  case (store g c r w)
  have new: "clients (shared s) a \<noteq> Some c" for a
    using assms(2) store(2) unfolding places_inv_def placed_def cached_def racing_def by (metis ranI)
  have "(\<forall>g g' c. cpc t g = Fresh c \<and> cpc t g' = Fresh c \<longrightarrow> g = g')" using store(1) assms(3) by (auto simp: unique_inv_def)
  moreover have "\<forall>a b c. clients w a = Some c \<and> clients w b = Some c \<longrightarrow> a = b"
    using store(3) by (cases rule: storeClient_cases) (use assms(3) new in \<open>auto simp: unique_inv_def\<close>)
  ultimately show ?thesis using store(1) by (simp add: unique_inv_def)
qed (use assms(3) in \<open>auto simp: unique_inv_def closeClients_def\<close>)

lemma held_inv_step:
  assumes "client_step ch s t" "held_inv ch s"
  shows "held_inv ch t"
  using assms(1)
proof cases
  case (store g c r w)
  show ?thesis using store(3)
    by (cases rule: storeClient_cases) (use store(1) assms(2) in \<open>fastforce simp: held_inv_def\<close>)+
qed (use assms(2) in \<open>auto simp: held_inv_def\<close>)

interpretation cp: invariant_system client_init "client_step ch" "cache_inv ch" for ch
proof unfold_locales
  fix s assume "client_init s"
  then show "cache_inv ch s"
    by (simp add: client_init_def cache_inv_def places_inv_def placed_def unique_inv_def held_inv_def cached_def racing_def closings_def
        init_world_def)
next
  fix s t assume "cache_inv ch s" "client_step ch s t"
  then show "cache_inv ch t"
    unfolding cache_inv_def using places_inv_step unique_inv_step held_inv_step by blast
qed

section \<open>Properties\<close>

text \<open>
  C13: racing dials leak no connection and hand out no closed one. Every client ever dialled is
  cached, or about to be stored by one goroutine, or has been closed exactly once; and as long as
  \<open>Close\<close> has not run, all goroutines that got a client for a chain got the cached one, which is open.
\<close>

theorem clients_accounted:
  assumes "cp.reach ch s" "c \<in> dialed s"
  shows "closings (shared s) c = (if c \<in> ran (clients (shared s)) \<or> (\<exists>g. cpc s g = Fresh c) then 0 else 1)
    \<and> (\<not> down s \<longrightarrow> (\<forall>g. cpc s g = Got c \<longrightarrow> clients (shared s) (ch g) = Some c \<and> closings (shared s) c = 0))"
proof -
  have inv: "placed s c" "held_inv ch s" using cp.reach_inv [OF assms(1)] by (simp_all add: cache_inv_def places_inv_def)
  then have n: "closings (shared s) c = (if c \<in> ran (clients (shared s)) \<or> (\<exists>g. cpc s g = Fresh c) then 0 else 1)"
    using assms(2) by (simp add: placed_def cached_def racing_def)
  have "clients (shared s) (ch g) = Some c \<and> closings (shared s) c = 0" if "\<not> down s" "cpc s g = Got c" for g
    using n inv(2) that by (auto simp: held_inv_def intro: ranI)
  with n show ?thesis by blast
qed

text \<open>
  A call of \<open>Client\<close> that nobody disturbs is such a run, provided the client dialled is new. So the
  steps are those of the code.
\<close>

lemma Client_steps:
  assumes "Client d (ch g) (shared s) = (Inr c, w)" "cpc s g = Asking"
    and "clients (shared s) (ch g) = None \<Longrightarrow> c \<notin> dialed s"
  shows "\<exists>t. (client_step ch)\<^sup>*\<^sup>* s t \<and> shared t = w \<and> cpc t g = Got c"
proof (cases "clients (shared s) (ch g)")
  case (Some c0)
  then have "c = c0" "w = shared s" using assms(1) by (simp_all add: Client_def)
  have "client_step ch s (s\<lparr>cpc := (cpc s)(g := Got c0)\<rparr>)" by (rule client_step.hit) (use assms(2) Some in simp_all)
  then show ?thesis using \<open>c = c0\<close> \<open>w = shared s\<close>
    by (intro exI [of _ "s\<lparr>cpc := (cpc s)(g := Got c0)\<rparr>"]) auto
next
  case None
  then obtain url where u: "RPCURL (registry d) (ch g) = Inr url" "x_Dial (d_ext d) (trace (shared s)) url = Inr c"
    "w = (shared s)\<lparr>trace := trace (shared s) @ [EvDial url (Inr c)], clients := (clients (shared s))(ch g \<mapsto> c)\<rparr>"
    using assms(1) by (auto simp: Client_def storeClient_def io_simps split: sum.splits)
  let ?s1 = "s\<lparr>cpc := (cpc s)(g := Missed)\<rparr>"
  let ?w = "(shared ?s1)\<lparr>trace := trace (shared ?s1) @ [EvDial url (Inr c)]\<rparr>"
  let ?s2 = "?s1\<lparr>shared := ?w, cpc := (cpc ?s1)(g := Fresh c), dialed := insert c (dialed ?s1)\<rparr>"
  let ?s3 = "?s2\<lparr>shared := w, cpc := (cpc ?s2)(g := Got c)\<rparr>"
  have "client_step ch s ?s1" by (rule client_step.miss) (use assms(2) None in simp_all)
  moreover have "client_step ch ?s1 ?s2" by (rule client_step.dial) (use assms(3) None in simp_all)
  moreover have "client_step ch ?s2 ?s3"
    by (rule client_step.store) (use None u(3) in \<open>simp_all add: storeClient_def\<close>)
  ultimately have "(client_step ch)\<^sup>*\<^sup>* s ?s3" by (meson r_into_rtranclp rtranclp_trans)
  then show ?thesis by (intro exI [of _ ?s3]) simp
qed

text \<open>Two goroutines that miss and dial the same chain: the second one's client is closed.\<close>

theorem clients_accounted_witness:
  "\<exists>s. cp.reach (\<lambda>_. 1) s \<and> cpc s 0 = Got 5 \<and> cpc s 1 = Got 5 \<and> 6 \<in> dialed s
     \<and> closings (shared s) 5 = 0 \<and> closings (shared s) 6 = 1"
proof -
  let ?ch = "\<lambda>_::nat. 1 :: int64"
  define s0 where "s0 = \<lparr>shared = init_world, cpc = (\<lambda>_. Asking), dialed = {}, down = False\<rparr>"
  define s1 where "s1 = s0\<lparr>cpc := (cpc s0)(0 := Missed)\<rparr>"
  define s2 where "s2 = s1\<lparr>cpc := (cpc s1)(1 := Missed)\<rparr>"
  define w3 where "w3 = (shared s2)\<lparr>trace := trace (shared s2) @ [EvDial [] (Inr 5)]\<rparr>"
  define s3 where "s3 = s2\<lparr>shared := w3, cpc := (cpc s2)(0 := Fresh 5), dialed := insert 5 (dialed s2)\<rparr>"
  define w4 where "w4 = (shared s3)\<lparr>trace := trace (shared s3) @ [EvDial [] (Inr 6)]\<rparr>"
  define s4 where "s4 = s3\<lparr>shared := w4, cpc := (cpc s3)(1 := Fresh 6), dialed := insert 6 (dialed s3)\<rparr>"
  define w5 where "w5 = (shared s4)\<lparr>clients := [1 \<mapsto> 5]\<rparr>"
  define s5 where "s5 = s4\<lparr>shared := w5, cpc := (cpc s4)(0 := Got 5)\<rparr>"
  define w6 where "w6 = (shared s5)\<lparr>trace := trace (shared s5) @ [EvCloseClient 6]\<rparr>"
  define s6 where "s6 = s5\<lparr>shared := w6, cpc := (cpc s5)(1 := Got 5)\<rparr>"
  note defs = s0_def s1_def s2_def w3_def s3_def w4_def s4_def w5_def s5_def w6_def s6_def
  have "cp.reach ?ch s0" by (rule cp.reach_init) (simp add: s0_def client_init_def)
  then have "cp.reach ?ch s1" by (rule cp.reach_step) (unfold s1_def, rule client_step.miss, simp_all add: s0_def init_world_def)
  then have "cp.reach ?ch s2" by (rule cp.reach_step) (unfold s2_def, rule client_step.miss, simp_all add: s1_def s0_def init_world_def)
  then have "cp.reach ?ch s3" by (rule cp.reach_step) (unfold s3_def, rule client_step.dial, simp_all add: defs)
  then have "cp.reach ?ch s4" by (rule cp.reach_step) (unfold s4_def, rule client_step.dial, simp_all add: defs)
  then have "cp.reach ?ch s5"
    by (rule cp.reach_step) (unfold s5_def, rule client_step.store, simp_all add: defs storeClient_def init_world_def)
  then have r: "cp.reach ?ch s6"
    by (rule cp.reach_step) (unfold s6_def, rule client_step.store, simp_all add: defs storeClient_def init_world_def io_simps)
  have f: "cpc s6 0 = Got 5" "cpc s6 1 = Got 5" "dialed s6 = {5, 6}" "clients (shared s6) = [1 \<mapsto> 5]" "\<And>g. cpc s6 g \<noteq> Fresh 6" "\<not> down s6"
    by (auto simp: defs)
  have "closings (shared s6) 5 = 0" using clients_accounted [OF r, of 5] f by auto
  moreover have "closings (shared s6) 6 = 1" using clients_accounted [OF r, of 6] f by auto
  ultimately show ?thesis using r f by (intro exI [of _ s6]) simp
qed

end
