(* ===== verification/Batcher.thy ===== *)
theory Batcher
  imports Core
begin

text \<open>
  \<open>internal/userop/batcher.go\<close>: collecting user operations into batches, choosing a wallet and
  submitting a batch as one \<open>handleOps\<close> transaction, with individual retries. The functions
  follow one batch; the goroutines of a chain's queue are the subject of \<open>Batch_Protocol\<close>.
\<close>

section \<open>Operations\<close>

definition maxBatchSize :: nat where "maxBatchSize = 50"

text \<open>A result is the transaction hash with the error, if any.\<close>

type_synonym opResult = "txhash \<times> go_error option"

text \<open>The type of \<open>Batcher.submit\<close>.\<close>

type_synonym submitFunc = "int64 \<Rightarrow> Account \<Rightarrow> PackedUserOp list \<Rightarrow> opResult wio"

text \<open>The ABI tuple of an operation.\<close>

definition packOp :: "PackedUserOp \<Rightarrow> abival" where
  "packOp p = VTuple [VAddress (op_Sender p), VUint (op_Nonce p), VBytes (op_InitCode p),
     VBytes (op_CallData p), VUint (op_CallGasLimit p), VUint (op_VerificationGasLimit p),
     VUint (op_PreVerificationGas p), VUint (op_MaxFeePerGas p), VUint (op_MaxPriorityFeePerGas p),
     VBytes (op_PaymasterAndData p), VBytes (op_Signature p)]"

definition onchainSubmit :: "deps \<Rightarrow> submitFunc" where
  "onchainSubmit d chainID wallet ops =
     bindI (Client d chainID) (\<lambda>cl. case cl of Inl e \<Rightarrow> ret ([], Some e) | Inr c \<Rightarrow>
     (case EntryPoint (registry d) of Inl e \<Rightarrow> ret ([], Some e) | Inr epAddr \<Rightarrow>
     bindI (extcall (\<lambda>t. x_PendingNonceAt (d_ext d) t c (addr wallet)) (EvPendingNonceAt c (addr wallet)))
       (\<lambda>n. case n of Inl e \<Rightarrow> ret ([], Some e) | Inr nonce \<Rightarrow>
     (case Transactor (d_geth d) wallet chainID of Inl e \<Rightarrow> ret ([], Some e) | Inr opts \<Rightarrow>
     let opts = opts\<lparr>opts_Nonce := nonce\<rparr>;
         ep = common_HexToAddress (d_geth d) epAddr;
         args = [VList (map packOp ops), VAddress 0]
     in bindI (extcall (\<lambda>t. x_Transact (d_ext d) t c opts ep ''handleOps'' args)
                 (EvTransact c opts ep ''handleOps'' args))
       (\<lambda>r. case r of Inl e \<Rightarrow> ret ([], Some e) | Inr h \<Rightarrow>
     bindI (extcall (\<lambda>t. x_WaitMined (d_ext d) t c h) (EvWaitMined c h))
       (\<lambda>m. case m of
          Inl e \<Rightarrow> ret (h, Some (ErrWrap (''tx.wait (txHash '' @ h @ ''): '') e))
        | Inr _ \<Rightarrow> ret (h, None)))))))"

definition sendUnderLock :: "deps \<Rightarrow> submitFunc \<Rightarrow> int64 \<Rightarrow> Account \<Rightarrow> PackedUserOp list \<Rightarrow> opResult wio" where
  "sendUnderLock d submit chainID wallet ops =
     WithNonceLock d (NonceLockKey chainID (address_Hex (d_geth d) (addr wallet))) [] (submit chainID wallet ops)"

text \<open>The loop of individual retries.\<close>

fun retryEach :: "deps \<Rightarrow> submitFunc \<Rightarrow> int64 \<Rightarrow> Account \<Rightarrow> PackedUserOp list \<Rightarrow> opResult list wio" where
  "retryEach d submit chainID wallet [] = ret []"
| "retryEach d submit chainID wallet (q # batch) =
     bindI (sendUnderLock d submit chainID wallet [q]) (\<lambda>r.
     bindI (retryEach d submit chainID wallet batch) (\<lambda>rs. ret (r # rs)))"

text \<open>
  The results sent to the channels of the batch, in batch order. The dispatcher never flushes
  an empty batch.
\<close>

definition flush :: "deps \<Rightarrow> submitFunc \<Rightarrow> int64 \<Rightarrow> Account \<Rightarrow> PackedUserOp list \<Rightarrow> opResult list wio" where
  "flush d submit chainID wallet batch =
     bindI (sendUnderLock d submit chainID wallet batch) (\<lambda>(txHash, err).
       case err of
         None \<Rightarrow> ret (map (\<lambda>_. (txHash, None)) batch)
       | Some e \<Rightarrow>
           if 1 < length batch then retryEach d submit chainID wallet batch
           else ret (map (\<lambda>_. ([], Some e)) batch))"

definition nextIndex :: "deps \<Rightarrow> string \<Rightarrow> nat \<Rightarrow> int wio" where
  "nextIndex d cursorKey n =
     bindI (NextIndex d cursorKey n) (\<lambda>r. case r of Inl _ \<Rightarrow> ret 0 | Inr idx \<Rightarrow> ret idx)"

text \<open>The greedy collection of a batch from what the channel holds.\<close>

function drain :: "'q list \<Rightarrow> 'q list \<Rightarrow> 'q list \<times> 'q list" where
  "drain batch ch =
     (if length batch < maxBatchSize then
        (case ch of q # ch' \<Rightarrow> drain (batch @ [q]) ch' | [] \<Rightarrow> (batch, []))
      else (batch, ch))"
  by pat_completeness auto
termination by (relation "measure (\<lambda>(b, c). length c)") auto

declare drain.simps [simp del]

definition queueFor :: "deps \<Rightarrow> int64 \<Rightarrow> Account list weio" where
  "queueFor d chainID = (\<lambda>w.
     case chains w chainID of
       Some pool \<Rightarrow> (Inr pool, w)
     | None \<Rightarrow>
         bindE (BundlerPool d chainID)
           (\<lambda>pool w'. (Inr pool, w'\<lparr>chains := (chains w')(chainID \<mapsto> pool)\<rparr>)) w)"

text \<open>
  One round of the dispatcher on a collected batch. An index out of range, which \<open>NextIndex\<close>
  never gives, would panic.
\<close>

definition dispatchBatch :: "deps \<Rightarrow> submitFunc \<Rightarrow> int64 \<Rightarrow> Account list \<Rightarrow> PackedUserOp list \<Rightarrow> opResult list wio" where
  "dispatchBatch d submit chainID pool batch =
     bindI (nextIndex d (FormatInt chainID) (length pool)) (\<lambda>i.
       case walletAt pool i of
         Inl e \<Rightarrow> ret (map (\<lambda>_. ([], Some e)) batch)
       | Inr wallet \<Rightarrow> flush d submit chainID wallet batch)"

text \<open>The work of a flush goroutine that no request waits for.\<close>

definition detach :: "flush_task \<Rightarrow> unit wio" where
  "detach t = (\<lambda>w. ((), w\<lparr>detached := detached w @ [t]\<rparr>))"

lemma detach_run [io_simps]: "detach t w = ((), w\<lparr>detached := detached w @ [t]\<rparr>)"
  by (simp add: detach_def)

fun run_task :: "deps \<Rightarrow> submitFunc \<Rightarrow> flush_task \<Rightarrow> opResult list wio" where
  "run_task d submit (Round chainID pool batch) = dispatchBatch d submit chainID pool batch"
| "run_task d submit (Retries chainID wallet batch) = retryEach d submit chainID wallet batch"

text \<open>
  \<open>flush\<close> as the caller of operation \<open>i\<close> of the batch sees it: it goes on as soon as its own
  operation has a result, and the retries of the operations behind it are left to the goroutine.
\<close>

definition flushUntil ::
  "deps \<Rightarrow> submitFunc \<Rightarrow> int64 \<Rightarrow> Account \<Rightarrow> PackedUserOp list \<Rightarrow> nat \<Rightarrow> opResult wio" where
  "flushUntil d submit chainID wallet batch i =
     bindI (sendUnderLock d submit chainID wallet batch) (\<lambda>(txHash, err).
       case err of
         None \<Rightarrow> ret (txHash, None)
       | Some e \<Rightarrow>
           if 1 < length batch then
             bindI (retryEach d submit chainID wallet (take (Suc i) batch)) (\<lambda>results.
             bindI (detach (Retries chainID wallet (drop (Suc i) batch))) (\<lambda>_. ret (results ! i)))
           else ret ([], Some e))"

text \<open>
  \<open>Enqueue\<close> as its caller sees it: the operation goes into the channel unless the context ends
  first, the dispatcher drains it into a batch together with operations of other callers, and
  the caller waits for its result or for the end of its context. Which of the two comes first is
  asked when the batch is complete: if it is the context, the batch is submitted all the same, in
  a goroutine that the caller leaves behind.
\<close>

definition Enqueue :: "deps \<Rightarrow> submitFunc \<Rightarrow> int64 \<Rightarrow> PackedUserOp \<Rightarrow> opResult wio" where
  "Enqueue d submit chainID p =
     bindI (queueFor d chainID) (\<lambda>cq. case cq of Inl e \<Rightarrow> ret ([], Some e) | Inr pool \<Rightarrow>
     bindI (extcall (x_CtxWait (d_ext d)) EvCtxWait) (\<lambda>done. case done of Some e \<Rightarrow> ret ([], Some e) | None \<Rightarrow>
     bindI (extcall (\<lambda>t. x_Batchmates (d_ext d) t chainID) (EvBatchmates chainID)) (\<lambda>(ahead, behind).
     let ahead = take (maxBatchSize - 1) ahead;
         batch = fst (drain (ahead @ [p]) behind)
     in bindI (extcall (x_CtxWait (d_ext d)) EvCtxWait) (\<lambda>done. case done of
          Some e \<Rightarrow> bindI (detach (Round chainID pool batch)) (\<lambda>_. ret ([], Some e))
        | None \<Rightarrow>
            bindI (nextIndex d (FormatInt chainID) (length pool)) (\<lambda>i.
              case walletAt pool i of
                Inl e \<Rightarrow> ret ([], Some e)
              | Inr wallet \<Rightarrow> flushUntil d submit chainID wallet batch (length ahead))))))"

section \<open>Draining\<close>

lemma drain_eq: "drain b c = (b @ take (maxBatchSize - length b) c, drop (maxBatchSize - length b) c)"
proof (induction b c rule: drain.induct)
  case (1 b c)
  show ?case
  proof (cases "length b < maxBatchSize")
    case True
    show ?thesis
    proof (cases c)
      case Nil
      then show ?thesis by (subst drain.simps) simp
    next
      case (Cons q c')
      from True obtain k where k: "maxBatchSize - length b = Suc k" "maxBatchSize - Suc (length b) = k"
        by (metis Suc_diff_Suc)
      with 1 [OF True Cons] Cons True show ?thesis by (subst drain.simps) simp
    qed
  qed (subst drain.simps, simp)
qed

section \<open>The queue cache\<close>

lemma queueFor_miss:
  assumes "queueFor d ch w = (r, w')" "chains w ch = None"
  obtains r1 w1 where "BundlerPool d ch w = (r1, w1)"
    "r = r1" "w' = (case r1 of Inr p \<Rightarrow> w1\<lparr>chains := (chains w1)(ch \<mapsto> p)\<rparr> | Inl _ \<Rightarrow> w1)"
proof -
  obtain r1 w1 where b: "BundlerPool d ch w = (r1, w1)" by fastforce
  with assms have "r = r1" "w' = (case r1 of Inr p \<Rightarrow> w1\<lparr>chains := (chains w1)(ch \<mapsto> p)\<rparr> | Inl _ \<Rightarrow> w1)"
    by (auto simp: queueFor_def bindE_def split: sum.splits)
  with that b show thesis by blast
qed

lemma BundlerPool_frame:
  assumes "BundlerPool d ch w = (r, w')"
  shows "chains w' = chains w \<and> clients w' = clients w"
proof (cases "pools w ch")
  case None
  with assms show ?thesis by (auto elim!: BundlerPool_cases)
qed (use assms in \<open>simp add: BundlerPool_def\<close>)

interpretation bq: lazy_cache "\<lambda>w. chains w ch" "queueFor d ch" for d ch
proof
  fix w v w' e
  show "queueFor d ch w = (Inr v, w)" if "chains w ch = Some v"
    using that by (simp add: queueFor_def)
  show "chains w' ch = Some v" if r: "queueFor d ch w = (Inr v, w')"
  proof (cases "chains w ch")
    case None
    with r show ?thesis by (auto elim!: queueFor_miss)
  qed (use r in \<open>simp add: queueFor_def\<close>)
  show "chains w ch = None \<and> chains w' ch = None" if r: "queueFor d ch w = (Inl e, w')"
  proof (cases "chains w ch")
    case None
    with r show ?thesis by (auto elim!: queueFor_miss dest: BundlerPool_frame)
  qed (use r in \<open>simp add: queueFor_def\<close>)
qed

section \<open>Submission of a batch\<close>

text \<open>The \<open>handleOps\<close> transaction of a bundle of operations.\<close>

fun handles :: "PackedUserOp list \<Rightarrow> event \<Rightarrow> bool" where
  "handles ops (EvTransact c opts ep m args r) \<longleftrightarrow> m = ''handleOps'' \<and> args = [VList (map packOp ops), VAddress 0]"
| "handles ops e \<longleftrightarrow> False"

lemma onchainSubmit_appends:
  "appends (\<lambda>e. \<not> mutex_event e \<and> (submission e \<longrightarrow> handles ops e)) (onchainSubmit d ch wl ops)"
proof -
  let ?Q = "\<lambda>e. \<not> mutex_event e \<and> (submission e \<longrightarrow> handles ops e)"
  have c: "appends ?Q (Client d ch)"
    by (rule appendsI) (auto elim!: Client_trace intro!: list.pred_mono_strong dest!: dial_event_plain)
  show ?thesis
    unfolding onchainSubmit_def Let_def
    by (intro appends_bindI [OF c]; split sum.split; intro conjI allI impI appends_basic)
       (auto intro!: appends_bindI appends_extcall split: sum.split)
qed

lemma onchainSubmit_fresh: "fresh_section (addr wl) (onchainSubmit d ch wl ops)"
proof (rule fresh_sectionI)
  fix w x w' assume r: "onchainSubmit d ch wl ops w = (x, w')"
  obtain cr w1 where cl: "Client d ch w = (cr, w1)" by fastforce
  from Client_trace [OF cl] obtain dial where dial: "trace w1 = trace w @ dial" "list_all dial_event dial" by blast
  have "\<exists>es. trace w' = trace w1 @ es \<and> list_all (\<lambda>e. \<not> mutex_event e) es \<and> nonce_ok (addr wl) None es"
    using r cl by (auto simp: onchainSubmit_def io_simps Let_def split: sum.splits)
  then obtain es where es: "trace w' = trace w1 @ es" "list_all (\<lambda>e. \<not> mutex_event e) es"
    "nonce_ok (addr wl) None es" by blast
  have "list_all (\<lambda>e. \<not> mutex_event e) dial" "nonce_ok (addr wl) None dial"
    using dial_plain [OF dial(2)] serialized_plain [OF dial_plain [OF dial(2)], of undefined "addr wl"]
    by (auto simp: list_all_iff serialized_def)
  with dial(1) es show "\<exists>es. trace w' = trace w @ es \<and> list_all (\<lambda>e. \<not> mutex_event e) es \<and> nonce_ok (addr wl) None es"
    by (intro exI [of _ "dial @ es"]) (auto intro: nonce_ok_append)
qed

abbreviation walletKey :: "deps \<Rightarrow> int64 \<Rightarrow> Account \<Rightarrow> string" where
  "walletKey d ch wl \<equiv> NonceLockKey ch (address_Hex (d_geth d) (addr wl))"

lemma sendUnderLock_serializes:
  "serializes (walletKey d ch wl) (addr wl) (sendUnderLock d (onchainSubmit d) ch wl ops)"
  unfolding sendUnderLock_def by (rule WithNonceLock_serializes) (rule onchainSubmit_fresh)

lemma retryEach_serializes:
  "serializes (walletKey d ch wl) (addr wl) (retryEach d (onchainSubmit d) ch wl ops)"
  by (induction ops) (auto intro!: serializes_bindI sendUnderLock_serializes)

text \<open>
  The submissions of a batch, the first attempt and all individual retries, are
  serialised by the wallet's nonce lock: each is made while the lock is held, with the pending
  nonce read just before in the same critical section, whatever the node and redis answer.
\<close>

theorem flush_serialized:
  "serializes (walletKey d ch wl) (addr wl) (flush d (onchainSubmit d) ch wl batch)"
  unfolding flush_def
  by (intro serializes_bindI sendUnderLock_serializes) (auto split: option.split intro: retryEach_serializes)

lemma lock_noise_handles: "lock_noise e \<Longrightarrow> submission e \<longrightarrow> handles ops e"
  using lock_noise_plain by blast

lemma sendUnderLock_appends:
  "appends (\<lambda>e. submission e \<longrightarrow> handles ops e) (sendUnderLock d (onchainSubmit d) ch wl ops)"
  unfolding sendUnderLock_def
  by (rule wl.withLock_appends)
     (use appends_mono [OF onchainSubmit_appends] lock_noise_handles in auto)

lemma retryEach_appends:
  "appends (\<lambda>e. submission e \<longrightarrow> (\<exists>q \<in> set ops. handles [q] e)) (retryEach d (onchainSubmit d) ch wl ops)"
proof (induction ops)
  case (Cons q ops)
  have 1: "appends (\<lambda>e. submission e \<longrightarrow> (\<exists>q' \<in> set (q # ops). handles [q'] e)) (sendUnderLock d (onchainSubmit d) ch wl [q])"
    by (rule appends_mono [OF sendUnderLock_appends]) auto
  have 2: "appends (\<lambda>e. submission e \<longrightarrow> (\<exists>q' \<in> set (q # ops). handles [q'] e)) (retryEach d (onchainSubmit d) ch wl ops)"
    by (rule appends_mono [OF Cons]) auto
  show ?case unfolding retryEach.simps by (intro appends_bindI 1 2 appends_basic)
qed simp

lemma flush_appends:
  "appends (\<lambda>e. submission e \<longrightarrow> handles batch e \<or> (\<exists>q \<in> set batch. handles [q] e))
     (flush d (onchainSubmit d) ch wl batch)"
proof -
  let ?Q = "\<lambda>e. submission e \<longrightarrow> handles batch e \<or> (\<exists>q \<in> set batch. handles [q] e)"
  have "appends ?Q (sendUnderLock d (onchainSubmit d) ch wl batch)"
    by (rule appends_mono [OF sendUnderLock_appends]) auto
  moreover have "appends ?Q (retryEach d (onchainSubmit d) ch wl batch)"
    by (rule appends_mono [OF retryEach_appends]) auto
  ultimately show ?thesis unfolding flush_def by (intro appends_bindI) (auto split: option.split)
qed

lemma retryEach_length: "retryEach d sub ch wl b w = (rs, w') \<Longrightarrow> length rs = length b"
  by (induction b arbitrary: w rs) (auto simp: io_simps split: prod.splits)

lemma flush_cases:
  assumes "flush d sub ch wl b w = (rs, w')"
  obtains (together) h where "sendUnderLock d sub ch wl b w = ((h, None), w')" "rs = map (\<lambda>_. (h, None)) b"
  | (singly) h e w1 where "sendUnderLock d sub ch wl b w = ((h, Some e), w1)" "1 < length b"
      "retryEach d sub ch wl b w1 = (rs, w')"
  | (failed) h e where "sendUnderLock d sub ch wl b w = ((h, Some e), w')" "length b \<le> 1"
      "rs = map (\<lambda>_. ([], Some e)) b"
proof -
  obtain h err w1 where s: "sendUnderLock d sub ch wl b w = ((h, err), w1)" by (metis surj_pair)
  with assms that show thesis
    by (cases err) (auto simp: flush_def io_simps split: if_splits)
qed

text \<open>
  C26: \<open>flush\<close> answers every operation of the batch exactly once and submits nothing else: it
  returns one result per operation, in order, and each transaction it sends is the
  \<open>handleOps\<close> of the whole batch or of one operation of the batch.
\<close>

theorem flush_answers:
  assumes "flush d (onchainSubmit d) ch wl batch w = (results, w')"
  shows "length results = length batch
    \<and> (\<forall>e \<in> set (new_events w w'). submission e \<longrightarrow> handles batch e \<or> (\<exists>q \<in> set batch. handles [q] e))"
proof
  from assms show "length results = length batch"
    by (cases rule: flush_cases) (auto dest: retryEach_length)
  obtain es where "trace w' = trace w @ es"
    "list_all (\<lambda>e. submission e \<longrightarrow> handles batch e \<or> (\<exists>q \<in> set batch. handles [q] e)) es"
    using appendsE [OF flush_appends assms] .
  then show "\<forall>e \<in> set (new_events w w'). submission e \<longrightarrow> handles batch e \<or> (\<exists>q \<in> set batch. handles [q] e)"
    by (simp add: new_events_append list_all_iff)
qed

text \<open>A configured service on a connected node, and an operation.\<close>

definition demo_service :: "ext \<Rightarrow> deps" where
  "demo_service x = (demo_deps x False)\<lparr>d_getenv := \<lambda>_. ''x''\<rparr>"

definition demo_world :: world where
  "demo_world = init_world\<lparr>clients := [1 \<mapsto> 5]\<rparr>"

definition demo_op :: "int \<Rightarrow> PackedUserOp" where
  "demo_op n = \<lparr>op_Sender = 9, op_Nonce = n, op_InitCode = [], op_CallData = [], op_CallGasLimit = 0,
     op_VerificationGasLimit = 0, op_PreVerificationGas = 0, op_MaxFeePerGas = 0,
     op_MaxPriorityFeePerGas = 0, op_PaymasterAndData = [], op_Signature = []\<rparr>"

lemma TrimSpace_x [simp]: "TrimSpace ''x'' = ''x''"
  by (rule TrimSpace_visible) (simp add: visible_def)

lemma onchainSubmit_demo:
  assumes "clients w 1 = Some 5"
  shows "onchainSubmit (demo_service x) 1 wl ops w =
    (case x_PendingNonceAt x (trace w) 5 (addr wl) of
       Inl e \<Rightarrow> (([], Some e), w\<lparr>trace := trace w @ [EvPendingNonceAt 5 (addr wl) (Inl e)]\<rparr>)
     | Inr n \<Rightarrow>
        (let opts = \<lparr>opts_From = of_nat (priv wl), opts_ChainID = 1, opts_Nonce = n, opts_Value = None\<rparr>;
             args = [VList (map packOp ops), VAddress 0];
             t1 = trace w @ [EvPendingNonceAt 5 (addr wl) (Inr n)];
             r = x_Transact x t1 5 opts 1 ''handleOps'' args;
             t2 = t1 @ [EvTransact 5 opts 1 ''handleOps'' args r]
         in case r of Inl e \<Rightarrow> (([], Some e), w\<lparr>trace := t2\<rparr>)
            | Inr h \<Rightarrow>
                let m = x_WaitMined x t2 5 h; t3 = t2 @ [EvWaitMined 5 h m]
                in (case m of Inl e \<Rightarrow> ((h, Some (ErrWrap (''tx.wait (txHash '' @ h @ ''): '') e)), w\<lparr>trace := t3\<rparr>)
                    | Inr _ \<Rightarrow> ((h, None), w\<lparr>trace := t3\<rparr>))))"
  using assms
  by (simp add: onchainSubmit_def Client_def demo_service_def registry_def NewRegistryWithLookup_def
      EntryPoint_def lookup_def Transactor_def opaque_geth_def io_simps Let_def split: sum.split)

lemma sendUnderLock_demo:
  "sendUnderLock (demo_service x) sub ch wl ops w =
    (let k = walletKey (demo_service x) ch wl;
         (r, u) = sub ch wl ops (w\<lparr>trace := trace w @ [EvLock k]\<rparr>)
     in (r, u\<lparr>trace := trace u @ [EvUnlock k]\<rparr>))"
  by (simp add: sendUnderLock_def WithNonceLock_def demo_service_def io_simps Let_def split: prod.split)

text \<open>
  A node that accepts every transaction but does not show the first one as mined before the
  wait is over.
\<close>

definition slow_ext :: ext where
  "slow_ext = (mining_ext 1)\<lparr>x_WaitMined := \<lambda>t c h.
     if list_ex (\<lambda>e. case e of EvWaitMined _ _ _ \<Rightarrow> True | _ \<Rightarrow> False) t
     then x_WaitMined (mining_ext 1) t c h else Inl (errorsNew ''context deadline exceeded'')\<rparr>"

fun accepted :: "PackedUserOp list \<Rightarrow> event \<Rightarrow> bool" where
  "accepted ops (EvTransact c opts ep m args (Inr h)) \<longleftrightarrow> handles ops (EvTransact c opts ep m args (Inr h))"
| "accepted ops e \<longleftrightarrow> False"

lemma flush_slow:
  "\<exists>rs w'. flush (demo_service slow_ext) (onchainSubmit (demo_service slow_ext)) 1 \<lparr>priv = 1, addr = 1\<rparr>
       [demo_op 0, demo_op 1] demo_world = (rs, w')
     \<and> rs = [(''0xaa'', None), (''0xaa'', None)]
     \<and> (\<exists>e \<in> set (trace w'). accepted [demo_op 0, demo_op 1] e)
     \<and> (\<exists>e \<in> set (trace w'). accepted [demo_op 0] e) \<and> (\<exists>e \<in> set (trace w'). accepted [demo_op 1] e)"
  by (simp add: flush_def bindI_def sendUnderLock_demo onchainSubmit_demo demo_world_def Let_def ret_def
      slow_ext_def mining_ext_def)

theorem flush_answers_witness:
  "\<exists>results w'. flush (demo_service slow_ext) (onchainSubmit (demo_service slow_ext)) 1 \<lparr>priv = 1, addr = 1\<rparr>
       [demo_op 0, demo_op 1] demo_world = (results, w') \<and> length results = 2"
  using flush_slow flush_answers by fastforce

text \<open>
  An operation can be sent twice. When the node accepts the batch but the wait for it to
  be mined fails, the batch counts as failed and every operation is sent again on its own,
  while the first transaction may still be mined.
\<close>

theorem flush_resubmits:
  "\<exists>d ch wl p q w rs w'. flush d (onchainSubmit d) ch wl [p, q] w = (rs, w')
     \<and> (\<exists>e \<in> set (new_events w w'). accepted [p, q] e)
     \<and> (\<exists>e \<in> set (new_events w w'). accepted [p] e) \<and> (\<exists>e \<in> set (new_events w w'). accepted [q] e)"
proof -
  have "new_events demo_world w = trace w" for w by (simp add: new_events_def demo_world_def)
  then show ?thesis using flush_slow by metis
qed

text \<open>
  A bundle that was mined but reverted is reported to the caller as sent: the receipt's
  status is not looked at.
\<close>

theorem onchainSubmit_ignores_status:
  "\<exists>d ch wl ops w h c rc w'. onchainSubmit d ch wl ops w = ((h, None), w')
     \<and> EvWaitMined c h (Inr rc) \<in> set (new_events w w') \<and> rcpt_Status rc = 0"
proof -
  let ?d = "demo_service (mining_ext 0)"
  have "onchainSubmit ?d 1 \<lparr>priv = 1, addr = 1\<rparr> [demo_op 0] demo_world = ((''0xaa'', None), w')
      \<Longrightarrow> ?thesis" for w'
    by (rule exI [of _ ?d])
       (fastforce simp: onchainSubmit_demo demo_world_def mining_ext_def new_events_def Let_def)
  moreover have "\<exists>w'. onchainSubmit ?d 1 \<lparr>priv = 1, addr = 1\<rparr> [demo_op 0] demo_world = ((''0xaa'', None), w')"
    by (simp add: onchainSubmit_demo demo_world_def mining_ext_def Let_def)
  ultimately show ?thesis by blast
qed

section \<open>From the caller's side\<close>

text \<open>\<open>mined_in es ops h\<close>: in \<open>es\<close> the bundle \<open>ops\<close> was accepted as transaction \<open>h\<close> and seen mined.\<close>

definition mined_in :: "trace \<Rightarrow> PackedUserOp list \<Rightarrow> txhash \<Rightarrow> bool" where
  "mined_in es ops h \<longleftrightarrow> (\<exists>c opts ep rc.
     EvTransact c opts ep ''handleOps'' [VList (map packOp ops), VAddress 0] (Inr h) \<in> set es
     \<and> EvWaitMined c h (Inr rc) \<in> set es)"

lemma mined_in_mono: "mined_in es ops h \<Longrightarrow> set es \<subseteq> set fs \<Longrightarrow> mined_in fs ops h"
  unfolding mined_in_def by blast

lemma mined_in_appendI:
  "mined_in es ops h \<Longrightarrow> mined_in (es @ fs) ops h" "mined_in fs ops h \<Longrightarrow> mined_in (es @ fs) ops h"
  by (auto elim: mined_in_mono)

lemma onchainSubmit_mined:
  assumes "onchainSubmit d ch wl ops w = ((h, None), w')"
  shows "\<exists>es. trace w' = trace w @ es \<and> mined_in es ops h"
proof -
  obtain cr w1 where cl: "Client d ch w = (cr, w1)" by fastforce
  from Client_trace [OF cl] obtain dial where dial: "trace w1 = trace w @ dial" by blast
  from assms cl obtain es where "trace w' = trace w1 @ es" "mined_in es ops h"
    by (auto simp: onchainSubmit_def io_simps Let_def mined_in_def split: sum.splits)
  with dial show ?thesis by (intro exI [of _ "dial @ es"]) (auto intro: mined_in_mono)
qed

lemma sendUnderLock_mined:
  assumes "sendUnderLock d (onchainSubmit d) ch wl ops w = ((h, None), w')"
  shows "\<exists>es. trace w' = trace w @ es \<and> mined_in es ops h"
proof -
  let ?k = "walletKey d ch wl"
  from wl.success_ran [OF assms [unfolded sendUnderLock_def]] obtain pre post w2 where
    f: "onchainSubmit d ch wl ops (w\<lparr>trace := trace w @ EvLock ?k # pre\<rparr>) = ((h, None), w2)"
    and w': "w' = w2\<lparr>trace := trace w2 @ post @ [EvUnlock ?k]\<rparr>" by blast
  from onchainSubmit_mined [OF f] obtain es where
    "trace w2 = trace w @ EvLock ?k # pre @ es" "mined_in es ops h" by auto
  with w' show ?thesis
    by (intro exI [of _ "EvLock ?k # pre @ es @ post @ [EvUnlock ?k]"]) (auto elim!: mined_in_mono)
qed

lemma sendUnderLock_trace: "\<exists>es. trace (snd (sendUnderLock d (onchainSubmit d) ch wl ops w)) = trace w @ es"
  using sendUnderLock_appends unfolding appends_def by blast

lemma retryEach_mined:
  "retryEach d (onchainSubmit d) ch wl b w = (rs, w') \<Longrightarrow>
     \<exists>es. trace w' = trace w @ es \<and> (\<forall>i h. i < length b \<longrightarrow> rs ! i = (h, None) \<longrightarrow> mined_in es [b ! i] h)"
proof (induction b arbitrary: w rs w')
  case Nil
  then show ?case by (simp add: ret_def)
next
  case (Cons q b)
  obtain r w1 where s: "sendUnderLock d (onchainSubmit d) ch wl [q] w = (r, w1)" by fastforce
  obtain rs' w2 where t: "retryEach d (onchainSubmit d) ch wl b w1 = (rs', w2)" by fastforce
  from Cons.prems s t have rs: "rs = r # rs'" "w' = w2" by (auto simp: io_simps)
  from Cons.IH [OF t] obtain fs where fs: "trace w' = trace w1 @ fs"
    "\<And>i h. i < length b \<Longrightarrow> rs' ! i = (h, None) \<Longrightarrow> mined_in fs [b ! i] h" using rs by blast
  obtain es where es: "trace w1 = trace w @ es" "\<And>h. r = (h, None) \<Longrightarrow> mined_in es [q] h"
    using sendUnderLock_mined [of d ch wl "[q]" w _ w1] sendUnderLock_trace [of d ch wl "[q]" w] s
    by (metis append_same_eq prod.inject snd_conv same_append_eq)
  have "mined_in (es @ fs) [(q # b) ! i] h" if "i < length (q # b)" "rs ! i = (h, None)" for i h
    using that rs es(2) fs(2) by (cases i) (auto intro: mined_in_appendI)
  with es(1) fs(1) show ?case by (intro exI [of _ "es @ fs"]) simp
qed

lemma flush_mined:
  assumes "flush d (onchainSubmit d) ch wl b w = (rs, w')"
  shows "\<exists>es. trace w' = trace w @ es \<and> length rs = length b \<and> (\<forall>i h. i < length b \<longrightarrow> rs ! i = (h, None) \<longrightarrow>
     (\<exists>ops. (ops = b \<or> ops = [b ! i]) \<and> mined_in es ops h))"
  using assms
proof (cases rule: flush_cases)
  case (together h)
  from sendUnderLock_mined [OF together(1)] together(2) show ?thesis by auto
next
  case (singly h e w1)
  obtain es where es: "trace w1 = trace w @ es"
    using sendUnderLock_trace [of d ch wl b w] singly(1) by auto
  from retryEach_mined [OF singly(3)] obtain fs where fs: "trace w' = trace w1 @ fs"
    "\<And>i h. i < length b \<Longrightarrow> rs ! i = (h, None) \<Longrightarrow> mined_in fs [b ! i] h" by blast
  have "mined_in (es @ fs) [b ! i] h" if "i < length b" "rs ! i = (h, None)" for i h
    using fs(2) [OF that] by (rule mined_in_mono) simp
  with es fs(1) retryEach_length [OF singly(3)] show ?thesis
    by (intro exI [of _ "es @ fs"]) auto
next
  case (failed h e)
  then show ?thesis using sendUnderLock_trace [of d ch wl b w] by auto
qed

lemma queueFor_trace:
  assumes "queueFor d ch w = (r, w')"
  shows "\<exists>es. trace w' = trace w @ es"
proof -
  have "\<exists>es. trace v' = trace v @ es" if "BundlerPool d ch v = (q, v')" for v q v'
  proof (cases "pools v ch")
    case None
    with that show ?thesis by (auto elim!: BundlerPool_cases)
  qed (use that in \<open>simp add: BundlerPool_def\<close>)
  then show ?thesis using assms
    by (cases "chains w ch") (auto elim!: queueFor_miss simp: queueFor_def bindE_def split: sum.splits prod.splits)
qed

lemma nextIndex_trace: "\<exists>es. trace (snd (nextIndex d k n w)) = trace w @ es"
  by (auto simp: nextIndex_def NextIndex_def nextIndexLocal_def wrapE_def io_simps Let_def split: sum.splits)

lemma flushUntil_mined:
  assumes "flushUntil d (onchainSubmit d) ch wl b i w = ((h, None), w')" "i < length b"
  shows "\<exists>es ops. trace w' = trace w @ es \<and> (ops = b \<or> ops = [b ! i]) \<and> mined_in es ops h"
proof -
  obtain h1 err w1 where s: "sendUnderLock d (onchainSubmit d) ch wl b w = ((h1, err), w1)" by (metis surj_pair)
  show ?thesis
  proof (cases err)
    case None
    with assms(1) s have "sendUnderLock d (onchainSubmit d) ch wl b w = ((h, None), w')" by (simp add: flushUntil_def io_simps)
    from sendUnderLock_mined [OF this] show ?thesis by blast
  next
    case (Some e)
    obtain rs w2 where t: "retryEach d (onchainSubmit d) ch wl (take (Suc i) b) w1 = (rs, w2)" by fastforce
    with assms(1) s Some have r: "rs ! i = (h, None)" "trace w' = trace w2"
      by (auto simp: flushUntil_def io_simps detach_def split: if_splits)
    obtain es where es: "trace w1 = trace w @ es" using sendUnderLock_trace [of d ch wl b w] s by auto
    from retryEach_mined [OF t] r(1) assms(2) obtain fs where fs: "trace w2 = trace w1 @ fs"
      "mined_in fs [take (Suc i) b ! i] h" by fastforce
    have "mined_in (es @ fs) [b ! i] h" using fs(2) assms(2) by (auto elim!: mined_in_mono)
    with es fs(1) r(2) show ?thesis by (intro exI [of _ "es @ fs"] exI [of _ "[b ! i]"]) simp
  qed
qed

text \<open>What the caller leaves behind is the rest of the flush: done at once, both make up \<open>flush\<close>.\<close>

lemma retryEach_append:
  "retryEach d sub ch wl (xs @ ys) =
     bindI (retryEach d sub ch wl xs) (\<lambda>rs. bindI (retryEach d sub ch wl ys) (\<lambda>rs'. ret (rs @ rs')))"
  by (induction xs) (auto simp: bindI_def ret_def split: prod.split)

lemma flush_flushUntil:
  assumes "flush d sub ch wl b w = (rs, w')" "i < length b"
  shows "flushUntil d sub ch wl b i w = (rs ! i, w')
    \<or> (\<exists>w1. flushUntil d sub ch wl b i w = (rs ! i, w1\<lparr>detached := detached w1 @ [Retries ch wl (drop (Suc i) b)]\<rparr>)
         \<and> retryEach d sub ch wl (drop (Suc i) b) w1 = (drop (Suc i) rs, w'))"
  using assms(1)
proof (cases rule: flush_cases)
  case (singly h e w1)
  obtain as u where 1: "retryEach d sub ch wl (take (Suc i) b) w1 = (as, u)" by fastforce
  obtain bs u' where 2: "retryEach d sub ch wl (drop (Suc i) b) u = (bs, u')" by fastforce
  from singly(3) retryEach_append [of d sub ch wl "take (Suc i) b" "drop (Suc i) b"] 1 2
  have "rs = as @ bs" "w' = u'" by (auto simp: bindI_def ret_def)
  moreover from retryEach_length [OF 1] assms(2) have "length as = Suc i" by simp
  ultimately show ?thesis using singly(1,2) 1 2
    by (intro disjI2 exI [of _ u]) (simp add: flushUntil_def bindI_def ret_def detach_def nth_append)
qed (use assms(2) in \<open>simp_all add: flushUntil_def bindI_def ret_def\<close>)

lemma batch_position:
  assumes "a = take (maxBatchSize - 1) xs" "b = fst (drain (a @ [p]) c)"
  shows "length a < length b" "b ! length a = p" "length b \<le> maxBatchSize"
proof -
  have "length a \<le> 49" "maxBatchSize = 50" using assms(1) by (auto simp: maxBatchSize_def)
  with assms(2) show "length a < length b" "b ! length a = p" "length b \<le> maxBatchSize"
    by (auto simp: drain_eq nth_append)
qed

lemma Enqueue_mined:
  assumes "Enqueue d (onchainSubmit d) ch p w = ((h, None), w')"
  shows "\<exists>ops. p \<in> set ops \<and> length ops \<le> maxBatchSize \<and> mined_in (new_events w w') ops h"
proof -
  obtain q w1 where qf: "queueFor d ch w = (q, w1)" by fastforce
  with assms obtain pool where pool: "q = Inr pool" by (cases q) (auto simp: Enqueue_def io_simps)
  define w2 where "w2 = w1\<lparr>trace := trace w1 @ [EvCtxWait None]\<rparr>"
  obtain xs c where m: "x_Batchmates (d_ext d) (trace w2) ch = (xs, c)" by fastforce
  define w3 where "w3 = w2\<lparr>trace := trace w2 @ [EvBatchmates ch (xs, c), EvCtxWait None]\<rparr>"
  define a where "a = take (maxBatchSize - 1) xs"
  define b where "b = fst (drain (a @ [p]) c)"
  from assms qf pool have n: "x_CtxWait (d_ext d) (trace w1) = None"
    by (auto simp: Enqueue_def io_simps split: option.splits)
  have n2: "x_CtxWait (d_ext d) (trace w2 @ [EvBatchmates ch (xs, c)]) = None"
    using assms qf pool n m by (auto simp: Enqueue_def io_simps Let_def w2_def split: option.splits)
  obtain i w4 where ni: "nextIndex d (FormatInt ch) (length pool) w3 = (i, w4)" by fastforce
  from assms qf pool n n2 m ni obtain wl where wl: "flushUntil d (onchainSubmit d) ch wl b (length a) w4 = ((h, None), w')"
    by (auto simp: Enqueue_def io_simps Let_def w2_def w3_def a_def b_def split: sum.splits)
  note pos = batch_position [OF a_def b_def]
  from flushUntil_mined [OF wl pos(1)] obtain es ops where es: "trace w' = trace w4 @ es"
    "ops = b \<or> ops = [b ! length a]" "mined_in es ops h" by blast
  from queueFor_trace [OF qf] obtain fs where fs: "trace w1 = trace w @ fs" by blast
  from nextIndex_trace [of d "FormatInt ch" "length pool" w3] ni obtain gs where gs: "trace w4 = trace w3 @ gs" by auto
  have "trace w' = trace w @ fs @ [EvCtxWait None, EvBatchmates ch (xs, c), EvCtxWait None] @ gs @ es"
    using es(1) fs gs by (simp add: w3_def w2_def)
  then have "mined_in (new_events w w') ops h"
    using es(3) by (auto simp: new_events_append elim!: mined_in_mono)
  moreover have "p \<in> set ops \<and> length ops \<le> maxBatchSize"
    using es(2) pos by (auto simp: maxBatchSize_def)
  ultimately show ?thesis by blast
qed

lemma appends_detach [intro, simp]: "appends Q (detach t)"
  by (rule appendsI) (auto simp: detach_def)

lemma Enqueue_trace:
  assumes "Enqueue d (onchainSubmit d) ch p w = (r, w')"
  shows "\<exists>es. trace w' = trace w @ es"
proof -
  have 1: "appends (\<lambda>_. True) (sendUnderLock d (onchainSubmit d) ch wl b)" "appends (\<lambda>_. True) (retryEach d (onchainSubmit d) ch wl b)" for wl b
    by (rule appends_mono [OF sendUnderLock_appends], simp) (rule appends_mono [OF retryEach_appends], simp)
  have 2: "appends (\<lambda>_. True) (flushUntil d (onchainSubmit d) ch wl b i)" for wl b i
    unfolding flushUntil_def by (intro appends_bindI 1) (auto intro!: appends_bindI 1 split: option.split)
  have 3: "appends (\<lambda>_. True) (nextIndex d k n)" for k n
    using nextIndex_trace [of d k n] by (simp add: appends_def list_all_iff)
  have 4: "appends (\<lambda>_. True) (queueFor d ch)"
    by (rule appendsI) (drule queueFor_trace, simp add: list_all_iff)
  have 5: "appends (\<lambda>_. True) (extcall f ev)" for f and ev :: "'x \<Rightarrow> event"
    by (rule appends_extcall) simp
  have "appends (\<lambda>_. True) (Enqueue d (onchainSubmit d) ch p)"
    unfolding Enqueue_def Let_def
    by (auto intro!: appends_bindI 2 3 4 5 split: option.split sum.split prod.split)
  with assms show ?thesis by (auto elim: appendsE)
qed

text \<open>
  C8: a caller of \<open>Enqueue\<close> that gets a transaction hash without an error gets the hash of a
  \<open>handleOps\<close> transaction that carries its operation, alone or within a batch of at most 50,
  and that the node reported as mined.
\<close>

theorem Enqueue_success:
  assumes "Enqueue d (onchainSubmit d) ch p w = ((h, None), w')"
  shows "\<exists>ops. p \<in> set ops \<and> length ops \<le> maxBatchSize \<and> mined_in (new_events w w') ops h"
  by (rule Enqueue_mined) (rule assms)

lemma Enqueue_demo_any:
  assumes "clients w 1 = Some 5" "chains w 1 = Some [\<lparr>priv = 1, addr = 1\<rparr>]"
  shows "\<exists>w'. Enqueue (demo_service (mining_ext 1)) (onchainSubmit (demo_service (mining_ext 1))) 1 p w
     = ((''0xaa'', None), w')"
proof -
  let ?d = "demo_service (mining_ext 1)"
  have x: "d_ext ?d = mining_ext 1" by (simp add: demo_service_def)
  have s: "x_CtxWait (mining_ext 1) t = None" "x_Batchmates (mining_ext 1) t j = ([], [])"
    "x_PendingNonceAt (mining_ext 1) t c a = Inr 7" "x_Transact (mining_ext 1) t c opts a m vs = Inr ''0xaa''"
    "x_WaitMined (mining_ext 1) t c h = Inr \<lparr>rcpt_Status = 1, rcpt_GasUsed = 21000,
       rcpt_EffectiveGasPrice = Some 1, rcpt_Logs = []\<rparr>" for t c a opts m vs h j
    by (simp_all add: mining_ext_def offline_ext_def)
  show ?thesis using assms
    by (simp add: Enqueue_def queueFor_def x s walletAt_def nextIndex_def NextIndex_def drain_eq maxBatchSize_def
        flushUntil_def io_simps sendUnderLock_demo onchainSubmit_demo Let_def)
qed

lemma Enqueue_demo:
  "\<exists>w'. Enqueue (demo_service (mining_ext 1)) (onchainSubmit (demo_service (mining_ext 1))) 1 p
     (demo_world\<lparr>chains := [1 \<mapsto> [\<lparr>priv = 1, addr = 1\<rparr>]]\<rparr>) = ((''0xaa'', None), w')"
  by (rule Enqueue_demo_any) (simp_all add: demo_world_def)

theorem Enqueue_success_witness:
  "\<exists>h w' ops. Enqueue (demo_service (mining_ext 1)) (onchainSubmit (demo_service (mining_ext 1))) 1 (demo_op 0)
       (demo_world\<lparr>chains := [1 \<mapsto> [\<lparr>priv = 1, addr = 1\<rparr>]]\<rparr>) = ((h, None), w')
     \<and> demo_op 0 \<in> set ops
     \<and> mined_in (new_events (demo_world\<lparr>chains := [1 \<mapsto> [\<lparr>priv = 1, addr = 1\<rparr>]]\<rparr>) w') ops h"
  using Enqueue_demo [of "demo_op 0"] Enqueue_success by blast

end
