(* ===== verification/Batch_Protocol.thy ===== *)
theory Batch_Protocol
  imports Batcher
begin

text \<open>
  The goroutines around one chain's queue: the callers of \<open>Enqueue\<close>, the channel, the
  dispatcher, and the \<open>flush\<close> goroutines limited by the semaphore. Operations are numbered; a
  number stands for a \<open>*queuedOp\<close>. What a \<open>flush\<close> goroutine sends is the subject of \<open>Batcher\<close>;
  here only the outcome of each submission is chosen freely.
\<close>

section \<open>State and steps\<close>

datatype caller = Absent | Sending | Awaiting | Answered opResult | GaveUp

datatype dispatcher = Ready | Collecting "nat list" | Chosen "nat list" nat

text \<open>A \<open>flush\<close> goroutine: its wallet and the operations it still has to answer.\<close>

datatype flight =
    FSend (wallet: nat) (todo: "nat list")
  | FDeliver (wallet: nat) (todo: "nat list") opResult
  | FRetry (wallet: nat) (todo: "nat list")

text \<open>
  \<open>buf\<close> is the content of the result channels, each of capacity one. \<open>entered\<close> and \<open>answered\<close>
  record, for the properties only, which operations were accepted into the channel and which
  result each was sent.
\<close>

record bstate =
  callers :: "nat \<Rightarrow> caller"
  chan :: "nat list"
  disp :: dispatcher
  flights :: "flight list"
  buf :: "nat \<rightharpoonup> opResult"
  entered :: "nat set"
  answered :: "nat \<rightharpoonup> opResult"

definition batch_init :: "bstate \<Rightarrow> bool" where
  "batch_init s \<longleftrightarrow> s = \<lparr>callers = (\<lambda>_. Absent), chan = [], disp = Ready, flights = [],
     buf = Map.empty, entered = {}, answered = Map.empty\<rparr>"

text \<open>The steps of the callers.\<close>

inductive caller_step :: "bstate \<Rightarrow> bstate \<Rightarrow> bool" where
  arrive: "caller_step s (s\<lparr>callers := (callers s)(q := Sending)\<rparr>)" if "callers s q = Absent"
| enqueue: "caller_step s (s\<lparr>callers := (callers s)(q := Awaiting), chan := chan s @ [q],
     entered := insert q (entered s)\<rparr>)"
    if "callers s q = Sending" "length (chan s) < maxBatchSize * 2"
| give_up: "caller_step s (s\<lparr>callers := (callers s)(q := GaveUp)\<rparr>)"
    if "callers s q = Sending \<or> callers s q = Awaiting"
| take_result: "caller_step s (s\<lparr>callers := (callers s)(q := Answered r), buf := (buf s)(q := None)\<rparr>)"
    if "callers s q = Awaiting" "buf s q = Some r"

text \<open>The steps of the dispatcher and of the \<open>flush\<close> goroutines, for a pool of \<open>N\<close> wallets.\<close>

inductive worker_step :: "nat \<Rightarrow> bstate \<Rightarrow> bstate \<Rightarrow> bool" for N where
  first: "worker_step N s (s\<lparr>chan := c, disp := Collecting [q]\<rparr>)"
    if "disp s = Ready" "chan s = q # c"
| more: "worker_step N s (s\<lparr>chan := c, disp := Collecting (b @ [q])\<rparr>)"
    if "disp s = Collecting b" "length b < maxBatchSize" "chan s = q # c"
| choose: "worker_step N s (s\<lparr>disp := Chosen b i\<rparr>)"
    if "disp s = Collecting b" "length b < maxBatchSize \<longrightarrow> chan s = []" "i < N"
| launch: "worker_step N s (s\<lparr>disp := Ready, flights := flights s @ [FSend i b]\<rparr>)"
    if "disp s = Chosen b i" "length (flights s) < N"
| batch_sent: "worker_step N s (s\<lparr>flights := xs @ FDeliver i b (h, None) # ys\<rparr>)"
    if "flights s = xs @ FSend i b # ys"
| single_failed: "worker_step N s (s\<lparr>flights := xs @ FDeliver i b ([], Some e) # ys\<rparr>)"
    if "flights s = xs @ FSend i b # ys" "length b \<le> 1"
| batch_failed: "worker_step N s (s\<lparr>flights := xs @ FRetry i b # ys\<rparr>)"
    if "flights s = xs @ FSend i b # ys" "1 < length b"
| deliver: "worker_step N s (s\<lparr>flights := xs @ FDeliver i b r # ys, buf := (buf s)(q \<mapsto> r),
     answered := (answered s)(q \<mapsto> r)\<rparr>)"
    if "flights s = xs @ FDeliver i (q # b) r # ys" "buf s q = None"
| retried: "worker_step N s (s\<lparr>flights := xs @ FRetry i b # ys, buf := (buf s)(q \<mapsto> r),
     answered := (answered s)(q \<mapsto> r)\<rparr>)"
    if "flights s = xs @ FRetry i (q # b) # ys" "buf s q = None"
| finish: "worker_step N s (s\<lparr>flights := xs @ ys\<rparr>)"
    if "flights s = xs @ f # ys" "todo f = []" "f \<noteq> FSend (wallet f) []"

definition batch_step :: "nat \<Rightarrow> bstate \<Rightarrow> bstate \<Rightarrow> bool" where
  "batch_step N s t \<longleftrightarrow> caller_step s t \<or> worker_step N s t"

inductive_cases caller_stepE: "caller_step s t"
inductive_cases worker_stepE: "worker_step N s t"

section \<open>Invariant\<close>

fun disp_ops :: "dispatcher \<Rightarrow> nat list" where
  "disp_ops Ready = []"
| "disp_ops (Collecting b) = b"
| "disp_ops (Chosen b _) = b"

definition inflight :: "bstate \<Rightarrow> nat list" where
  "inflight s = chan s @ disp_ops (disp s) @ concat (map todo (flights s))"

text \<open>Every accepted operation is in one place, or answered.\<close>

definition place_inv :: "bstate \<Rightarrow> bool" where
  "place_inv s \<longleftrightarrow> distinct (inflight s) \<and> set (inflight s) \<inter> dom (answered s) = {}
     \<and> entered s = set (inflight s) \<union> dom (answered s)"

text \<open>A result waits in its channel until its caller takes it, and a caller is entered once.\<close>

definition result_inv :: "bstate \<Rightarrow> bool" where
  "result_inv s \<longleftrightarrow> (\<forall>q. (buf s q = None \<or> buf s q = answered s q)
     \<and> (callers s q = Absent \<or> callers s q = Sending \<longrightarrow> q \<notin> entered s)
     \<and> (callers s q = Awaiting \<longrightarrow> q \<in> entered s \<and> buf s q = answered s q)
     \<and> (\<forall>r. callers s q = Answered r \<longrightarrow> answered s q = Some r))"

fun disp_ok :: "nat \<Rightarrow> dispatcher \<Rightarrow> bool" where
  "disp_ok N Ready = True"
| "disp_ok N (Collecting b) = (b \<noteq> [] \<and> length b \<le> maxBatchSize)"
| "disp_ok N (Chosen b i) = (b \<noteq> [] \<and> length b \<le> maxBatchSize \<and> i < N)"

fun flight_ok :: "nat \<Rightarrow> flight \<Rightarrow> bool" where
  "flight_ok N (FSend i b) = (i < N \<and> b \<noteq> [] \<and> length b \<le> maxBatchSize)"
| "flight_ok N (FDeliver i b r) = (i < N \<and> length b \<le> maxBatchSize)"
| "flight_ok N (FRetry i b) = (i < N \<and> length b \<le> maxBatchSize)"

definition size_inv :: "nat \<Rightarrow> bstate \<Rightarrow> bool" where
  "size_inv N s \<longleftrightarrow> length (chan s) \<le> maxBatchSize * 2 \<and> disp_ok N (disp s)
     \<and> length (flights s) \<le> N \<and> list_all (flight_ok N) (flights s)"

definition batch_inv :: "nat \<Rightarrow> bstate \<Rightarrow> bool" where
  "batch_inv N s \<longleftrightarrow> place_inv s \<and> result_inv s \<and> size_inv N s"

lemma place_inv_caller: "caller_step s t \<Longrightarrow> place_inv s \<Longrightarrow> result_inv s \<Longrightarrow> place_inv t"
  by (induction rule: caller_step.induct) (auto simp: place_inv_def result_inv_def inflight_def)

lemma result_inv_caller: "caller_step s t \<Longrightarrow> place_inv s \<Longrightarrow> result_inv s \<Longrightarrow> result_inv t"
proof (induction rule: caller_step.induct)
  case (enqueue s q)
  then have "q \<notin> entered s" "answered s q = None" by (auto simp: result_inv_def place_inv_def)
  with enqueue show ?case by (auto simp: result_inv_def)
qed (auto simp: result_inv_def)

lemma size_inv_caller: "caller_step s t \<Longrightarrow> size_inv N s \<Longrightarrow> size_inv N t"
  by (induction rule: caller_step.induct) (auto simp: size_inv_def)

lemma size_inv_worker: "worker_step N s t \<Longrightarrow> size_inv N s \<Longrightarrow> size_inv N t"
proof (induction rule: worker_step.induct)
  case (finish s xs f ys)
  then show ?case by (simp add: size_inv_def)
qed (auto simp: size_inv_def maxBatchSize_def)

lemma place_inv_worker: "worker_step N s t \<Longrightarrow> place_inv s \<Longrightarrow> place_inv t"
proof (induction rule: worker_step.induct)
  case (finish s xs f ys)
  then show ?case by (simp add: place_inv_def inflight_def)
qed (auto simp: place_inv_def inflight_def)

lemma todo_head_unanswered:
  assumes "place_inv s" "f \<in> set (flights s)" "q \<in> set (todo f)"
  shows "answered s q = None" "q \<in> entered s"
  using assms by (auto simp: place_inv_def inflight_def)

lemma result_inv_worker: "worker_step N s t \<Longrightarrow> place_inv s \<Longrightarrow> result_inv s \<Longrightarrow> result_inv t"
proof (induction rule: worker_step.induct)
  case (deliver s xs i q b r ys)
  then have "answered s q = None" "q \<in> entered s"
    using todo_head_unanswered [of s "FDeliver i (q # b) r" q] by auto
  with deliver show ?case by (auto simp: result_inv_def)
next
  case (retried s xs i q b ys r)
  then have "answered s q = None" "q \<in> entered s"
    using todo_head_unanswered [of s "FRetry i (q # b)" q] by auto
  with retried show ?case by (auto simp: result_inv_def)
qed (auto simp: result_inv_def)

interpretation bp: invariant_system batch_init "batch_step N" "batch_inv N" for N
proof unfold_locales
  fix s assume "batch_init s"
  then show "batch_inv N s"
    by (simp add: batch_init_def batch_inv_def place_inv_def result_inv_def size_inv_def inflight_def)
next
  fix s t assume "batch_inv N s" "batch_step N s t"
  then show "batch_inv N t"
    unfolding batch_inv_def batch_step_def
    by (auto intro: place_inv_caller place_inv_worker result_inv_caller result_inv_worker
        size_inv_caller size_inv_worker)
qed

section \<open>Progress of the workers\<close>

text \<open>The work left: it starts at 8 per queued operation and each worker step lowers it.\<close>

fun disp_work :: "dispatcher \<Rightarrow> nat" where
  "disp_work Ready = 0"
| "disp_work (Collecting b) = 7 * length b"
| "disp_work (Chosen b _) = 6 * length b"

fun flight_work :: "flight \<Rightarrow> nat" where
  "flight_work (FSend _ b) = 5 * length b"
| "flight_work (FDeliver _ b _) = 3 * length b + 1"
| "flight_work (FRetry _ b) = 3 * length b + 1"

definition work :: "bstate \<Rightarrow> nat" where
  "work s = 8 * length (chan s) + disp_work (disp s) + sum_list (map flight_work (flights s))"

lemma worker_step_work: "worker_step N s t \<Longrightarrow> size_inv N s \<Longrightarrow> work t < work s"
proof (induction rule: worker_step.induct)
  case (choose s b i)
  then show ?case by (auto simp: work_def size_inv_def)
next
  case (launch s b i)
  then show ?case by (auto simp: work_def size_inv_def)
next
  case (batch_sent s xs i b ys h)
  then have "1 \<le> length b" by (cases b) (auto simp: size_inv_def)
  with batch_sent show ?case by (simp add: work_def)
next
  case (single_failed s xs i b ys e)
  then have "1 \<le> length b" by (cases b) (auto simp: size_inv_def)
  with single_failed show ?case by (auto simp: work_def)
next
  case (finish s xs f ys)
  then show ?case by (cases f) (auto simp: work_def)
qed (auto simp: work_def)

lemma flight_moves:
  assumes "batch_inv N s" "f \<in> set (flights s)"
  shows "\<exists>t. worker_step N s t"
proof -
  from assms(2) obtain xs ys where f: "flights s = xs @ f # ys" by (meson split_list)
  have free: "buf s q = None" if "q \<in> set (todo f)" for q
    using todo_head_unanswered(1) [OF _ assms(2) that] assms(1) by (auto simp: batch_inv_def result_inv_def)
  show ?thesis
  proof (cases f)
    case (FSend i b)
    with f show ?thesis using worker_step.batch_sent by blast
  next
    case (FDeliver i b r)
    then show ?thesis
      using f free worker_step.deliver [of s xs i _ _ r ys N] worker_step.finish [of s xs f ys N]
      by (cases b) auto
  next
    case (FRetry i b)
    then show ?thesis
      using f free worker_step.retried [where r = "([], None)", of s xs i _ _ ys N] worker_step.finish [of s xs f ys N]
      by (cases b) auto
  qed
qed

lemma worker_moves:
  assumes "batch_inv N s" "0 < N" "inflight s \<noteq> []"
  shows "\<exists>t. worker_step N s t"
proof (cases "flights s")
  case (Cons f fs)
  then show ?thesis using flight_moves [OF assms(1)] by auto
next
  case Nil
  show ?thesis
  proof (cases "disp s")
    case Ready
    with assms(3) Nil obtain q c where "chan s = q # c" by (cases "chan s") (auto simp: inflight_def)
    with Ready show ?thesis using worker_step.first by blast
  next
    case (Collecting b)
    show ?thesis
    proof (cases "length b < maxBatchSize \<and> chan s \<noteq> []")
      case True
      then obtain q c where "chan s = q # c" by (cases "chan s") auto
      with True Collecting show ?thesis using worker_step.more by blast
    next
      case False
      with Collecting assms(2) show ?thesis using worker_step.choose by blast
    qed
  next
    case (Chosen b i)
    with Nil assms(2) show ?thesis using worker_step.launch [of s b i N] by auto
  qed
qed

lemma worker_step_entered: "worker_step N s t \<Longrightarrow> entered t = entered s"
  by (induction rule: worker_step.induct) auto

lemma workers_finish:
  assumes "batch_inv N s" "0 < N"
  shows "\<exists>t. (worker_step N)\<^sup>*\<^sup>* s t \<and> inflight t = [] \<and> batch_inv N t \<and> entered t = entered s"
  using assms(1)
proof (induction "work s" arbitrary: s rule: less_induct)
  case less
  show ?case
  proof (cases "inflight s = []")
    case True
    with less.prems show ?thesis by blast
  next
    case False
    then obtain u where u: "worker_step N s u" using worker_moves [OF less.prems assms(2)] by blast
    then have "batch_inv N u" using bp.inv_step less.prems by (auto simp: batch_step_def)
    moreover have "work u < work s" using worker_step_work [OF u] less.prems by (simp add: batch_inv_def)
    ultimately obtain t where t: "(worker_step N)\<^sup>*\<^sup>* u t" "inflight t = []" "batch_inv N t" "entered t = entered u"
      using less.hyps by blast
    then show ?thesis using u worker_step_entered [OF u] converse_rtranclp_into_rtranclp [of "worker_step N" s u t] by auto
  qed
qed

section \<open>Properties\<close>

text \<open>
  C27: no operation is lost or answered twice. In every reachable state an operation that was
  accepted into the channel is in exactly one place (the channel, the batch being collected or
  one running \<open>flush\<close>) or has been answered, and an operation that is still in some place has
  not been answered.
\<close>

theorem ops_exactly_once:
  assumes "bp.reach N s"
  shows "entered s = set (inflight s) \<union> dom (answered s)
     \<and> (\<forall>q. count_list (inflight s) q + (if q \<in> dom (answered s) then 1 else 0) = (if q \<in> entered s then 1 else 0))"
proof -
  from bp.reach_inv [OF assms] have p: "place_inv s" by (simp add: batch_inv_def)
  then have "count_list (inflight s) q = (if q \<in> set (inflight s) then 1 else 0)" for q
    using distinct_count_list [of "inflight s" q] by (auto simp: place_inv_def count_list_0_iff)
  with p show ?thesis by (auto simp: place_inv_def)
qed

text \<open>
  C28: the limits hold: at most 100 queued operations, batches of 1 to 50, at most as many
  running \<open>flush\<close> goroutines as the pool has wallets, each with a wallet of the pool.
\<close>

theorem batch_limits:
  assumes "bp.reach N s"
  shows "length (chan s) \<le> 100 \<and> disp_ok N (disp s) \<and> length (disp_ops (disp s)) \<le> 50 \<and> length (flights s) \<le> N
     \<and> list_all (\<lambda>f. wallet f < N \<and> length (todo f) \<le> 50) (flights s)"
proof -
  from bp.reach_inv [OF assms] have sz: "size_inv N s" by (simp add: batch_inv_def)
  then have "length (disp_ops (disp s)) \<le> 50"
    by (cases "disp s") (auto simp: size_inv_def maxBatchSize_def)
  moreover have "wallet f < N \<and> length (todo f) \<le> 50" if "flight_ok N f" for f
    using that by (cases f) (auto simp: maxBatchSize_def)
  ultimately show ?thesis using sz by (auto simp: size_inv_def maxBatchSize_def list_all_iff)
qed

text \<open>
  A \<open>flush\<close> goroutine never blocks on a result channel, even when the caller has gone: when
  it is about to answer an operation, that operation's channel is empty.
\<close>

theorem flush_never_blocks:
  assumes "bp.reach N s" "f \<in> set (flights s)" "q \<in> set (todo f)"
  shows "buf s q = None \<and> answered s q = None"
proof -
  from bp.reach_inv [OF assms(1)] have i: "place_inv s" "result_inv s" by (auto simp: batch_inv_def)
  from todo_head_unanswered(1) [OF i(1) assms(2,3)] i(2) show ?thesis by (auto simp: result_inv_def)
qed

text \<open>
  C29: every accepted operation is answered. From every reachable state the dispatcher and the
  \<open>flush\<close> goroutines can run, without any help from the callers, to a state in which all
  accepted operations have their result; each of their steps lowers a bounded amount of work,
  and as long as an operation is unanswered one of them can move.
\<close>

theorem ops_answered:
  assumes "bp.reach N s" "0 < N"
  shows "(\<exists>t. (worker_step N)\<^sup>*\<^sup>* s t \<and> dom (answered t) = entered s)
     \<and> (\<forall>t. worker_step N s t \<longrightarrow> work t < work s)
     \<and> (dom (answered s) \<noteq> entered s \<longrightarrow> (\<exists>t. worker_step N s t))"
proof (intro conjI allI impI)
  note inv = bp.reach_inv [OF assms(1)]
  from workers_finish [OF inv assms(2)] obtain t where t: "(worker_step N)\<^sup>*\<^sup>* s t" "inflight t = []"
    "batch_inv N t" "entered t = entered s" by blast
  then have "dom (answered t) = entered s" by (auto simp: batch_inv_def place_inv_def)
  with t(1) show "\<exists>t. (worker_step N)\<^sup>*\<^sup>* s t \<and> dom (answered t) = entered s" by blast
  show "work t < work s" if "worker_step N s t" for t
    using worker_step_work [OF that] inv by (simp add: batch_inv_def)
  assume "dom (answered s) \<noteq> entered s"
  with inv have "inflight s \<noteq> []" by (auto simp: batch_inv_def place_inv_def)
  then show "\<exists>t. worker_step N s t" by (rule worker_moves [OF inv assms(2)])
qed

subsection \<open>Refinement\<close>

text \<open>
  What the queue promises its callers, without channels, batches and goroutines: an operation
  is accepted once and answered at most once, and a caller sees only the answer to its own
  operation.
\<close>

record queue_spec =
  sq_accepted :: "nat set"
  sq_answer :: "nat \<rightharpoonup> opResult"
  sq_seen :: "nat \<rightharpoonup> opResult"

inductive spec_step :: "queue_spec \<Rightarrow> queue_spec \<Rightarrow> bool" where
  accept: "spec_step a (a\<lparr>sq_accepted := insert q (sq_accepted a)\<rparr>)" if "q \<notin> sq_accepted a"
| answer: "spec_step a (a\<lparr>sq_answer := (sq_answer a)(q \<mapsto> r)\<rparr>)"
    if "q \<in> sq_accepted a" "sq_answer a q = None"
| see: "spec_step a (a\<lparr>sq_seen := (sq_seen a)(q \<mapsto> r)\<rparr>)"
    if "sq_answer a q = Some r" "sq_seen a q = None"

definition abs_queue :: "bstate \<Rightarrow> queue_spec" where
  "abs_queue s = \<lparr>sq_accepted = entered s, sq_answer = answered s,
     sq_seen = (\<lambda>q. case callers s q of Answered r \<Rightarrow> Some r | _ \<Rightarrow> None)\<rparr>"

lemma abs_queue_caller:
  assumes "caller_step s t" "result_inv s"
  shows "spec_step\<^sup>=\<^sup>= (abs_queue s) (abs_queue t)"
  using assms
proof (induction rule: caller_step.induct)
  case (arrive s q)
  then have "abs_queue (s\<lparr>callers := (callers s)(q := Sending)\<rparr>) = abs_queue s"
    by (auto simp: abs_queue_def fun_eq_iff)
  then show ?case by simp
next
  case (enqueue s q)
  then have "abs_queue (s\<lparr>callers := (callers s)(q := Awaiting), chan := chan s @ [q], entered := insert q (entered s)\<rparr>)
      = (abs_queue s)\<lparr>sq_accepted := insert q (sq_accepted (abs_queue s))\<rparr>"
    by (auto simp: abs_queue_def fun_eq_iff)
  moreover have "spec_step (abs_queue s) ((abs_queue s)\<lparr>sq_accepted := insert q (sq_accepted (abs_queue s))\<rparr>)"
    by (rule spec_step.accept) (use enqueue in \<open>auto simp: abs_queue_def result_inv_def\<close>)
  ultimately show ?case by simp
next
  case (give_up s q)
  then have "abs_queue (s\<lparr>callers := (callers s)(q := GaveUp)\<rparr>) = abs_queue s"
    by (auto simp: abs_queue_def fun_eq_iff)
  then show ?case by simp
next
  case (take_result s q r)
  then have "abs_queue (s\<lparr>callers := (callers s)(q := Answered r), buf := (buf s)(q := None)\<rparr>)
      = (abs_queue s)\<lparr>sq_seen := (sq_seen (abs_queue s))(q \<mapsto> r)\<rparr>"
    by (auto simp: abs_queue_def fun_eq_iff)
  moreover have "spec_step (abs_queue s) ((abs_queue s)\<lparr>sq_seen := (sq_seen (abs_queue s))(q \<mapsto> r)\<rparr>)"
    by (rule spec_step.see) (use take_result in \<open>auto simp: abs_queue_def result_inv_def\<close>)
  ultimately show ?case by simp
qed

lemma abs_queue_worker:
  assumes "worker_step N s t" "place_inv s"
  shows "spec_step\<^sup>=\<^sup>= (abs_queue s) (abs_queue t)"
  using assms
proof (induction rule: worker_step.induct)
  case (deliver s xs i q b r ys)
  then have "answered s q = None" "q \<in> entered s"
    using todo_head_unanswered [of s "FDeliver i (q # b) r" q] by auto
  then have "spec_step (abs_queue s) ((abs_queue s)\<lparr>sq_answer := (sq_answer (abs_queue s))(q \<mapsto> r)\<rparr>)"
    by (intro spec_step.answer) (auto simp: abs_queue_def)
  then show ?case by (simp add: abs_queue_def)
next
  case (retried s xs i q b ys r)
  then have "answered s q = None" "q \<in> entered s"
    using todo_head_unanswered [of s "FRetry i (q # b)" q] by auto
  then have "spec_step (abs_queue s) ((abs_queue s)\<lparr>sq_answer := (sq_answer (abs_queue s))(q \<mapsto> r)\<rparr>)"
    by (intro spec_step.answer) (auto simp: abs_queue_def)
  then show ?case by (simp add: abs_queue_def)
qed (simp_all add: abs_queue_def)

text \<open>
  C30: the goroutines implement the abstract queue: each step of theirs, from any reachable
  state, is one step of the abstract queue or is invisible there.
\<close>

theorem queue_refines:
  assumes "bp.reach N s" "batch_step N s t"
  shows "spec_step\<^sup>=\<^sup>= (abs_queue s) (abs_queue t)"
  using assms(2) bp.reach_inv [OF assms(1)] abs_queue_caller abs_queue_worker
  unfolding batch_step_def batch_inv_def by blast

section \<open>A concrete run\<close>

text \<open>One operation accepted and being sent with the only wallet of the pool.\<close>

definition sending_state :: bstate where
  "sending_state = \<lparr>callers = (\<lambda>_. Absent)(0 := Awaiting), chan = [], disp = Ready, flights = [FSend 0 [0]],
     buf = Map.empty, entered = {0}, answered = Map.empty\<rparr>"

lemma reach_sending: "bp.reach 1 sending_state"
proof -
  let ?s0 = "\<lparr>callers = (\<lambda>_. Absent), chan = [], disp = Ready, flights = [],
     buf = Map.empty, entered = {}, answered = Map.empty\<rparr> :: bstate"
  let ?s1 = "?s0\<lparr>callers := (callers ?s0)(0 := Sending)\<rparr>"
  let ?s2 = "?s1\<lparr>callers := (callers ?s1)(0 := Awaiting), chan := chan ?s1 @ [0], entered := insert 0 (entered ?s1)\<rparr>"
  let ?s3 = "?s2\<lparr>chan := [], disp := Collecting [0]\<rparr>"
  let ?s4 = "?s3\<lparr>disp := Chosen [0] 0\<rparr>"
  have "bp.reach 1 ?s0" by (rule bp.reach_init) (simp add: batch_init_def)
  moreover have "batch_step 1 ?s0 ?s1" unfolding batch_step_def by (rule disjI1, rule caller_step.arrive) simp
  ultimately have "bp.reach 1 ?s1" by (rule bp.reach_step)
  moreover have "batch_step 1 ?s1 ?s2" unfolding batch_step_def
    by (rule disjI1, rule caller_step.enqueue) (simp_all add: maxBatchSize_def)
  ultimately have "bp.reach 1 ?s2" by (rule bp.reach_step)
  moreover have "batch_step 1 ?s2 ?s3" unfolding batch_step_def by (rule disjI2, rule worker_step.first) simp_all
  ultimately have "bp.reach 1 ?s3" by (rule bp.reach_step)
  moreover have "batch_step 1 ?s3 ?s4" unfolding batch_step_def
    by (rule disjI2, rule worker_step.choose [where b = "[0]"]) simp_all
  ultimately have "bp.reach 1 ?s4" by (rule bp.reach_step)
  moreover have "batch_step 1 ?s4 (?s4\<lparr>disp := Ready, flights := flights ?s4 @ [FSend 0 [0]]\<rparr>)" unfolding batch_step_def
    by (rule disjI2, rule worker_step.launch [where b = "[0]"]) simp_all
  ultimately have "bp.reach 1 (?s4\<lparr>disp := Ready, flights := flights ?s4 @ [FSend 0 [0]]\<rparr>)" by (rule bp.reach_step)
  then show ?thesis by (simp add: sending_state_def)
qed

theorem ops_exactly_once_witness:
  "bp.reach 1 sending_state \<and> count_list (inflight sending_state) 0 = 1"
  using reach_sending ops_exactly_once [OF reach_sending] by (simp add: sending_state_def)

theorem batch_limits_witness:
  "bp.reach 1 sending_state \<and> length (flights sending_state) \<le> 1"
  using reach_sending batch_limits [OF reach_sending] by blast

theorem flush_never_blocks_witness:
  "bp.reach 1 sending_state \<and> buf sending_state 0 = None"
  using reach_sending flush_never_blocks [OF reach_sending, of "FSend 0 [0]" 0]
  by (simp add: sending_state_def)

theorem ops_answered_witness:
  "bp.reach 1 sending_state \<and> (\<exists>t. (worker_step 1)\<^sup>*\<^sup>* sending_state t \<and> dom (answered t) = {0})"
  using reach_sending ops_answered [OF reach_sending] by (simp add: sending_state_def)

theorem queue_refines_witness:
  "\<exists>t. batch_step 1 sending_state t \<and> spec_step\<^sup>=\<^sup>= (abs_queue sending_state) (abs_queue t)"
proof -
  have "batch_step 1 sending_state (sending_state\<lparr>flights := [] @ FDeliver 0 [0] (''0xaa'', None) # []\<rparr>)"
    unfolding batch_step_def by (rule disjI2, rule worker_step.batch_sent) (simp add: sending_state_def)
  with queue_refines [OF reach_sending] show ?thesis by blast
qed

end
