(* ===== verification/UserOp.thy ===== *)
theory UserOp
  imports Batcher
begin

text \<open>
  \<open>internal/userop\<close>: the user operation as the JSON-RPC interface takes it (\<open>types.go\<close>), the
  JSON-RPC methods (\<open>rpc.go\<close>) and the HTTP handler (\<open>userop.go\<close>).
\<close>

section \<open>types.go\<close>

record UserOperation =
  Sender :: string
  Nonce :: Uint256
  InitCode :: string
  CallData :: string
  CallGasLimit :: Uint256
  VerificationGasLimit :: Uint256
  PreVerificationGas :: Uint256
  MaxFeePerGas :: Uint256
  MaxPriorityFeePerGas :: Uint256
  PaymasterAndData :: string
  Signature :: string

definition emptyUserOp :: UserOperation where
  "emptyUserOp = \<lparr>Sender = [], Nonce = None, InitCode = [], CallData = [], CallGasLimit = None,
     VerificationGasLimit = None, PreVerificationGas = None, MaxFeePerGas = None,
     MaxPriorityFeePerGas = None, PaymasterAndData = [], Signature = []\<rparr>"

text \<open>The field tags.\<close>

definition userOpFields :: "(string \<times> UserOperation decoder) list" where
  "userOpFields =
    [(''sender'', decString ''UserOperation.sender'' (\<lambda>v u. u\<lparr>Sender := v\<rparr>)),
     (''nonce'', decUint256 ''UserOperation.nonce'' (\<lambda>v u. u\<lparr>Nonce := v\<rparr>)),
     (''initCode'', decString ''UserOperation.initCode'' (\<lambda>v u. u\<lparr>InitCode := v\<rparr>)),
     (''callData'', decString ''UserOperation.callData'' (\<lambda>v u. u\<lparr>CallData := v\<rparr>)),
     (''callGasLimit'', decUint256 ''UserOperation.callGasLimit'' (\<lambda>v u. u\<lparr>CallGasLimit := v\<rparr>)),
     (''verificationGasLimit'',
        decUint256 ''UserOperation.verificationGasLimit'' (\<lambda>v u. u\<lparr>VerificationGasLimit := v\<rparr>)),
     (''preVerificationGas'',
        decUint256 ''UserOperation.preVerificationGas'' (\<lambda>v u. u\<lparr>PreVerificationGas := v\<rparr>)),
     (''maxFeePerGas'', decUint256 ''UserOperation.maxFeePerGas'' (\<lambda>v u. u\<lparr>MaxFeePerGas := v\<rparr>)),
     (''maxPriorityFeePerGas'',
        decUint256 ''UserOperation.maxPriorityFeePerGas'' (\<lambda>v u. u\<lparr>MaxPriorityFeePerGas := v\<rparr>)),
     (''paymasterAndData'', decString ''UserOperation.paymasterAndData'' (\<lambda>v u. u\<lparr>PaymasterAndData := v\<rparr>)),
     (''signature'', decString ''UserOperation.signature'' (\<lambda>v u. u\<lparr>Signature := v\<rparr>))]"

definition toPacked :: "geth \<Rightarrow> UserOperation \<Rightarrow> go_error + PackedUserOp" where
  "toPacked g u =
     (if \<not> common_IsHexAddress g (Sender u) then Inl (errorsNew ''invalid sender address'')
      else case ParseHexBytes g (InitCode u) of Inl e \<Rightarrow> Inl (ErrWrap ''initCode: '' e) | Inr initCode \<Rightarrow>
        (case ParseHexBytes g (CallData u) of Inl e \<Rightarrow> Inl (ErrWrap ''callData: '' e) | Inr callData \<Rightarrow>
        (case ParseHexBytes g (Signature u) of Inl e \<Rightarrow> Inl (ErrWrap ''signature: '' e) | Inr sig \<Rightarrow>
           Inr \<lparr>op_Sender = common_HexToAddress g (Sender u), op_Nonce = Big (Nonce u),
                op_InitCode = initCode, op_CallData = callData, op_CallGasLimit = Big (CallGasLimit u),
                op_VerificationGasLimit = Big (VerificationGasLimit u),
                op_PreVerificationGas = Big (PreVerificationGas u), op_MaxFeePerGas = Big (MaxFeePerGas u),
                op_MaxPriorityFeePerGas = Big (MaxPriorityFeePerGas u), op_PaymasterAndData = [],
                op_Signature = sig\<rparr>)))"

section \<open>rpc.go\<close>

record rpcRequest =
  rq_ID :: "json option"
  rq_Method :: string
  rq_Params :: "json list"

datatype rpcResult = RString string | RStrings "string list" | RFields "(string \<times> string) list"

text \<open>The \<open>data\<close> object of an error.\<close>

record errorData =
  ed_code :: string
  ed_category :: Category
  ed_ethersCode :: string
  ed_txHash :: string
  ed_retryable :: bool

record rpcError =
  re_Code :: int
  re_Message :: string
  re_Data :: "errorData option"

record rpcResponse =
  rs_JSONRPC :: string
  rs_ID :: json
  rs_Result :: "rpcResult option"
  rs_Error :: "rpcError option"

definition idOf :: "json option \<Rightarrow> json" where
  "idOf i = (case i of None \<Rightarrow> JNull | Some j \<Rightarrow> j)"

definition errResp :: "json option \<Rightarrow> int \<Rightarrow> string \<Rightarrow> rpcResponse" where
  "errResp i code message =
     \<lparr>rs_JSONRPC = ''2.0'', rs_ID = idOf i, rs_Result = None,
      rs_Error = Some \<lparr>re_Code = code, re_Message = message, re_Data = None\<rparr>\<rparr>"

definition okResp :: "json option \<Rightarrow> rpcResult \<Rightarrow> rpcResponse" where
  "okResp i r = \<lparr>rs_JSONRPC = ''2.0'', rs_ID = idOf i, rs_Result = Some r, rs_Error = None\<rparr>"

definition requestFields :: "(string \<times> rpcRequest decoder) list" where
  "requestFields =
    [(''id'', \<lambda>j r. Inr (r\<lparr>rq_ID := Some j\<rparr>)),
     (''method'', decString ''rpcRequest.method'' (\<lambda>v r. r\<lparr>rq_Method := v\<rparr>)),
     (''params'', \<lambda>j r. case j of
        JArr js \<Rightarrow> Inr (r\<lparr>rq_Params := js\<rparr>)
      | JNull \<Rightarrow> Inr (r\<lparr>rq_Params := []\<rparr>)
      | _ \<Rightarrow> Inl (Saved (typeErr (jsonKind j) ''rpcRequest.params'' ''[]json.RawMessage'')))]"

text \<open>Decoding a parameter into a \<open>json.Number\<close>, which also accepts a string that holds a number.\<close>

fun decodeNumber :: "json \<Rightarrow> string option" where
  "decodeNumber (JNum l) = Some l"
| "decodeNumber (JStr s) = (if isValidNumber s then Some s else None)"
| "decodeNumber JNull = Some []"
| "decodeNumber _ = None"

fun decodeString :: "json \<Rightarrow> string option" where
  "decodeString (JStr s) = Some s"
| "decodeString JNull = Some []"
| "decodeString _ = None"

definition parseChainIDFromParams :: "json list \<Rightarrow> int64" where
  "parseChainIDFromParams params =
     (if length params < 3 then 0
      else let raw = params ! 2 in
        (case (case decodeNumber raw of Some l \<Rightarrow> ParseInt l 10 | None \<Rightarrow> None) of
           Some n \<Rightarrow> n
         | None \<Rightarrow>
             (case decodeString raw of
                None \<Rightarrow> 0
              | Some s \<Rightarrow>
                  let s = TrimSpace s in
                  if HasPrefix s ''0x'' \<or> HasPrefix s ''0X''
                  then (case ParseInt (drop 2 s) 16 of Some n \<Rightarrow> n | None \<Rightarrow> 0)
                  else (case ParseInt s 10 of Some n \<Rightarrow> n | None \<Rightarrow> 0))))"

definition txErrorResp :: "geth \<Rightarrow> json option \<Rightarrow> go_error \<Rightarrow> rpcResponse" where
  "txErrorResp g i err =
     (case Normalize g (Some err) of
        None \<Rightarrow> errResp i (- 32000) (err_Error err)
      | Some n \<Rightarrow>
          \<lparr>rs_JSONRPC = ''2.0'', rs_ID = idOf i, rs_Result = None,
           rs_Error = Some \<lparr>re_Code = (if n_RPCCode n = 0 then - 32000 else n_RPCCode n),
             re_Message = n_Message n,
             re_Data = Some \<lparr>ed_code = n_Code n, ed_category = n_Category n, ed_ethersCode = n_NativeCode n,
               ed_txHash = n_TxHash n, ed_retryable = n_Retryable n\<rparr>\<rparr>\<rparr>)"

definition handleSendUserOp :: "deps \<Rightarrow> submitFunc \<Rightarrow> rpcRequest \<Rightarrow> int64 \<Rightarrow> rpcResponse wio" where
  "handleSendUserOp d submit req chainID =
     (case rq_Params req of
        [] \<Rightarrow> ret (errResp (rq_ID req) (- 32602) ''Missing userOp'')
      | p # _ \<Rightarrow>
          (case Unmarshal ''userop.UserOperation'' userOpFields p emptyUserOp of
             (uo, Some e) \<Rightarrow> ret (errResp (rq_ID req) (- 32602) (''invalid userOp: '' @ e))
           | (uo, None) \<Rightarrow>
               (case toPacked (d_geth d) uo of
                  Inl e \<Rightarrow> ret (errResp (rq_ID req) (- 32602) (err_Error e))
                | Inr packed \<Rightarrow>
                    bindI (Enqueue d submit chainID packed) (\<lambda>(txHash, err).
                      case err of
                        Some e \<Rightarrow> ret (txErrorResp (d_geth d) (rq_ID req) e)
                      | None \<Rightarrow> ret (okResp (rq_ID req) (RString txHash))))))"

text \<open>\<open>body\<close> is None when it is not valid JSON.\<close>

definition decodeRequest :: "json option \<Rightarrow> rpcRequest \<times> string option" where
  "decodeRequest body =
     (let empty = \<lparr>rq_ID = None, rq_Method = [], rq_Params = []\<rparr> in
      case body of
        None \<Rightarrow> (empty, Some ''invalid JSON'')
      | Some j \<Rightarrow> Unmarshal ''userop.rpcRequest'' requestFields j empty)"

definition handleRPC :: "deps \<Rightarrow> submitFunc \<Rightarrow> json option \<Rightarrow> int64 \<Rightarrow> rpcResponse wio" where
  "handleRPC d submit body pathChainID =
     (case decodeRequest body of (req, err) \<Rightarrow>
      if err \<noteq> None \<or> rq_Method req = [] then ret (errResp (rq_ID req) (- 32600) ''Invalid Request'')
      else
        let paramsChainID =
              (if rq_Method req = ''eth_sendUserOperation'' \<or> rq_Method req = ''eth_estimateUserOperationGas''
               then parseChainIDFromParams (rq_Params req) else 0);
            effective = (if paramsChainID = 0 then pathChainID else paramsChainID)
        in case ResolveChainID (registry d) effective of
             Inl e \<Rightarrow> ret (errResp (rq_ID req) (- 32602) (err_Error e))
           | Inr chainID \<Rightarrow>
               if rq_Method req = ''eth_chainId'' then
                 ret (okResp (rq_ID req) (RString (HexQuantity (d_geth d) chainID)))
               else if rq_Method req = ''eth_supportedEntryPoints'' then
                 (case EntryPoint (registry d) of
                    Inl e \<Rightarrow> ret (errResp (rq_ID req) (- 32602) (err_Error e))
                  | Inr ep \<Rightarrow> ret (okResp (rq_ID req) (RStrings [ep])))
               else if rq_Method req = ''eth_estimateUserOperationGas'' then
                 ret (okResp (rq_ID req) (RFields
                   [(''preVerificationGas'', ''0x0''), (''verificationGasLimit'', ''0x0''), (''callGasLimit'', ''0x0'')]))
               else if rq_Method req = ''eth_sendUserOperation'' then handleSendUserOp d submit req chainID
               else ret (errResp (rq_ID req) (- 32601) ''Method not found''))"

section \<open>userop.go\<close>

text \<open>\<open>Handler.RPC\<close>: a body that cannot be read is \<open>Inl\<close>; the HTTP status is always 200.\<close>

definition RPC :: "deps \<Rightarrow> submitFunc \<Rightarrow> unit + json option \<Rightarrow> string \<Rightarrow> (int \<times> rpcResponse) wio" where
  "RPC d submit body chainIdPath =
     (case body of
        Inl _ \<Rightarrow> ret (200, errResp None (- 32600) ''Invalid Request'')
      | Inr b \<Rightarrow>
          let pathChainID = (if chainIdPath \<noteq> [] then
                (case ParseInt chainIdPath 10 of Some n \<Rightarrow> n | None \<Rightarrow> 0) else 0)
          in bindI (handleRPC d submit b pathChainID) (\<lambda>resp. ret (200, resp)))"

section \<open>Properties\<close>

lemma digitVal_visible: "digitVal c = Some n \<Longrightarrow> visible c"
  by (auto simp: digitVal_def visible_def isDigit_def isLower_def lowerByte_def isUpper_def Let_def split: if_splits)

lemma digitsVal_visible: "digitsVal b s acc = Some n \<Longrightarrow> c \<in> set s \<Longrightarrow> visible c"
proof (induction s arbitrary: acc)
  case (Cons x s)
  then have "visible x" by (auto intro: digitVal_visible split: option.splits)
  with Cons show ?case by (auto split: option.splits if_splits)
qed simp

lemma ParseInt_TrimSpace: "ParseInt s b = Some n \<Longrightarrow> TrimSpace s = s"
proof -
  assume p: "ParseInt s b = Some n"
  have "visible c" if "c \<in> set s" for c
  proof -
    from p obtain i where "SetString s b = Some i" by (auto simp: ParseInt_def split: option.splits)
    then have "c \<in> set ''-+'' \<or> visible c"
      using that
      by (cases s) (auto simp: SetString_def Let_def dest: digitVal_visible digitsVal_visible split: if_splits option.splits)
    then show ?thesis by (auto simp: visible_def)
  qed
  then show ?thesis by (intro TrimSpace_visible) blast
qed

text \<open>
  C31: the chain id of a request survives its encodings: sent as a JSON number or as a decimal
  string, with surrounding white space or not, any 64-bit chain id is read back.
\<close>

theorem parseChainIDFromParams_roundtrip:
  assumes "in_int64 c" "TrimSpace s = FormatInt c"
  shows "parseChainIDFromParams (a # b # JNum (FormatInt c) # ps) = c
    \<and> parseChainIDFromParams (a # b # JStr s # ps) = c"
proof
  show "parseChainIDFromParams (a # b # JNum (FormatInt c) # ps) = c"
    using assms(1) by (simp add: parseChainIDFromParams_def)
  have "n = c" if p: "ParseInt s 10 = Some n" for n
  proof -
    from ParseInt_TrimSpace [OF p] assms(2) have s: "s = FormatInt c" by simp
    from p assms(1) show ?thesis unfolding s by simp
  qed
  then show "parseChainIDFromParams (a # b # JStr s # ps) = c"
    using FormatInt_not_hex [of c] assms
    by (auto simp: parseChainIDFromParams_def Let_def split: option.splits)
qed

theorem parseChainIDFromParams_roundtrip_witness:
  "parseChainIDFromParams [JNull, JNull, JNum (FormatInt 137)] = 137
   \<and> parseChainIDFromParams [JNull, JNull, JStr '' 137''] = 137"
proof -
  have "TrimSpace '' 137'' = FormatInt 137" by code_simp
  then show ?thesis using parseChainIDFromParams_roundtrip [of 137 "'' 137''" JNull JNull "[]"]
    by (simp add: in_int64_def)
qed

text \<open>A JSON-RPC 2.0 response to the request with the given id.\<close>

definition rpc_wf :: "json option \<Rightarrow> rpcResponse \<Rightarrow> bool" where
  "rpc_wf i r \<longleftrightarrow>
     rs_JSONRPC r = ''2.0'' \<and> rs_ID r = idOf i \<and> (rs_Result r = None) \<noteq> (rs_Error r = None)"

lemma rpc_wf_resp [simp]: "rpc_wf i (errResp i c m)" "rpc_wf i (okResp i r)" "rpc_wf i (txErrorResp g i e)"
  by (auto simp: rpc_wf_def errResp_def okResp_def txErrorResp_def split: option.split)

lemma handleSendUserOp_wf: "rpc_wf (rq_ID req) (fst (handleSendUserOp d sub req c w))"
  by (auto simp: handleSendUserOp_def io_simps split: list.split prod.split option.split sum.split)

text \<open>
  C32: every answer is a JSON-RPC 2.0 response to the request: it carries the version ``2.0''
  and the id of the request (null when there is none), and it has either a result or an error,
  never both or neither.
\<close>

theorem handleRPC_wellformed:
  "rpc_wf (rq_ID (fst (decodeRequest body))) (fst (handleRPC d submit body p w))"
  by (simp add: handleRPC_def Let_def io_simps handleSendUserOp_wf split: prod.split sum.split)

text \<open>
  Only \<open>eth_sendUserOperation\<close> has effects: every other request, malformed ones included,
  is answered without an external call and without changing any state.
\<close>

theorem handleRPC_readonly:
  assumes "rq_Method (fst (decodeRequest body)) \<noteq> ''eth_sendUserOperation''"
  shows "snd (handleRPC d submit body p w) = w"
  using assms by (auto simp: handleRPC_def Let_def io_simps split: prod.split sum.split)

theorem handleRPC_readonly_witness:
  "snd (handleRPC (demo_service offline_ext) (onchainSubmit (demo_service offline_ext)) None 1 demo_world) = demo_world"
  by (rule handleRPC_readonly) (simp add: decodeRequest_def Let_def)

lemma toPacked_no_paymaster: "toPacked g u = Inr p \<Longrightarrow> op_PaymasterAndData p = []"
  by (auto simp: toPacked_def split: if_splits sum.splits)

text \<open>
  C33: a request that is answered with a transaction hash has its operation on chain: the
  operation was decoded from the first parameter, its paymaster data was emptied, and it was
  part of a \<open>handleOps\<close> transaction of at most 50 operations, with that hash, that the node
  reported as mined.
\<close>

theorem sendUserOperation_success:
  assumes "handleRPC d (onchainSubmit d) body path w = (resp, w')"
    and "rq_Method (fst (decodeRequest body)) = ''eth_sendUserOperation''" "rs_Result resp = Some (RString h)"
  shows "\<exists>p uo packed ops. rq_Params (fst (decodeRequest body)) = p # tl (rq_Params (fst (decodeRequest body)))
    \<and> Unmarshal ''userop.UserOperation'' userOpFields p emptyUserOp = (uo, None)
    \<and> toPacked (d_geth d) uo = Inr packed \<and> op_PaymasterAndData packed = []
    \<and> packed \<in> set ops \<and> length ops \<le> maxBatchSize \<and> mined_in (new_events w w') ops h"
proof -
  obtain req err where dr: "decodeRequest body = (req, err)" by fastforce
  with assms obtain ch where hs: "handleSendUserOp d (onchainSubmit d) req ch w = (resp, w')"
    by (auto simp: handleRPC_def Let_def io_simps errResp_def split: if_splits sum.splits)
  from hs assms(3) obtain p ps uo where 1: "rq_Params req = p # ps"
    "Unmarshal ''userop.UserOperation'' userOpFields p emptyUserOp = (uo, None)"
    by (auto simp: handleSendUserOp_def io_simps errResp_def split: list.splits prod.splits option.splits)
  with hs assms(3) obtain packed where 2: "toPacked (d_geth d) uo = Inr packed"
    by (auto simp: handleSendUserOp_def io_simps errResp_def split: sum.splits)
  obtain h' e u where en: "Enqueue d (onchainSubmit d) ch packed w = ((h', e), u)" by (metis surj_pair)
  with hs assms(3) 1 2 have "e = None" "h' = h" "u = w'"
    by (auto simp: handleSendUserOp_def io_simps okResp_def txErrorResp_def errResp_def split: option.splits)
  with Enqueue_mined [of d ch packed w h w'] en obtain ops
    where "packed \<in> set ops" "length ops \<le> maxBatchSize" "mined_in (new_events w w') ops h" by blast
  with 1 2 dr toPacked_no_paymaster [OF 2] show ?thesis by auto
qed

text \<open>A request with one operation.\<close>

definition demo_request :: json where
  "demo_request = JObj [(''method'', JStr ''eth_sendUserOperation''),
     (''params'', JArr [JObj [(''sender'', JStr (replicate 42 (CHR ''a'')))]])]"

theorem sendUserOperation_success_witness:
  "\<exists>resp w' ops packed. handleRPC (demo_service (mining_ext 1)) (onchainSubmit (demo_service (mining_ext 1)))
       (Some demo_request) 1 (demo_world\<lparr>chains := [1 \<mapsto> [\<lparr>priv = 1, addr = 1\<rparr>]]\<rparr>) = (resp, w')
     \<and> packed \<in> set ops
     \<and> mined_in (new_events (demo_world\<lparr>chains := [1 \<mapsto> [\<lparr>priv = 1, addr = 1\<rparr>]]\<rparr>) w') ops ''0xaa''"
proof -
  let ?d = "demo_service (mining_ext 1)" and ?w = "demo_world\<lparr>chains := [1 \<mapsto> [\<lparr>priv = 1, addr = 1\<rparr>]]\<rparr>"
  let ?op = "JObj [(''sender'', JStr (replicate 42 (CHR ''a'')))]"
  have dr: "decodeRequest (Some demo_request) = (\<lparr>rq_ID = None, rq_Method = ''eth_sendUserOperation'', rq_Params = [?op]\<rparr>, None)"
    by (simp add: decodeRequest_def demo_request_def Unmarshal_def requestFields_def decodeStep_def EqualFold_def
        decString_def lowerByte_def isUpper_def Let_def)
  have un: "Unmarshal ''userop.UserOperation'' userOpFields ?op emptyUserOp
      = (emptyUserOp\<lparr>Sender := replicate 42 (CHR ''a'')\<rparr>, None)"
    by (simp add: Unmarshal_def userOpFields_def decodeStep_def EqualFold_def decString_def)
  obtain packed where pk: "toPacked (d_geth ?d) (emptyUserOp\<lparr>Sender := replicate 42 (CHR ''a'')\<rparr>) = Inr packed"
    by (simp add: toPacked_def demo_service_def opaque_geth_def emptyUserOp_def ParseHexBytes_def)
  obtain u where en: "Enqueue ?d (onchainSubmit ?d) 1 packed ?w = ((''0xaa'', None), u)"
    using Enqueue_demo by blast
  have run: "handleRPC ?d (onchainSubmit ?d) (Some demo_request) 1 ?w = (okResp None (RString ''0xaa''), u)"
    using un pk en
    by (simp add: handleRPC_def dr handleSendUserOp_def parseChainIDFromParams_def ResolveChainID_def io_simps Let_def)
  from sendUserOperation_success [OF run, of "''0xaa''"] run show ?thesis
    by (auto simp: dr okResp_def)
qed

text \<open>
  A failed submission is reported with the classification of the error: a non-zero code,
  and in the data the category with the retry flag and the code that the error contract gives
  that category.
\<close>

theorem txErrorResp_contract:
  "\<exists>er ed. rs_Error (txErrorResp g i e) = Some er \<and> rs_Result (txErrorResp g i e) = None
     \<and> re_Code er \<noteq> 0 \<and> re_Data er = Some ed
     \<and> ed_retryable ed = snd (contract_row (ed_category ed)) \<and> contract_code (ed_category ed) (ed_code ed)"
proof -
  obtain n where "Normalize g (Some e) = Some n" "(n_Status n, n_Retryable n) = contract_row (n_Category n)"
    "contract_code (n_Category n) (n_Code n)" using Normalize_rows by blast
  then show ?thesis by (auto simp: txErrorResp_def) (metis snd_conv)+
qed

end
