(* ===== verification/UserOpFee.thy ===== *)
theory UserOpFee
  imports Core
begin

text \<open>
  \<open>internal/transfer/gas.go\<close>: the fee fields of a user operation, from the environment or from
  the node. The environment values go through \<open>strconv.ParseFloat\<close>, which is modelled with its
  whole syntax: signs, digit separators, hexadecimal mantissas, infinities and NaN.
\<close>

section \<open>strconv.ParseFloat\<close>

datatype go_float = FFin f64 | FInf bool | FNaN

definition isFloatDigit :: "nat \<Rightarrow> char \<Rightarrow> bool" where
  "isFloatDigit base c \<longleftrightarrow> isDigit c \<or> (base = 16 \<and> lowerByte c \<in> set ''abcdef'')"

text \<open>The mantissa: its digits, the number of digits after the point if there is one, the rest.\<close>

fun readMantissa :: "nat \<Rightarrow> string \<Rightarrow> string \<Rightarrow> nat option \<Rightarrow> string \<times> nat option \<times> string" where
  "readMantissa base [] ds fr = (ds, fr, [])"
| "readMantissa base (c # s) ds fr =
     (if c = CHR ''_'' then readMantissa base s ds fr
      else if c = CHR ''.'' \<and> fr = None then readMantissa base s ds (Some 0)
      else if isFloatDigit base c then readMantissa base s (ds @ [c]) (map_option Suc fr)
      else (ds, fr, c # s))"

text \<open>The digits of an exponent, which stops growing at 10000.\<close>

fun readExpDigits :: "string \<Rightarrow> nat \<Rightarrow> nat option" where
  "readExpDigits [] e = Some e"
| "readExpDigits (c # s) e =
     (if c = CHR ''_'' then readExpDigits s e
      else case digitVal c of
        Some v \<Rightarrow> if isDigit c then readExpDigits s (if e < 10000 then e * 10 + v else e) else None
      | None \<Rightarrow> None)"

definition readExponent :: "string \<Rightarrow> int option" where
  "readExponent s =
     (let neg = prefix ''-'' s;
          s = (if prefix ''+'' s \<or> neg then tl s else s)
      in if s = [] \<or> \<not> isDigit (hd s) then None
         else map_option (\<lambda>e. if neg then - int e else int e) (readExpDigits s 0))"

text \<open>\<open>underscoreOK\<close>: an underscore stands between digits, or after the base prefix.\<close>

fun separated :: "bool \<Rightarrow> char \<Rightarrow> string \<Rightarrow> bool" where
  "separated hex saw [] \<longleftrightarrow> saw \<noteq> CHR ''_''"
| "separated hex saw (c # s) \<longleftrightarrow>
     (if isFloatDigit (if hex then 16 else 10) c then separated hex (CHR ''0'') s
      else if c = CHR ''_'' then saw = CHR ''0'' \<and> separated hex c s
      else saw \<noteq> CHR ''_'' \<and> separated hex (CHR ''!'') s)"

definition underscoreOK :: "string \<Rightarrow> bool" where
  "underscoreOK s =
     (let s = (if prefix ''-'' s \<or> prefix ''+'' s then tl s else s) in
      if 2 \<le> length s \<and> s ! 0 = CHR ''0'' \<and> lowerByte (s ! 1) \<in> set ''box''
      then separated (lowerByte (s ! 1) = CHR ''x'') (CHR ''0'') (drop 2 s)
      else separated False (CHR ''^'') s)"

text \<open>
  The sign, the mantissa's digits as a number, the base they are scaled with (ten, or two for a
  hexadecimal mantissa) and the scale.
\<close>

definition readFloat :: "string \<Rightarrow> (bool \<times> nat \<times> nat \<times> int) option" where
  "readFloat s0 =
     (let neg = prefix ''-'' s0;
          s = (if neg \<or> prefix ''+'' s0 then tl s0 else s0);
          hex = (2 < length s \<and> s ! 0 = CHR ''0'' \<and> lowerByte (s ! 1) = CHR ''x'');
          base = (if hex then 16 else 10);
          (ds, fr, rest) = readMantissa base (if hex then drop 2 s else s) [] None;
          frac = (case fr of Some n \<Rightarrow> int n | None \<Rightarrow> 0);
          ex = (case rest of
              [] \<Rightarrow> if hex then None else Some 0
            | c # r \<Rightarrow> if lowerByte c = (if hex then CHR ''p'' else CHR ''e'') then readExponent r else None)
      in if ds = [] \<or> (CHR ''_'' \<in> set s0 \<and> \<not> underscoreOK s0) then None
         else case (ex, digitsVal base ds 0) of
           (Some e, Some m) \<Rightarrow> Some (neg, m, if hex then 2 else 10, e - (if hex then 4 * frac else frac))
         | _ \<Rightarrow> None)"

definition special :: "string \<Rightarrow> go_float option" where
  "special s =
     (let neg = prefix ''-'' s;
          u = map lowerByte (if neg \<or> prefix ''+'' s then tl s else s)
      in if u = ''inf'' \<or> u = ''infinity'' then Some (FInf neg)
         else if map lowerByte s = ''nan'' then Some FNaN
         else None)"

text \<open>\<open>None\<close> is an error: a syntax error, or a value out of range.\<close>

definition strconv_ParseFloat :: "string \<Rightarrow> go_float option" where
  "strconv_ParseFloat s =
     (case special s of
        Some x \<Rightarrow> Some x
      | None \<Rightarrow>
          (case readFloat s of
             None \<Rightarrow> None
           | Some (neg, m, b, e) \<Rightarrow>
               map_option FFin (if 0 \<le> e then f64_round neg (m * b ^ nat e) 1 else f64_round neg m (b ^ nat (- e)))))"

section \<open>gas.go\<close>

definition userOpMinMaxFeeWei :: "int64 \<rightharpoonup> int" where
  "userOpMinMaxFeeWei = [11155111 \<mapsto> Gwei 500, 43113 \<mapsto> Gwei 500, 56357 \<mapsto> Gwei 500]"

definition userOpMinPriorityFeeWei :: "int64 \<rightharpoonup> int" where
  "userOpMinPriorityFeeWei = [11155111 \<mapsto> Gwei 50, 43113 \<mapsto> Gwei 50, 56357 \<mapsto> Gwei 50]"

text \<open>
  The multiplication rounds to \<open>float64\<close>; \<open>big.Float.Int\<close> truncates, and leaves the zero it was
  given when the product is infinite. \<open>big.NewFloat\<close> panics on NaN.
\<close>

definition parseUserOpGweiEnv :: "deps \<Rightarrow> string \<Rightarrow> go_error + int option" where
  "parseUserOpGweiEnv d name =
     (let raw = TrimSpace (d_getenv d name) in
      if raw = [] then Inr None
      else case strconv_ParseFloat raw of
        None \<Rightarrow> Inr None
      | Some FNaN \<Rightarrow> Inl (GoPanic ''NewFloat(NaN)'')
      | Some (FInf neg) \<Rightarrow> Inr (if neg then None else Some 1)
      | Some (FFin f) \<Rightarrow>
          if f_neg f \<or> f_mant f = 0 then Inr None
          else let wei = (case f64_round False (f_mant f * 2 ^ f_exp f * 10 ^ 9) (2 ^ 1074) of
                     None \<Rightarrow> 0
                   | Some p \<Rightarrow> int (f_mant p * 2 ^ f_exp p div 2 ^ 1074))
               in Inr (Some (if wei \<le> 0 then 1 else wei)))"

definition applySepoliaFujiKcpFloor :: "int64 \<Rightarrow> int \<Rightarrow> int \<Rightarrow> int \<times> int" where
  "applySepoliaFujiKcpFloor chainID maxF maxP =
     (case userOpMinMaxFeeWei chainID of
        None \<Rightarrow> (maxF, maxP)
      | Some minMax \<Rightarrow>
          let minPri = (case userOpMinPriorityFeeWei chainID of Some p \<Rightarrow> p | None \<Rightarrow> 0);
              maxF = (if maxF < minMax then minMax else maxF);
              maxP = (if maxP < minPri then minPri else maxP);
              maxP = (if maxF < maxP then (let half = maxF div 2 in if 0 < half then half else minPri) else maxP)
          in (maxF, maxP))"

definition firstBig :: "int option \<Rightarrow> int option \<Rightarrow> int option" where
  "firstBig a b = (case a of Some v \<Rightarrow> Some v | None \<Rightarrow> b)"

text \<open>The two environment lookups of a fee, both of which are evaluated.\<close>

definition envFee :: "deps \<Rightarrow> string \<Rightarrow> int64 \<Rightarrow> go_error + int option" where
  "envFee d name chainID =
     (case parseUserOpGweiEnv d (name @ ''_'' @ FormatInt chainID) of
        Inl e \<Rightarrow> Inl e
      | Inr a \<Rightarrow> (case parseUserOpGweiEnv d name of Inl e \<Rightarrow> Inl e | Inr b \<Rightarrow> Inr (firstBig a b)))"

definition errPriorityGtMax :: go_error where
  "errPriorityGtMax =
     errorsNew ''USEROP_MAX_PRIORITY_FEE_PER_GAS_GWEI must be <= USEROP_MAX_FEE_PER_GAS_GWEI''"

text \<open>The part after the environment, on the fees the node gives.\<close>

definition providerFee :: "int64 \<Rightarrow> Fees \<Rightarrow> int \<times> int" where
  "providerFee chainID fees =
     (let legacy =
            (case GasPrice fees of
               Some gp \<Rightarrow>
                 if 0 < gp then applySepoliaFujiKcpFloor chainID (gp * 2) gp
                 else if userOpMinMaxFeeWei chainID \<noteq> None then (Gwei 2000, Gwei 100)
                 else (Gwei 150, Gwei 5)
             | None \<Rightarrow> if userOpMinMaxFeeWei chainID \<noteq> None then (Gwei 2000, Gwei 100) else (Gwei 150, Gwei 5))
      in case (MaxFee fees, MaxPriority fees) of
           (Some maxF, Some maxP) \<Rightarrow>
             if 0 < maxF \<and> 0 < maxP
             then applySepoliaFujiKcpFloor chainID maxF (if maxF < maxP then maxF div 2 else maxP)
             else legacy
         | _ \<Rightarrow> legacy)"

definition userOpMaxFeeFields :: "deps \<Rightarrow> client \<Rightarrow> int64 \<Rightarrow> (int \<times> int) weio" where
  "userOpMaxFeeFields d c chainID =
     (case envFee d ''USEROP_MAX_FEE_PER_GAS_GWEI'' chainID of
        Inl e \<Rightarrow> failE e
      | Inr envMax \<Rightarrow>
          (case envFee d ''USEROP_MAX_PRIORITY_FEE_PER_GAS_GWEI'' chainID of
             Inl e \<Rightarrow> failE e
           | Inr envPri \<Rightarrow>
               (case (envMax, envPri) of
                  (Some m, Some p) \<Rightarrow> if m < p then failE errPriorityGtMax else retE (m, p)
                | _ \<Rightarrow> bindE (FeeFromProvider d c) (\<lambda>fees. retE (providerFee chainID fees)))))"

section \<open>Bounds\<close>

lemma floor_bounds:
  assumes "0 < maxP" "maxP \<le> maxF" "applySepoliaFujiKcpFloor ch maxF maxP = (f, p)"
  shows "0 < p \<and> p \<le> f"
    and "userOpMinMaxFeeWei ch = Some m \<Longrightarrow> m \<le> f"
    and "userOpMinPriorityFeeWei ch = Some m' \<Longrightarrow> m' \<le> p"
  using assms
  by (auto simp: applySepoliaFujiKcpFloor_def userOpMinMaxFeeWei_def userOpMinPriorityFeeWei_def Gwei_def Let_def
      split: if_splits option.splits)

lemma parseUserOpGweiEnv_pos: "parseUserOpGweiEnv d n = Inr (Some v) \<Longrightarrow> 0 < v"
  by (auto simp: parseUserOpGweiEnv_def Let_def split: if_splits option.splits go_float.splits)

lemma parseUserOpGweiEnv_panic: "parseUserOpGweiEnv d n = Inl e \<Longrightarrow> e = GoPanic ''NewFloat(NaN)''"
  by (auto simp: parseUserOpGweiEnv_def Let_def split: if_splits option.splits go_float.splits)

lemma envFee_pos: "envFee d n ch = Inr (Some v) \<Longrightarrow> 0 < v"
  by (auto simp: envFee_def firstBig_def dest: parseUserOpGweiEnv_pos split: sum.splits option.splits)

lemma envFee_panic: "envFee d n ch = Inl e \<Longrightarrow> e = GoPanic ''NewFloat(NaN)''"
  by (auto simp: envFee_def dest: parseUserOpGweiEnv_panic split: sum.splits)

lemma providerFee_bounds:
  assumes "fees_ok fees" "providerFee ch fees = (f, p)"
  shows "0 < p \<and> p \<le> f \<and> (\<forall>m. userOpMinMaxFeeWei ch = Some m \<longrightarrow> m \<le> f)
    \<and> (\<forall>m. userOpMinPriorityFeeWei ch = Some m \<longrightarrow> m \<le> p)"
proof (cases "MaxFee fees")
  case None
  with assms(1) obtain gp where gp: "GasPrice fees = Some gp" "0 < gp"
    by (auto simp: fees_ok_def split: option.splits)
  with None assms(2) have "applySepoliaFujiKcpFloor ch (gp * 2) gp = (f, p)"
    by (simp add: providerFee_def)
  from floor_bounds [OF _ _ this] gp show ?thesis by auto
next
  case (Some m)
  with assms(1) obtain q where q: "MaxPriority fees = Some q" "Gwei 2 \<le> q" "q \<le> m"
    by (auto simp: fees_ok_def split: option.splits)
  then have "0 < q" by (simp add: Gwei_def)
  with Some q assms(2) have "applySepoliaFujiKcpFloor ch m q = (f, p)"
    by (simp add: providerFee_def)
  from floor_bounds [OF \<open>0 < q\<close> q(3) this] show ?thesis by auto
qed

lemma asks_userOpMaxFeeFields: "asks query (userOpMaxFeeFields d c ch)"
  unfolding userOpMaxFeeFields_def by (auto intro!: asks_bindE split: sum.split option.split)

lemma userOpMaxFeeFields_cases:
  assumes "userOpMaxFeeFields d c ch w = (r, w')"
  obtains (env) f p where "r = Inr (f, p)" "w' = w" "0 < p" "p \<le> f"
    "envFee d ''USEROP_MAX_FEE_PER_GAS_GWEI'' ch = Inr (Some f)"
    "envFee d ''USEROP_MAX_PRIORITY_FEE_PER_GAS_GWEI'' ch = Inr (Some p)"
  | (node) fees m q where "r = Inr (providerFee ch fees)" "fees_ok fees"
    "envFee d ''USEROP_MAX_FEE_PER_GAS_GWEI'' ch = Inr m"
    "envFee d ''USEROP_MAX_PRIORITY_FEE_PER_GAS_GWEI'' ch = Inr q" "m = None \<or> q = None"
  | (order) "r = Inl errPriorityGtMax" "w' = w"
  | (panic) "r = Inl (GoPanic ''NewFloat(NaN)'')" "w' = w"
proof -
  obtain fees u where fees: "FeeFromProvider d c w = (Inr fees, u)" "fees_ok fees"
    using FeeFromProvider_ok by blast
  show thesis
  proof (cases "envFee d ''USEROP_MAX_FEE_PER_GAS_GWEI'' ch")
    case (Inl e)
    with assms envFee_panic [OF Inl] panic show ?thesis by (simp add: userOpMaxFeeFields_def)
  next
    case m: (Inr mo)
    show ?thesis
    proof (cases "envFee d ''USEROP_MAX_PRIORITY_FEE_PER_GAS_GWEI'' ch")
      case (Inl e)
      with m assms envFee_panic [OF Inl] panic show ?thesis by (simp add: userOpMaxFeeFields_def)
    next
      case p: (Inr po)
      show ?thesis
      proof (cases "mo = None \<or> po = None")
        case True
        with m p assms fees node [OF _ fees(2) m p True] show ?thesis
          by (auto simp: userOpMaxFeeFields_def bindE_def split: option.splits)
      next
        case False
        then obtain mv pv where mv: "mo = Some mv" "po = Some pv" by (cases mo; cases po) auto
        with m p assms order env [of mv pv] envFee_pos [of d _ ch pv] show ?thesis
          by (auto simp: userOpMaxFeeFields_def split: if_splits)
      qed
    qed
  qed
qed


lemma userOpMaxFeeFields_offline:
  "\<exists>w'. userOpMaxFeeFields (demo_deps offline_ext False) c 43113 init_world = (Inr (Gwei 500, Gwei 50), w')
     \<and> trace w' \<noteq> trace init_world"
  by (simp add: userOpMaxFeeFields_def envFee_def parseUserOpGweiEnv_def firstBig_def FeeFromProvider_def
      legacyFees_def offline_ext_def demo_deps_def io_simps providerFee_def applySepoliaFujiKcpFloor_def
      userOpMinMaxFeeWei_def userOpMinPriorityFeeWei_def Gwei_def Let_def)


section \<open>Reading a fee from the environment\<close>

lemma f64_round_scale: "0 < c \<Longrightarrow> f64_round neg (n * c) (d * c) = f64_round neg n d"
proof -
  assume c: "0 < c"
  have 1: "n * c * 2 ^ E div (d * c) = n * 2 ^ E div d" for E :: nat
    using c by (metis div_mult_mult2 mult.assoc mult.commute nat_neq_iff)
  have 2: "roundHalfEven (n * c * 2 ^ E) (d * c * 2 ^ k) = roundHalfEven (n * 2 ^ E) (d * 2 ^ k)" for E k :: nat
    using roundHalfEven_scale [OF c, of "n * 2 ^ E" "d * 2 ^ k"] by (simp only: mult_ac)
  show ?thesis unfolding f64_round_def Let_def 1 2 ..
qed

lemma f64_round_neg: "f64_round neg n d = Some f \<Longrightarrow> f_neg f = neg"
proof -
  have "(let (m', k') = mk in if 2045 < k' then None else Some \<lparr>f_neg = neg, f_mant = m', f_exp = k'\<rparr>) = Some f
      \<Longrightarrow> f_neg f = neg" for mk
    by (auto split: if_splits prod.splits)
  then show "f64_round neg n d = Some f \<Longrightarrow> f_neg f = neg" unfolding f64_round_def Let_def by fast
qed

text \<open>A positive integral value, scaled by the exponent of the smallest number.\<close>

lemma f64_int_value:
  assumes "f64_int f = Some (int n)" "\<not> f_neg f"
  shows "f_mant f * 2 ^ f_exp f = n * 2 ^ 1074"
proof -
  have "E dvd v \<and> v div E = n \<Longrightarrow> v = n * E" for E v :: nat by auto
  moreover have "2 ^ 1074 dvd f_mant f * 2 ^ f_exp f \<and> f_mant f * 2 ^ f_exp f div 2 ^ 1074 = n"
    using assms unfolding f64_int_def Let_def
    by (simp only: if_False mult_1 option.inject of_nat_eq_iff split: if_split_asm) simp_all
  ultimately show ?thesis by blast
qed

lemma digit_facts: "isDigit c \<Longrightarrow> c \<noteq> CHR ''_'' \<and> c \<noteq> CHR ''.'' \<and> c \<noteq> CHR ''-'' \<and> c \<noteq> CHR ''+'' \<and> c \<noteq> CHR ''x'' \<and> lowerByte c = c"
  by (auto simp: isDigit_def lowerByte_def isUpper_def)

lemma readMantissa_digits:
  "(\<And>c. c \<in> set s \<Longrightarrow> isDigit c) \<Longrightarrow> readMantissa b s ds None = (ds @ s, None, [])"
proof (induction s arbitrary: ds)
  case (Cons c s)
  then have c: "isDigit c" by simp
  from Cons.IH [of "ds @ [c]"] Cons.prems c digit_facts [OF c] show ?case by (simp add: isFloatDigit_def)
qed simp

lemma readFloat_decNat: "readFloat (decNat n) = Some (False, n, 10, 0)"
proof -
  let ?s = "decNat n"
  have d: "c \<in> set ?s \<Longrightarrow> isDigit c" for c by (rule decNat_digits)
  have nosign: "prefix ''-'' ?s = False" "prefix ''+'' ?s = False" by (simp_all add: decNat_no_sign)
  have "lowerByte (?s ! 1) \<noteq> CHR ''x''" if "2 < length ?s"
    using digit_facts [OF d, of "?s ! 1"] that by auto
  then have nohex: "(2 < length ?s \<and> ?s ! 0 = CHR ''0'' \<and> lowerByte (?s ! 1) = CHR ''x'') = False" by blast
  have nound: "CHR ''_'' \<notin> set ?s" using d digit_facts by blast
  have m: "readMantissa 10 ?s [] None = (?s, None, [])" using readMantissa_digits [OF d] by simp
  show ?thesis
    unfolding readFloat_def nosign nohex Let_def if_False simp_thms m
    using nound by (simp add: digitsVal_decNat)
qed

lemma special_decNat: "special (decNat n) = None"
proof -
  let ?s = "decNat n"
  have l: "map lowerByte ?s = ?s"
    by (rule map_idI) (use digit_facts decNat_digits in blast)
  have h: "isDigit (hd ?s)" using decNat_digits [of "hd ?s" n] by simp
  then have "?s \<noteq> ''inf''" "?s \<noteq> ''infinity''" "?s \<noteq> ''nan''" by (auto simp: isDigit_def)
  then show ?thesis using decNat_no_sign [of n] by (simp add: special_def Let_def l)
qed

text \<open>
  A fee given in the environment as a whole number of gwei is used exactly, up to 9007199
  gwei, with or without surrounding white space.
\<close>

theorem parseUserOpGweiEnv_exact:
  assumes "TrimSpace (d_getenv d name) = FormatInt n" "0 < n" "n \<le> 9007199"
  shows "parseUserOpGweiEnv d name = Inr (Some (n * 10 ^ 9))"
proof -
  define k where "k = nat n"
  have k: "n = int k" "0 < k" "k \<le> 2 ^ 53" "k * 10 ^ 9 \<le> 2 ^ 53" using assms by (auto simp: k_def)
  have raw: "TrimSpace (d_getenv d name) = decNat k" using assms(1) k by (simp add: FormatInt_def)
  obtain f where f: "f64_round False k 1 = Some f" "f64_int f = Some (int k)"
    using f64_round_small [OF k(3), of False] by auto
  then have neg: "\<not> f_neg f" using f64_round_neg by blast
  have pf: "strconv_ParseFloat (decNat k) = Some (FFin f)"
    using f(1) by (simp add: strconv_ParseFloat_def special_decNat readFloat_decNat)
  have v: "f_mant f * 2 ^ f_exp f = k * 2 ^ 1074" by (rule f64_int_value [OF f(2) neg])
  obtain p where p: "f64_round False (k * 10 ^ 9) 1 = Some p" "f64_int p = Some (int (k * 10 ^ 9))"
    using f64_round_small [OF k(4), of False] by auto
  then have negp: "\<not> f_neg p" using f64_round_neg by blast
  have w: "int (f_mant p * 2 ^ f_exp p div 2 ^ 1074) = int (k * 10 ^ 9)"
    unfolding f64_int_value [OF p(2) negp] by (subst nonzero_mult_div_cancel_right) simp_all
  have "f_mant f * 2 ^ f_exp f * 10 ^ 9 = k * 10 ^ 9 * 2 ^ 1074" unfolding v by (simp only: mult_ac)
  moreover have "f64_round False (k * 10 ^ 9 * 2 ^ 1074) (1 * 2 ^ 1074) = f64_round False (k * 10 ^ 9) 1"
    by (rule f64_round_scale) (rule zero_less_power, simp)
  ultimately have r: "f64_round False (f_mant f * 2 ^ f_exp f * 10 ^ 9) (2 ^ 1074) = Some p"
    unfolding mult_1 p by (simp only:)
  have "f_mant f \<noteq> 0" using v k(2) by (metis mult_0 mult_is_0 not_less_zero power_not_zero zero_neq_numeral)
  with neg k(1,2) show ?thesis
    unfolding parseUserOpGweiEnv_def raw Let_def pf option.case go_float.case r w by simp
qed

theorem parseUserOpGweiEnv_exact_witness:
  "parseUserOpGweiEnv ((demo_deps offline_ext False)\<lparr>d_getenv := \<lambda>_. '' 30 ''\<rparr>) ''USEROP_MAX_FEE_PER_GAS_GWEI''
     = Inr (Some 30000000000)"
proof -
  have "TrimSpace '' 30 '' = FormatInt 30" by code_simp
  then show ?thesis
    using parseUserOpGweiEnv_exact [of "(demo_deps offline_ext False)\<lparr>d_getenv := \<lambda>_. '' 30 ''\<rparr>" _ 30] by simp
qed

text \<open>
  The value \<open>nan\<close> in the environment panics, and \<open>inf\<close> or a value too large for the product
  becomes a fee of 1 wei.
\<close>

lemma parseUserOpGweiEnv_special:
  "parseUserOpGweiEnv ((demo_deps offline_ext False)\<lparr>d_getenv := \<lambda>_. ''nan''\<rparr>) n = Inl (GoPanic ''NewFloat(NaN)'')"
  "parseUserOpGweiEnv ((demo_deps offline_ext False)\<lparr>d_getenv := \<lambda>_. ''inf''\<rparr>) n = Inr (Some 1)"
proof -
  have t: "TrimSpace ''nan'' = ''nan''" "TrimSpace ''inf'' = ''inf''" by code_simp+
  have "strconv_ParseFloat ''nan'' = Some FNaN" "strconv_ParseFloat ''inf'' = Some (FInf False)"
    by (simp_all add: strconv_ParseFloat_def special_def lowerByte_def isUpper_def Let_def)
  then show "parseUserOpGweiEnv ((demo_deps offline_ext False)\<lparr>d_getenv := \<lambda>_. ''nan''\<rparr>) n = Inl (GoPanic ''NewFloat(NaN)'')"
    "parseUserOpGweiEnv ((demo_deps offline_ext False)\<lparr>d_getenv := \<lambda>_. ''inf''\<rparr>) n = Inr (Some 1)"
    by (simp_all add: parseUserOpGweiEnv_def t Let_def)
qed

end
