(* ===== verification/Transfers.thy ===== *)
theory Transfers
  imports UserOpFee Batcher
begin

text \<open>
  \<open>internal/transfer\<close>: transfers of the native coin and of ERC-20 tokens, either from one of the
  two server wallets (\<open>source: wallet\<close>) or from a contract account by a user operation that both
  server keys sign (\<open>source: account\<close>). The fee fields of that operation are in
  \<open>UserOpFee\<close>.
\<close>

section \<open>account.go\<close>

text \<open>
  \<open>abi_Pack\<close> takes the name of the argument list or of the contract and method:
  \<open>digestArgs\<close> is \<open>(address, uint256, address, uint256, bytes32)\<close>, \<open>account.executeWithSignatures\<close>
  and \<open>erc20.transfer\<close> are the methods of the two JSON ABIs.
\<close>

definition getDigest :: "geth \<Rightarrow> address \<Rightarrow> int \<Rightarrow> address \<Rightarrow> int \<Rightarrow> bytes \<Rightarrow> go_error + bytes" where
  "getDigest g account nonce dest value data =
     (let dataHash = copy32 (crypto_Keccak256 g data) in
      case abi_Pack g ''digestArgs'' [VAddress account, VUint nonce, VAddress dest, VUint value, VBytes32 dataHash] of
        Inl e \<Rightarrow> Inl e
      | Inr enc \<Rightarrow> Inr (accounts_TextHash g (crypto_Keccak256 g enc)))"

definition sign65 :: "geth \<Rightarrow> bytes \<Rightarrow> privkey \<Rightarrow> go_error + bytes" where
  "sign65 g digest k =
     (case crypto_Sign g digest k of Inl e \<Rightarrow> Inl e | Inr sig \<Rightarrow> Inr (sig[64 := sig ! 64 + 27]))"

section \<open>send.go\<close>

record Result =
  TxHash :: string
  From :: string

definition resolveSourceWallet :: "deps \<Rightarrow> address \<Rightarrow> string \<Rightarrow> Account weio" where
  "resolveSourceWallet d src method =
     bindE (ServerKey1 d) (\<lambda>s1. bindE (ServerKey2 d) (\<lambda>s2.
       if src = addr s1 then retE s1
       else if src = addr s2 then retE s2
       else failE (errorsNew (method @ '': from must match server_key1 or server_key2 EOA''))))"

definition signAndSend ::
  "deps \<Rightarrow> client \<Rightarrow> int64 \<Rightarrow> Account \<Rightarrow> address \<Rightarrow> int option \<Rightarrow> bytes \<Rightarrow> uint64 \<Rightarrow> Fees
     \<Rightarrow> (txhash \<times> go_error option) wio" where
  "signAndSend d c chainID acc dest value data gasLimit fees =
     bindI (extcall (\<lambda>t. x_PendingNonceAt (d_ext d) t c (addr acc)) (EvPendingNonceAt c (addr acc))) (\<lambda>n.
       case n of
         Inl e \<Rightarrow> ret ([], Some e)
       | Inr nonce \<Rightarrow>
           SignAndSend d c chainID (priv acc) nonce dest (case value of Some v \<Rightarrow> v | None \<Rightarrow> 0) data gasLimit fees)"

text \<open>The critical section of a wallet transfer; the two callers differ in the message and gas bounds.\<close>

definition walletTx ::
  "deps \<Rightarrow> client \<Rightarrow> int64 \<Rightarrow> Account \<Rightarrow> callmsg \<Rightarrow> uint64 \<Rightarrow> uint64 \<Rightarrow> int \<Rightarrow> (txhash \<times> go_error option) wio" where
  "walletTx d c chainID acc msg minGas fallback value =
     bindI (FeeFromProvider d c) (\<lambda>f. case f of
       Inl e \<Rightarrow> ret ([], Some e)
     | Inr fees \<Rightarrow>
         bindI (EstimateGas d c msg minGas 2000000 fallback) (\<lambda>gasLimit.
           signAndSend d c chainID acc (msg_To msg) (Some value) (msg_Data msg) gasLimit fees))"

definition SendNative :: "deps \<Rightarrow> int64 \<Rightarrow> address \<Rightarrow> address \<Rightarrow> int \<Rightarrow> Result weio" where
  "SendNative d chainID src dest value =
     bindE (resolveSourceWallet d src ''sendNative'') (\<lambda>acc.
     bindE (Client d chainID) (\<lambda>c.
     bindI (WithNonceLock d (NonceLockKey chainID (address_Hex (d_geth d) (addr acc))) []
              (walletTx d c chainID acc \<lparr>msg_From = addr acc, msg_To = dest, msg_Value = Some value, msg_Data = []\<rparr>
                 21000 200000 value))
       (\<lambda>(hash, err). case err of
          Some e \<Rightarrow> failE e
        | None \<Rightarrow> retE \<lparr>TxHash = hash, From = address_Hex (d_geth d) (addr acc)\<rparr>)))"

definition SendErc20 :: "deps \<Rightarrow> int64 \<Rightarrow> address \<Rightarrow> address \<Rightarrow> address \<Rightarrow> int \<Rightarrow> Result weio" where
  "SendErc20 d chainID src token dest amount =
     bindE (resolveSourceWallet d src ''sendErc20'') (\<lambda>acc.
     bindE (Client d chainID) (\<lambda>c.
     bindE (liftE (abi_Pack (d_geth d) ''erc20.transfer'' [VAddress dest, VUint amount])) (\<lambda>data.
     bindI (WithNonceLock d (NonceLockKey chainID (address_Hex (d_geth d) (addr acc))) []
              (walletTx d c chainID acc \<lparr>msg_From = addr acc, msg_To = token, msg_Value = None, msg_Data = data\<rparr>
                 55000 250000 0))
       (\<lambda>(hash, err). case err of
          Some e \<Rightarrow> failE e
        | None \<Rightarrow> retE \<lparr>TxHash = hash, From = address_Hex (d_geth d) (addr acc)\<rparr>))))"

definition accountLockKey :: "int64 \<Rightarrow> string \<Rightarrow> string" where
  "accountLockKey chainID address = ''nonce:'' @ FormatInt chainID @ '':account:'' @ address"

text \<open>
  The operation of a withdrawal: the digest signed with both server keys, packed as the call
  of \<open>executeWithSignatures\<close>, with the account's nonce.
\<close>

definition accountOp ::
  "geth \<Rightarrow> Account \<Rightarrow> Account \<Rightarrow> address \<Rightarrow> int \<Rightarrow> address \<Rightarrow> int \<Rightarrow> bytes \<Rightarrow> int \<times> int \<Rightarrow> go_error + PackedUserOp" where
  "accountOp g s1 s2 src nonce dest value data fee =
     (case getDigest g src nonce dest value data of Inl e \<Rightarrow> Inl e | Inr digest \<Rightarrow>
     (case sign65 g digest (priv s1) of Inl e \<Rightarrow> Inl e | Inr sig1 \<Rightarrow>
     (case sign65 g digest (priv s2) of Inl e \<Rightarrow> Inl e | Inr sig2 \<Rightarrow>
     (case abi_Pack g ''account.executeWithSignatures''
             [VAddress dest, VUint value, VBytes data, VList [VBytes sig1, VBytes sig2]] of
        Inl e \<Rightarrow> Inl e
      | Inr callData \<Rightarrow>
          Inr \<lparr>op_Sender = src, op_Nonce = nonce, op_InitCode = [], op_CallData = callData,
               op_CallGasLimit = 1200000, op_VerificationGasLimit = 400000, op_PreVerificationGas = 100000,
               op_MaxFeePerGas = fst fee, op_MaxPriorityFeePerGas = snd fee, op_PaymasterAndData = [],
               op_Signature = []\<rparr>))))"

text \<open>The critical section of a withdrawal.\<close>

definition accountTx ::
  "deps \<Rightarrow> submitFunc \<Rightarrow> client \<Rightarrow> int64 \<Rightarrow> Account \<Rightarrow> Account \<Rightarrow> address \<Rightarrow> address \<Rightarrow> int \<Rightarrow> bytes
     \<Rightarrow> (txhash \<times> go_error option) wio" where
  "accountTx d submit c chainID s1 s2 src dest value data =
     bindI (extcall (\<lambda>t. x_Call (d_ext d) t c src ''nonce'' []) (EvCall c src ''nonce'' [])) (\<lambda>r.
       case r of
         Inl e \<Rightarrow> ret ([], Some e)
       | Inr (VUint nonce) \<Rightarrow>
           bindI (userOpMaxFeeFields d c chainID) (\<lambda>f. case f of
             Inl e \<Rightarrow> ret ([], Some e)
           | Inr fee \<Rightarrow>
               (case accountOp (d_geth d) s1 s2 src nonce dest value data fee of
                  Inl e \<Rightarrow> ret ([], Some e)
                | Inr packed \<Rightarrow> Enqueue d submit chainID packed))
       | Inr v \<Rightarrow> ret ([], Some (errorsNew (''account nonce: unexpected type '' @ goType v))))"

definition sendViaAccount ::
  "deps \<Rightarrow> submitFunc \<Rightarrow> int64 \<Rightarrow> address \<Rightarrow> address \<Rightarrow> int \<Rightarrow> bytes \<Rightarrow> Result weio" where
  "sendViaAccount d submit chainID src dest value data =
     bindE (Client d chainID) (\<lambda>c.
     bindE (ServerKey1 d) (\<lambda>s1.
     bindE (ServerKey2 d) (\<lambda>s2.
     bindI (WithNonceLock d (accountLockKey chainID (address_Hex (d_geth d) src)) []
              (accountTx d submit c chainID s1 s2 src dest value data))
       (\<lambda>(hash, err). case err of
          Some e \<Rightarrow> failE e
        | None \<Rightarrow> retE \<lparr>TxHash = hash, From = address_Hex (d_geth d) src\<rparr>))))"

definition SendViaAccountNative :: "deps \<Rightarrow> submitFunc \<Rightarrow> int64 \<Rightarrow> address \<Rightarrow> address \<Rightarrow> int \<Rightarrow> Result weio" where
  "SendViaAccountNative d submit chainID src dest value = sendViaAccount d submit chainID src dest value []"

definition SendViaAccountErc20 ::
  "deps \<Rightarrow> submitFunc \<Rightarrow> int64 \<Rightarrow> address \<Rightarrow> address \<Rightarrow> address \<Rightarrow> int \<Rightarrow> Result weio" where
  "SendViaAccountErc20 d submit chainID src token dest amount =
     bindE (liftE (abi_Pack (d_geth d) ''erc20.transfer'' [VAddress dest, VUint amount])) (\<lambda>data.
       sendViaAccount d submit chainID src token 0 data)"

section \<open>transfer.go\<close>

record transferBody =
  b_ChainID :: int64
  b_Type :: string
  b_Source :: string
  b_From :: string
  b_To :: string
  b_ValueWei :: any
  b_TokenAddress :: string
  b_Amount :: any

definition emptyTransfer :: transferBody where
  "emptyTransfer = \<lparr>b_ChainID = 0, b_Type = [], b_Source = [], b_From = [], b_To = [], b_ValueWei = ANil,
     b_TokenAddress = [], b_Amount = ANil\<rparr>"

definition transferFields :: "(string \<times> transferBody decoder) list" where
  "transferFields =
    [(''chainId'', decInt64 ''transferBody.chainId'' (\<lambda>v b. b\<lparr>b_ChainID := v\<rparr>)),
     (''type'', decString ''transferBody.type'' (\<lambda>v b. b\<lparr>b_Type := v\<rparr>)),
     (''source'', decString ''transferBody.source'' (\<lambda>v b. b\<lparr>b_Source := v\<rparr>)),
     (''from'', decString ''transferBody.from'' (\<lambda>v b. b\<lparr>b_From := v\<rparr>)),
     (''to'', decString ''transferBody.to'' (\<lambda>v b. b\<lparr>b_To := v\<rparr>)),
     (''valueWei'', decAny ''transferBody.valueWei'' (\<lambda>v b. b\<lparr>b_ValueWei := v\<rparr>)),
     (''tokenAddress'', decString ''transferBody.tokenAddress'' (\<lambda>v b. b\<lparr>b_TokenAddress := v\<rparr>)),
     (''amount'', decAny ''transferBody.amount'' (\<lambda>v b. b\<lparr>b_Amount := v\<rparr>))]"

text \<open>The error text, or the number.\<close>

definition parseBig :: "any \<Rightarrow> bool \<Rightarrow> string + int" where
  "parseBig v positive =
     (if v = ANil then Inl ''value required''
      else case ToBigInt v of
        Inl e \<Rightarrow> Inl (''invalid amount: '' @ err_Error e)
      | Inr n \<Rightarrow>
          if n < 0 then Inl ''amount must be >= 0''
          else if positive \<and> n = 0 then Inl ''amount must be positive''
          else Inr n)"

text \<open>A panic ends the request without a response.\<close>

definition respond :: "geth \<Rightarrow> go_error + Result \<Rightarrow> Result http_response option" where
  "respond g r =
     (case r of
        Inl (GoPanic _) \<Rightarrow> None
      | Inl e \<Rightarrow> Some (WriteTxError g (Some e))
      | Inr res \<Rightarrow> Some (WriteJSON 200 (OkBody res)))"

text \<open>
  \<open>body\<close> is None when what was read of it is not valid JSON. The transfer itself is
  \<open>performTransfer\<close>, on a request that passed the checks of \<open>checkTransfer\<close>.
\<close>

datatype transferReq =
    NativeReq (rq_chain: int64) (rq_source: string) (rq_from: address) (rq_to: address) (rq_value: int)
  | Erc20Req (rq_chain: int64) (rq_source: string) (rq_from: address) (rq_to: address) (rq_token: address) (rq_value: int)

definition checkTransfer :: "deps \<Rightarrow> json option \<Rightarrow> string + transferReq" where
  "checkTransfer d raw =
     (let (body, err) = (case raw of None \<Rightarrow> (emptyTransfer, Some ''invalid JSON'')
                         | Some j \<Rightarrow> Unmarshal ''transfer.transferBody'' transferFields j emptyTransfer) in
      if err \<noteq> None then Inl ''invalid JSON body''
      else case ResolveChainID (registry d) (b_ChainID body) of
        Inl e \<Rightarrow> Inl ''chainId required''
      | Inr chainID \<Rightarrow>
          let typ = ToLower (TrimSpace (b_Type body));
              source = ToLower (TrimSpace (b_Source body));
              dest = TrimSpace (b_To body);
              src = TrimSpace (b_From body)
          in if typ \<noteq> ''native'' \<and> typ \<noteq> ''erc20'' then Inl (''type required: 'native' or 'erc20'' @ [CHR 0x27])
             else if source \<noteq> ''wallet'' \<and> source \<noteq> ''account'' then Inl (''source required: 'wallet' or 'account'' @ [CHR 0x27])
             else if \<not> common_IsHexAddress (d_geth d) dest then Inl ''valid 'to' required''
             else if \<not> common_IsHexAddress (d_geth d) src then
               Inl (''source='' @ source @ '' requires valid 'from' ('' @
                 (if source = ''wallet'' then ''must equal server_key1 or server_key2 EOA'' else ''Account address'') @ '')'')
             else let toAddr = common_HexToAddress (d_geth d) dest;
                      fromAddr = common_HexToAddress (d_geth d) src
                  in if typ = ''native'' then
                       (case parseBig (b_ValueWei body) False of
                          Inl e \<Rightarrow> Inl e
                        | Inr value \<Rightarrow> Inr (NativeReq chainID source fromAddr toAddr value))
                     else
                       let token = TrimSpace (b_TokenAddress body) in
                       if \<not> common_IsHexAddress (d_geth d) token then Inl ''valid 'tokenAddress' required''
                       else (case parseBig (b_Amount body) True of
                               Inl e \<Rightarrow> Inl e
                             | Inr amount \<Rightarrow>
                                 Inr (Erc20Req chainID source fromAddr toAddr (common_HexToAddress (d_geth d) token) amount)))"

fun performTransfer :: "deps \<Rightarrow> submitFunc \<Rightarrow> transferReq \<Rightarrow> Result weio" where
  "performTransfer d submit (NativeReq chainID source src dest value) =
     (if source = ''account'' then SendViaAccountNative d submit chainID src dest value
      else SendNative d chainID src dest value)"
| "performTransfer d submit (Erc20Req chainID source src dest token amount) =
     (if source = ''account'' then SendViaAccountErc20 d submit chainID src token dest amount
      else SendErc20 d chainID src token dest amount)"

definition Transfer :: "deps \<Rightarrow> submitFunc \<Rightarrow> json option \<Rightarrow> Result http_response option wio" where
  "Transfer d submit raw =
     (case checkTransfer d raw of
        Inl msg \<Rightarrow> ret (Some (WriteValidationError msg))
      | Inr req \<Rightarrow> bindI (performTransfer d submit req) (\<lambda>r. ret (respond (d_geth d) r)))"

section \<open>Transfers from a server wallet\<close>

lemma resolveSourceWallet_appends: "appends key_event (resolveSourceWallet d src m)"
  unfolding resolveSourceWallet_def by (intro appends_bindE ServerKey_appends) auto

lemma resolveSourceWallet_success:
  assumes "resolveSourceWallet d src m w = (Inr acc, w')"
  shows "addr acc = src \<and> acc \<in> set_option (server1 w') \<union> set_option (server2 w')"
proof -
  from assms obtain s1 w1 s2 where s: "ServerKey1 d w = (Inr s1, w1)" "ServerKey2 d w1 = (Inr s2, w')"
    "acc = s1 \<or> acc = s2" "addr acc = src"
    by (auto simp: resolveSourceWallet_def bindE_Inr_iff split: if_splits)
  have "server1 w1 = Some s1" using sk1.filled [OF s(1)] .
  moreover have "server1 w' = server1 w1"
  proof (cases "server2 w1")
    case None
    show ?thesis by (rule ServerKey2_cases [OF s(2) None]) auto
  qed (use s(2) in \<open>simp add: ServerKey2_def\<close>)
  moreover have "server2 w' = Some s2" using sk2.filled [OF s(2)] .
  ultimately show ?thesis using s(3,4) by auto
qed

lemma walletTx_run:
  assumes "walletTx d c ch acc msg lo fb v w = ((h, err), w')"
  obtains (unsent) es where "w' = w\<lparr>trace := trace w @ es\<rparr>" "list_all query es" "err \<noteq> None"
  | (sent) es n t stx where "w' = w\<lparr>trace := trace w @ es @ [EvPendingNonceAt c (addr acc) (Inr n), EvSendTransaction c stx err]\<rparr>"
      "list_all query es" "types_SignTx (d_geth d) ch (priv acc) t = Inr stx" "tx_Nonce t = n"
      "tx_To t = msg_To msg" "tx_Value t = v" "tx_Data t = msg_Data msg" "h = signed_Hash (d_geth d) stx"
proof -
  obtain fees w1 where f: "FeeFromProvider d c w = (Inr fees, w1)" using FeeFromProvider_ok by blast
  from asksE [OF asks_FeeFromProvider f] obtain es1 where es1: "w1 = w\<lparr>trace := trace w @ es1\<rparr>" "list_all query es1" .
  obtain gas w2 where g: "EstimateGas d c msg lo 2000000 fb w1 = (gas, w2)" by fastforce
  from asksE [OF asks_EstimateGas g] obtain es2 where es2: "w2 = w1\<lparr>trace := trace w1 @ es2\<rparr>" "list_all query es2" .
  let ?p = "x_PendingNonceAt (d_ext d) (trace w2) c (addr acc)"
  have run: "signAndSend d c ch acc (msg_To msg) (Some v) (msg_Data msg) gas fees w2 = ((h, err), w')"
    using assms f g by (simp add: walletTx_def bindI_def)
  show thesis
  proof (cases ?p)
    case (Inl e)
    with run es1 es2 show thesis
      by (intro unsent [of "es1 @ es2 @ [EvPendingNonceAt c (addr acc) (Inl e)]"]) (auto simp: signAndSend_def io_simps)
  next
    case (Inr n)
    let ?t = "tx_of ch n (msg_To msg) v (msg_Data msg) gas fees"
    show thesis
    proof (cases "types_SignTx (d_geth d) ch (priv acc) ?t")
      case (Inl e)
      with run Inr es1 es2 show thesis
        by (intro unsent [of "es1 @ es2 @ [EvPendingNonceAt c (addr acc) (Inr n)]"])
           (auto simp: signAndSend_def io_simps SignAndSend_cases)
    next
      case (Inr stx)
      with run \<open>?p = Inr n\<close> es1 es2 show thesis
        by (intro sent [of "es1 @ es2" n stx ?t]) (auto simp: signAndSend_def io_simps SignAndSend_cases Let_def)
    qed
  qed
qed

lemma walletTx_appends: "appends (\<lambda>e. \<not> mutex_event e) (walletTx d c ch acc msg lo fb v)"
proof (rule appendsI)
  fix w x w' assume r: "walletTx d c ch acc msg lo fb v w = (x, w')"
  obtain h err where x: "x = (h, err)" by fastforce
  show "\<exists>es. trace w' = trace w @ es \<and> list_all (\<lambda>e. \<not> mutex_event e) es"
    by (rule walletTx_run [OF r [unfolded x]]) (auto simp: list_all_iff dest!: query_plain)
qed

lemma walletTx_fresh:
  assumes "signs_faithfully (d_geth d)"
  shows "fresh_section (addr acc) (walletTx d c ch acc msg lo fb v)"
proof (rule fresh_sectionI)
  fix w x w' assume r: "walletTx d c ch acc msg lo fb v w = (x, w')"
  obtain h err where x: "x = (h, err)" by fastforce
  show "\<exists>es. trace w' = trace w @ es \<and> list_all (\<lambda>e. \<not> mutex_event e) es \<and> nonce_ok (addr acc) None es"
  proof (cases rule: walletTx_run [OF r [unfolded x]])
    case (1 es)
    then show ?thesis by (auto simp: list_all_iff nonce_ok_queries dest: query_plain)
  next
    case (2 es n t stx)
    have "fst stx = t" using assms 2(3) unfolding signs_faithfully_def by blast
    then have "nonce_ok (addr acc) None [EvPendingNonceAt c (addr acc) (Inr n), EvSendTransaction c stx err]"
      using 2(4) by (cases stx) simp
    from nonce_ok_append [OF nonce_ok_queries [OF 2(2)] this]
    have "nonce_ok (addr acc) None (es @ [EvPendingNonceAt c (addr acc) (Inr n), EvSendTransaction c stx err])" .
    with 2(1,2) show ?thesis by (auto simp: list_all_iff dest: query_plain)
  qed
qed

lemma resolveSourceWallet_serializes: "serializes k a (resolveSourceWallet d src m)"
  by (rule appends_serializes, rule appends_mono [OF resolveSourceWallet_appends]) (auto dest: key_event_plain)

text \<open>
  Transfers from a server wallet are serialised by that wallet's nonce lock: whatever the
  node, redis and the key store do, a transaction is only broadcast while the lock of the
  \<open>from\<close> address is held, with the pending nonce of \<open>from\<close> read just before, and the lock is free
  afterwards.
\<close>

theorem wallet_transfer_serialized:
  assumes "signs_faithfully (d_geth d)"
  shows "serializes (NonceLockKey ch (address_Hex (d_geth d) src)) src (SendNative d ch src dest v)
    \<and> serializes (NonceLockKey ch (address_Hex (d_geth d) src)) src (SendErc20 d ch src token dest v)"
proof -
  let ?k = "NonceLockKey ch (address_Hex (d_geth d) src)"
  have body: "serializes ?k src (bindI (WithNonceLock d (NonceLockKey ch (address_Hex (d_geth d) (addr acc))) cap
      (walletTx d c ch acc msg lo fb v)) (\<lambda>(h, err). case err of Some e \<Rightarrow> failE e | None \<Rightarrow> retE (f h)))"
    if "resolveSourceWallet d src m w = (Inr acc, w')" for acc m w w' c msg lo fb v cap and f :: "txhash \<Rightarrow> Result"
  proof -
    have a: "addr acc = src" using resolveSourceWallet_success [OF that] by blast
    show ?thesis unfolding a
      by (intro serializes_bindI WithNonceLock_serializes)
         (auto simp: walletTx_fresh [OF assms, of acc, unfolded a] split: option.split intro: appends_serializes)
  qed
  have "serializes ?k src (SendNative d ch src dest v)"
    unfolding SendNative_def by (intro serializes_bindE resolveSourceWallet_serializes Client_serializes) (rule body)
  moreover have "serializes ?k src (SendErc20 d ch src token dest v)"
    unfolding SendErc20_def
    by (intro serializes_bindE resolveSourceWallet_serializes Client_serializes serializes_pureE) (rule body)
  ultimately show ?thesis by blast
qed

theorem wallet_transfer_serialized_witness:
  "serializes (NonceLockKey 1 (address_Hex (d_geth (demo_deps (mining_ext 1) False)) 7)) 7
     (SendNative (demo_deps (mining_ext 1) False) 1 7 8 100)"
  using wallet_transfer_serialized [of "demo_deps (mining_ext 1) False" 1 7 8 100]
  by (simp add: signs_faithfully_def opaque_geth_def)

text \<open>What one run of the locked section submitted.\<close>

lemma walletSend_run:
  assumes "WithNonceLock d k cap (walletTx d c ch acc msg lo fb v) w = ((h, err), w')"
  shows "\<exists>es. w' = w\<lparr>trace := trace w @ es\<rparr> \<and>
    (filter submission es = [] \<and> err \<noteq> None \<or>
     (\<exists>stx. filter submission es = [EvSendTransaction c stx err] \<and> h = signed_Hash (d_geth d) stx
        \<and> carries (d_geth d) ch acc (msg_To msg) v (msg_Data msg) stx))"
proof -
  have q: "filter submission es = []" if "quiet es \<or> list_all query es" for es
    using that by (auto simp: filter_empty_conv list_all_iff dest: query_plain lock_noise_plain)
  from wl.lock_runs [OF assms] show ?thesis
  proof (elim disjE exE conjE)
    fix pre post w2 assume pp: "quiet pre" "quiet post"
      and f: "walletTx d c ch acc msg lo fb v (w\<lparr>trace := trace w @ EvLock k # pre\<rparr>) = ((h, err), w2)"
      and w': "w' = w2\<lparr>trace := trace w2 @ post @ [EvUnlock k]\<rparr>"
    show ?thesis
    proof (cases rule: walletTx_run [OF f])
      case (1 es)
      with w' show ?thesis
        by (intro exI [of _ "EvLock k # pre @ es @ post @ [EvUnlock k]"]) (simp add: q pp)
    next
      case (2 es n t stx)
      with w' show ?thesis unfolding carries_def
        by (intro exI [of _ "EvLock k # pre @ es @ [EvPendingNonceAt c (addr acc) (Inr n), EvSendTransaction c stx err]
              @ post @ [EvUnlock k]"]) (auto simp: q pp)
    qed
  next
    fix es e assume "quiet es" "(h, err) = (cap, Some e)" "w' = w\<lparr>trace := trace w @ EvLock k # es @ [EvUnlock k]\<rparr>"
    then show ?thesis by (intro exI [of _ "EvLock k # es @ [EvUnlock k]"]) (simp add: q)
  qed
qed

text \<open>
  \<open>paid_once es r ...\<close>: the run submitted one transaction and reports its outcome, or none and
  reports an error.
\<close>

definition paid_once ::
  "deps \<Rightarrow> int64 \<Rightarrow> address \<Rightarrow> address \<Rightarrow> int \<Rightarrow> bytes \<Rightarrow> world \<Rightarrow> go_error + Result \<Rightarrow> world \<Rightarrow> bool" where
  "paid_once d ch src dest v data w r w' \<longleftrightarrow>
     (let sent = filter submission (new_events w w') in
      sent = [] \<and> (\<exists>e. r = Inl e) \<or>
      (\<exists>c stx err acc. sent = [EvSendTransaction c stx err]
         \<and> acc \<in> set_option (server1 w') \<union> set_option (server2 w') \<and> addr acc = src
         \<and> carries (d_geth d) ch acc dest v data stx
         \<and> (case err of Some e \<Rightarrow> r = Inl e
            | None \<Rightarrow> r = Inr \<lparr>TxHash = signed_Hash (d_geth d) stx, From = address_Hex (d_geth d) src\<rparr>)))"

lemma no_submissions:
  "list_all key_event es \<Longrightarrow> filter submission es = []" "list_all dial_event es \<Longrightarrow> filter submission es = []"
  by (auto simp: filter_empty_conv list_all_iff dest: key_event_plain dial_event_plain)

lemma walletSend_paid:
  assumes res: "resolveSourceWallet d src m w = (Inr acc, w1)" and cl: "Client d ch w1 = (Inr c, w2)"
    and run: "bindI (WithNonceLock d k cap (walletTx d c ch acc msg lo fb v))
       (\<lambda>(hash, err). case err of Some e \<Rightarrow> failE e
        | None \<Rightarrow> retE \<lparr>TxHash = hash, From = address_Hex (d_geth d) (addr acc)\<rparr>) w2 = (r, w')"
  shows "paid_once d ch src (msg_To msg) v (msg_Data msg) w r w'"
proof -
  obtain h err w3 where l: "WithNonceLock d k cap (walletTx d c ch acc msg lo fb v) w2 = ((h, err), w3)"
    by (metis surj_pair)
  with run have r: "r = (case err of Some e \<Rightarrow> Inl e | None \<Rightarrow> Inr \<lparr>TxHash = h, From = address_Hex (d_geth d) (addr acc)\<rparr>)"
    "w' = w3" by (auto simp: io_simps split: option.splits)
  from walletSend_run [OF l] obtain es where es: "w3 = w2\<lparr>trace := trace w2 @ es\<rparr>"
    "filter submission es = [] \<and> err \<noteq> None \<or>
     (\<exists>stx. filter submission es = [EvSendTransaction c stx err] \<and> h = signed_Hash (d_geth d) stx
        \<and> carries (d_geth d) ch acc (msg_To msg) v (msg_Data msg) stx)" by blast
  from appendsE [OF resolveSourceWallet_appends res] obtain fs where fs: "trace w1 = trace w @ fs" "list_all key_event fs" .
  from Client_trace [OF cl] obtain gs where gs: "trace w2 = trace w1 @ gs" "list_all dial_event gs" by blast
  have "new_events w w' = fs @ gs @ es" using r(2) es(1) fs(1) gs(1) by (simp add: new_events_def)
  then have sent: "filter submission (new_events w w') = filter submission es"
    using fs(2) gs(2) by (simp add: no_submissions)
  have acc: "addr acc = src" "acc \<in> set_option (server1 w1) \<union> set_option (server2 w1)"
    using resolveSourceWallet_success [OF res] by blast+
  have "server1 w' = server1 w1" "server2 w' = server2 w1"
    using r(2) es(1) Client_frame [OF cl] by simp_all
  then have acc': "acc \<in> set_option (server1 w') \<union> set_option (server2 w')" using acc(2) by simp
  from es(2) show ?thesis
  proof (elim disjE conjE exE)
    assume "filter submission es = []" "err \<noteq> None"
    with r(1) sent show ?thesis by (auto simp: paid_once_def)
  next
    fix stx assume s: "filter submission es = [EvSendTransaction c stx err]" "h = signed_Hash (d_geth d) stx"
      "carries (d_geth d) ch acc (msg_To msg) v (msg_Data msg) stx"
    have "case err of Some e \<Rightarrow> r = Inl e
        | None \<Rightarrow> r = Inr \<lparr>TxHash = signed_Hash (d_geth d) stx, From = address_Hex (d_geth d) src\<rparr>"
      using r(1) s(2) acc(1) by (auto split: option.split)
    with s(1,3) sent acc(1) acc' show ?thesis unfolding paid_once_def Let_def by metis
  qed
qed

lemma unpaid:
  "filter submission (new_events w w') = [] \<Longrightarrow> paid_once d ch src dest v data w (Inl e) w'"
  by (simp add: paid_once_def)

text \<open>
  Both wallet transfers have the same shape: the native one packs no data.
\<close>

definition walletTransfer ::
  "deps \<Rightarrow> int64 \<Rightarrow> address \<Rightarrow> string \<Rightarrow> go_error + bytes \<Rightarrow> (Account \<Rightarrow> bytes \<Rightarrow> callmsg) \<Rightarrow> uint64 \<Rightarrow> uint64 \<Rightarrow> int
     \<Rightarrow> Result weio" where
  "walletTransfer d ch src m pk msg lo fb v =
     bindE (resolveSourceWallet d src m) (\<lambda>acc.
     bindE (Client d ch) (\<lambda>c.
     bindE (liftE pk) (\<lambda>data.
     bindI (WithNonceLock d (NonceLockKey ch (address_Hex (d_geth d) (addr acc))) []
              (walletTx d c ch acc (msg acc data) lo fb v))
       (\<lambda>(hash, err). case err of
          Some e \<Rightarrow> failE e
        | None \<Rightarrow> retE \<lparr>TxHash = hash, From = address_Hex (d_geth d) (addr acc)\<rparr>))))"

lemma SendNative_shape:
  "SendNative d ch src dest v = walletTransfer d ch src ''sendNative'' (Inr [])
     (\<lambda>acc data. \<lparr>msg_From = addr acc, msg_To = dest, msg_Value = Some v, msg_Data = data\<rparr>) 21000 200000 v"
  by (simp add: SendNative_def walletTransfer_def flip: retE_liftE)

lemma SendErc20_shape:
  "SendErc20 d ch src token dest v = walletTransfer d ch src ''sendErc20''
     (abi_Pack (d_geth d) ''erc20.transfer'' [VAddress dest, VUint v])
     (\<lambda>acc data. \<lparr>msg_From = addr acc, msg_To = token, msg_Value = None, msg_Data = data\<rparr>) 55000 250000 0"
  by (simp add: SendErc20_def walletTransfer_def)

lemma walletTransfer_paid:
  assumes run: "walletTransfer d ch src m pk msg lo fb v w = (r, w')"
    and msg: "\<And>acc data. msg_To (msg acc data) = dest \<and> msg_Data (msg acc data) = data"
  shows "case pk of Inr data \<Rightarrow> paid_once d ch src dest v data w r w'
     | Inl e \<Rightarrow> filter submission (new_events w w') = [] \<and> (\<exists>e. r = Inl e)"
proof -
  obtain a w1 where res: "resolveSourceWallet d src m w = (a, w1)" by fastforce
  from appendsE [OF resolveSourceWallet_appends res] obtain fs where fs: "trace w1 = trace w @ fs" "list_all key_event fs" .
  show ?thesis
  proof (cases a)
    case (Inl e)
    with run res fs have "filter submission (new_events w w') = []" "r = Inl e"
      by (auto simp: walletTransfer_def bindE_def new_events_append no_submissions)
    then show ?thesis by (auto simp: unpaid split: sum.split)
  next
    case acc: (Inr acc)
    obtain c w2 where cl: "Client d ch w1 = (c, w2)" by fastforce
    from Client_trace [OF cl] obtain gs where gs: "trace w2 = trace w1 @ gs" "list_all dial_event gs" by blast
    have none: "filter submission (new_events w w2) = []"
      using fs gs by (simp add: new_events_append no_submissions)
    show ?thesis
    proof (cases "\<exists>e. c = Inl e \<or> pk = Inl e")
      case True
      with run res acc cl have "w' = w2" "\<exists>e. r = Inl e"
        by (auto simp: walletTransfer_def bindE_def liftE_def split: sum.splits)
      with none show ?thesis by (auto simp: unpaid split: sum.split)
    next
      case False
      then obtain c' data where Inr: "c = Inr c'" "pk = Inr data" by (metis sum.exhaust)
      from walletSend_paid [OF res [unfolded acc] cl [unfolded Inr], where r = r and w' = w' and
          msg = "msg acc data" and v = v and lo = lo and fb = fb and cap = "[]"
          and k = "NonceLockKey ch (address_Hex (d_geth d) (addr acc))"]
      show ?thesis using run res acc cl Inr msg by (simp add: walletTransfer_def bindE_def liftE_def)
    qed
  qed
qed

text \<open>
  C35: a wallet transfer pays what was asked, from an authorised wallet, at most once: the only
  transaction it can submit is signed with a server key whose address is the \<open>from\<close> of the
  request and carries the requested destination, value and data (for a token, the call of
  \<open>transfer\<close> on the token contract with no value); a success reports its hash, and every other
  outcome is an error.
\<close>

theorem wallet_transfer_exact:
  "paid_once d ch src dest v [] w (fst (SendNative d ch src dest v w)) (snd (SendNative d ch src dest v w))
   \<and> (case abi_Pack (d_geth d) ''erc20.transfer'' [VAddress dest, VUint v] of
        Inr data \<Rightarrow> paid_once d ch src token 0 data w
          (fst (SendErc20 d ch src token dest v w)) (snd (SendErc20 d ch src token dest v w))
      | Inl e \<Rightarrow> filter submission (new_events w (snd (SendErc20 d ch src token dest v w))) = []
          \<and> (\<exists>e. fst (SendErc20 d ch src token dest v w) = Inl e))"
proof (rule conjI, goal_cases)
  case 1
  show ?case
    unfolding SendNative_shape by (rule walletTransfer_paid [OF surjective_pairing, where pk = "Inr []", simplified]) simp
next
  case 2
  show ?case
    unfolding SendErc20_shape by (rule walletTransfer_paid [OF surjective_pairing]) simp
qed

section \<open>Transfers from an account\<close>

text \<open>The server keys in use.\<close>

abbreviation server_keys :: "world \<Rightarrow> Account option \<times> Account option" where
  "server_keys w \<equiv> (server1 w, server2 w)"

lemma keeps_calls [intro, simp]: "keeps server_keys (extcall f ev)" "keeps server_keys (emit e)"
  by (simp_all add: keeps_def io_simps)

lemma keeps_asks: "asks Q m \<Longrightarrow> keeps server_keys m"
  by (rule keepsI) (auto elim: asksE)

lemma keeps_Client [intro, simp]: "keeps server_keys (Client d ch)"
  by (rule keepsI) (auto dest: Client_frame)

lemma keeps_WithNonceLock:
  assumes "keeps server_keys fn"
  shows "keeps server_keys (WithNonceLock d k cap fn)"
proof (rule keepsI)
  fix w x w' assume "WithNonceLock d k cap fn w = (x, w')"
  from wl.lock_runs [OF this] show "server_keys w' = server_keys w"
    using keepsD [OF assms] by fastforce
qed

lemma keeps_onchainSubmit: "keeps server_keys (onchainSubmit d ch wl ops)"
  unfolding onchainSubmit_def Let_def by (auto intro!: keeps_bindI split: sum.split)

lemma keeps_sendUnderLock: "keeps server_keys (sendUnderLock d (onchainSubmit d) ch wl ops)"
  unfolding sendUnderLock_def by (intro keeps_WithNonceLock keeps_onchainSubmit)

lemma keeps_detach: "keeps server_keys (detach t)"
  by (simp add: keeps_def detach_def)

lemma keeps_flushUntil: "keeps server_keys (flushUntil d (onchainSubmit d) ch wl ops i)"
proof -
  have "keeps server_keys (retryEach d (onchainSubmit d) ch wl ops)" for ops
    by (induction ops) (auto intro!: keeps_bindI keeps_sendUnderLock)
  then show ?thesis unfolding flushUntil_def
    by (auto intro!: keeps_bindI keeps_sendUnderLock keeps_detach split: option.split)
qed

lemma keeps_queueFor: "keeps server_keys (queueFor d ch)"
proof (rule keepsI)
  fix w x w' assume r: "queueFor d ch w = (x, w')"
  have bp: "server_keys v' = server_keys v" if "BundlerPool d ch v = (q, v')" for v q v'
  proof (cases "pools v ch")
    case None
    with that show ?thesis by (auto elim!: BundlerPool_cases)
  qed (use that in \<open>simp add: BundlerPool_def\<close>)
  show "server_keys w' = server_keys w"
  proof (cases "chains w ch")
    case None
    from queueFor_miss [OF r None] obtain r1 w1 where b: "BundlerPool d ch w = (r1, w1)"
      "w' = (case r1 of Inr p \<Rightarrow> w1\<lparr>chains := (chains w1)(ch \<mapsto> p)\<rparr> | Inl _ \<Rightarrow> w1)" by metis
    with bp [OF b(1)] show ?thesis by (simp split: sum.split)
  qed (use r in \<open>simp add: queueFor_def\<close>)
qed

lemma keeps_nextIndex: "keeps server_keys (nextIndex d k n)"
  by (simp add: keeps_def nextIndex_def NextIndex_def nextIndexLocal_def wrapE_def io_simps Let_def split: sum.split)

lemma keeps_Enqueue: "keeps server_keys (Enqueue d (onchainSubmit d) ch p)"
  unfolding Enqueue_def Let_def
  by (intro keeps_bindI keeps_queueFor; split sum.split; intro conjI allI impI keeps_basic)
     (auto intro!: keeps_bindI keeps_nextIndex keeps_flushUntil keeps_detach split: option.split sum.split)

lemma accountTx_success:
  assumes "accountTx d (onchainSubmit d) c ch s1 s2 src dest v data w = ((h, None), w')"
  shows "\<exists>nonce fee opn ops es. accountOp (d_geth d) s1 s2 src nonce dest v data fee = Inr opn
    \<and> 0 < snd fee \<and> snd fee \<le> fst fee \<and> opn \<in> set ops \<and> length ops \<le> maxBatchSize
    \<and> trace w' = trace w @ EvCall c src ''nonce'' [] (Inr (VUint nonce)) # es \<and> mined_in es ops h
    \<and> server_keys w' = server_keys w"
proof -
  let ?r = "x_Call (d_ext d) (trace w) c src ''nonce'' []"
  obtain nonce where n: "?r = Inr (VUint nonce)"
    using assms by (auto simp: accountTx_def io_simps split: sum.splits abival.splits)
  define w1 where "w1 = w\<lparr>trace := trace w @ [EvCall c src ''nonce'' [] (Inr (VUint nonce))]\<rparr>"
  obtain f w2 where u: "userOpMaxFeeFields d c ch w1 = (f, w2)" by fastforce
  with assms n obtain f' where f: "f = Inr f'"
    by (cases f) (auto simp: accountTx_def io_simps w1_def)
  with assms n u obtain opn where opn: "accountOp (d_geth d) s1 s2 src nonce dest v data f' = Inr opn"
    "Enqueue d (onchainSubmit d) ch opn w2 = ((h, None), w')"
    by (auto simp: accountTx_def io_simps w1_def split: sum.splits)
  have fee: "0 < snd f' \<and> snd f' \<le> fst f'"
  proof (cases rule: userOpMaxFeeFields_cases [OF u [unfolded f]])
    case (2 fees)
    then show ?thesis using providerFee_bounds [OF 2(2), of ch "fst f'" "snd f'"] by simp
  qed auto
  from asksE [OF asks_userOpMaxFeeFields u] obtain es1 where es1: "w2 = w1\<lparr>trace := trace w1 @ es1\<rparr>" .
  from Enqueue_mined [OF opn(2)] obtain ops where ops: "opn \<in> set ops" "length ops \<le> maxBatchSize"
    "mined_in (new_events w2 w') ops h" by blast
  obtain es2 where es2: "trace w' = trace w2 @ es2"
    using Enqueue_trace [OF opn(2)] by blast
  have "mined_in (es1 @ es2) ops h"
    using ops(3) es2 by (auto simp: new_events_append elim: mined_in_mono)
  moreover have "trace w' = trace w @ EvCall c src ''nonce'' [] (Inr (VUint nonce)) # es1 @ es2"
    using es1 es2 by (simp add: w1_def)
  moreover have "server_keys w' = server_keys w"
    using keepsD [OF keeps_Enqueue opn(2)] es1 by (simp add: w1_def)
  ultimately show ?thesis using opn(1) fee ops(1,2) by blast
qed

text \<open>
  \<open>authorizes ...\<close>: the operation calls \<open>executeWithSignatures\<close> on the account with this nonce,
  and both signatures of the call are over the digest of exactly this transfer; the signature's
  last byte is moved to 27 or 28.
\<close>

definition authorizes ::
  "geth \<Rightarrow> Account \<Rightarrow> Account \<Rightarrow> address \<Rightarrow> int \<Rightarrow> address \<Rightarrow> int \<Rightarrow> bytes \<Rightarrow> PackedUserOp \<Rightarrow> bool" where
  "authorizes g s1 s2 src nonce dest v data opn \<longleftrightarrow>
     (\<exists>enc sig1 sig2.
        abi_Pack g ''digestArgs'' [VAddress src, VUint nonce, VAddress dest, VUint v, VBytes32 (copy32 (crypto_Keccak256 g data))] = Inr enc
        \<and> crypto_Sign g (accounts_TextHash g (crypto_Keccak256 g enc)) (priv s1) = Inr sig1
        \<and> crypto_Sign g (accounts_TextHash g (crypto_Keccak256 g enc)) (priv s2) = Inr sig2
        \<and> abi_Pack g ''account.executeWithSignatures'' [VAddress dest, VUint v, VBytes data,
             VList [VBytes (sig1[64 := sig1 ! 64 + 27]), VBytes (sig2[64 := sig2 ! 64 + 27])]] = Inr (op_CallData opn)
        \<and> op_Sender opn = src \<and> op_Nonce opn = nonce \<and> op_InitCode opn = [] \<and> op_PaymasterAndData opn = []
        \<and> 0 < op_MaxPriorityFeePerGas opn \<and> op_MaxPriorityFeePerGas opn \<le> op_MaxFeePerGas opn)"

lemma accountOp_authorizes:
  assumes "accountOp g s1 s2 src nonce dest v data fee = Inr opn" "0 < snd fee \<and> snd fee \<le> fst fee"
  shows "authorizes g s1 s2 src nonce dest v data opn"
  using assms by (auto simp: accountOp_def getDigest_def sign65_def authorizes_def Let_def split: sum.splits)

text \<open>
  \<open>withdrawn ...\<close>: under the account's lock the account's nonce was read from the chain, and
  after that an operation with this nonce, signed by both server keys, was mined in a
  \<open>handleOps\<close> transaction.
\<close>

definition withdrawn ::
  "deps \<Rightarrow> int64 \<Rightarrow> address \<Rightarrow> address \<Rightarrow> int \<Rightarrow> bytes \<Rightarrow> world \<Rightarrow> txhash \<Rightarrow> world \<Rightarrow> bool" where
  "withdrawn d ch src dest v data w h w' \<longleftrightarrow>
     (\<exists>c s1 s2 nonce opn ops pre noise es post.
        server_keys w' = (Some s1, Some s2)
        \<and> authorizes (d_geth d) s1 s2 src nonce dest v data opn
        \<and> opn \<in> set ops \<and> length ops \<le> maxBatchSize
        \<and> new_events w w' = pre @ EvLock (accountLockKey ch (address_Hex (d_geth d) src)) # noise
            @ EvCall c src ''nonce'' [] (Inr (VUint nonce)) # es
            @ post @ [EvUnlock (accountLockKey ch (address_Hex (d_geth d) src))]
        \<and> filter submission pre = [] \<and> quiet noise \<and> quiet post
        \<and> mined_in es ops h)"

lemma report_Inr:
  "bindI m (\<lambda>(hash, err). case err of Some e \<Rightarrow> failE e | None \<Rightarrow> retE \<lparr>TxHash = hash, From = f\<rparr>) w = (Inr res, w')
     \<longleftrightarrow> m w = ((TxHash res, None), w') \<and> From res = f"
  by (cases res; cases "m w") (auto simp: bindI_def split: option.splits)

lemma sendViaAccount_withdrawn:
  assumes "sendViaAccount d (onchainSubmit d) ch src dest v data w = (Inr res, w')"
  shows "From res = address_Hex (d_geth d) src \<and> withdrawn d ch src dest v data w (TxHash res) w'"
proof -
  let ?k = "accountLockKey ch (address_Hex (d_geth d) src)"
  from assms obtain c w1 s1 w2 s2 w3 where cl: "Client d ch w = (Inr c, w1)" and k1: "ServerKey1 d w1 = (Inr s1, w2)"
    and k2: "ServerKey2 d w2 = (Inr s2, w3)"
    and l: "WithNonceLock d ?k [] (accountTx d (onchainSubmit d) c ch s1 s2 src dest v data) w3 = ((TxHash res, None), w')"
    and fr: "From res = address_Hex (d_geth d) src"
    by (auto simp: sendViaAccount_def bindE_Inr_iff report_Inr)
  have keys: "server_keys w3 = (Some s1, Some s2)"
    using sk1.filled [OF k1] sk2.filled [OF k2] ServerKey2_keeps1 [OF k2] by simp
  from Client_trace [OF cl] obtain gs where gs: "trace w1 = trace w @ gs" "list_all dial_event gs" by blast
  from appendsE [OF ServerKey_appends(1) k1] obtain fs where fs: "trace w2 = trace w1 @ fs" "list_all key_event fs" .
  from appendsE [OF ServerKey_appends(2) k2] obtain hs where hs: "trace w3 = trace w2 @ hs" "list_all key_event hs" .
  from wl.success_ran [OF l] obtain pre post w4 where q: "quiet pre" "quiet post"
    and a: "accountTx d (onchainSubmit d) c ch s1 s2 src dest v data (w3\<lparr>trace := trace w3 @ EvLock ?k # pre\<rparr>)
        = ((TxHash res, None), w4)"
    and w': "w' = w4\<lparr>trace := trace w4 @ post @ [EvUnlock ?k]\<rparr>" by blast
  from accountTx_success [OF a] obtain nonce fee opn ops es where
    a0: "accountOp (d_geth d) s1 s2 src nonce dest v data fee = Inr opn" "0 < snd fee \<and> snd fee \<le> fst fee"
    and t: "opn \<in> set ops" "length ops \<le> maxBatchSize" "mined_in es ops (TxHash res)"
    and tr: "trace w4 = trace w3 @ EvLock ?k # pre @ EvCall c src ''nonce'' [] (Inr (VUint nonce)) # es"
    and sk: "server_keys w4 = server_keys w3" by auto
  have "new_events w w' = (gs @ fs @ hs) @ EvLock ?k # pre @ EvCall c src ''nonce'' [] (Inr (VUint nonce)) # es @ post @ [EvUnlock ?k]"
    using w' tr hs(1) fs(1) gs(1) by (simp add: new_events_def)
  moreover have "filter submission (gs @ fs @ hs) = []" using gs(2) fs(2) hs(2) by (simp add: no_submissions)
  moreover have "server_keys w' = (Some s1, Some s2)" using w' sk keys by simp
  ultimately show ?thesis using fr accountOp_authorizes [OF a0] t q unfolding withdrawn_def by blast
qed

text \<open>
  C7: a withdrawal from an account that succeeds has read the account's nonce from the chain
  under the account's lock and, before releasing it, seen an operation mined that carries this
  nonce and the call of \<open>executeWithSignatures\<close> with the signatures of both server keys over the
  digest of exactly this nonce, destination, value and data.
\<close>

theorem account_transfer_success:
  assumes "sendViaAccount d (onchainSubmit d) ch src dest v data w = (Inr res, w')"
  shows "From res = address_Hex (d_geth d) src \<and> withdrawn d ch src dest v data w (TxHash res) w'"
  by (rule sendViaAccount_withdrawn) (rule assms)

text \<open>A world with both server keys loaded and a wallet to submit with.\<close>

definition keyed_world :: world where
  "keyed_world = demo_world\<lparr>chains := [1 \<mapsto> [\<lparr>priv = 1, addr = 1\<rparr>]], server1 := Some \<lparr>priv = 2, addr = 2\<rparr>,
     server2 := Some \<lparr>priv = 3, addr = 3\<rparr>\<rparr>"

lemma demo_fee:
  "\<exists>f w1. userOpMaxFeeFields (demo_service (mining_ext 1)) c 1 w = (Inr f, w1) \<and> (\<exists>es. w1 = w\<lparr>trace := trace w @ es\<rparr>)"
proof -
  obtain r w1 where r: "userOpMaxFeeFields (demo_service (mining_ext 1)) c 1 w = (r, w1)" by fastforce
  have "strconv_ParseFloat ''x'' = None" by code_simp
  then have "parseUserOpGweiEnv (demo_service (mining_ext 1)) n = Inr None" for n
    by (simp add: parseUserOpGweiEnv_def demo_service_def Let_def)
  then have "envFee (demo_service (mining_ext 1)) n 1 = Inr None" for n by (simp add: envFee_def firstBig_def)
  moreover obtain fees u where "FeeFromProvider (demo_service (mining_ext 1)) c w = (Inr fees, u)"
    using FeeFromProvider_ok by blast
  ultimately obtain f where "r = Inr f" using r by (auto simp: userOpMaxFeeFields_def bindE_def)
  with r asksE [OF asks_userOpMaxFeeFields r] show ?thesis by metis
qed

lemma keyed_demo:
  "\<exists>w'. sendViaAccount (demo_service (mining_ext 1)) (onchainSubmit (demo_service (mining_ext 1))) 1 src dest 100 [] keyed_world
     = (Inr \<lparr>TxHash = ''0xaa'', From = address_Hex opaque_geth src\<rparr>, w')"
proof -
  let ?d = "demo_service (mining_ext 1)" and ?s1 = "\<lparr>priv = 2, addr = 2\<rparr> :: Account" and ?s2 = "\<lparr>priv = 3, addr = 3\<rparr> :: Account"
  let ?k = "accountLockKey 1 (address_Hex (d_geth ?d) src)"
  define w0 where "w0 = keyed_world\<lparr>trace := trace keyed_world @ [EvLock ?k, EvCall 5 src ''nonce'' [] (Inr (VUint 4))]\<rparr>"
  have d: "d_rdb ?d = False" "d_geth ?d = opaque_geth" "d_ext ?d = mining_ext 1" by (simp_all add: demo_service_def)
  have c: "x_Call (mining_ext 1) t c a m vs = Inr (VUint 4)" for t c a m vs by (simp add: mining_ext_def)
  obtain f w1 where u: "userOpMaxFeeFields ?d 5 1 w0 = (Inr f, w1)" "\<exists>es. w1 = w0\<lparr>trace := trace w0 @ es\<rparr>"
    using demo_fee by blast
  obtain opn where opn: "accountOp opaque_geth ?s1 ?s2 src 4 dest 100 [] f = Inr opn"
    by (simp add: accountOp_def getDigest_def sign65_def opaque_geth_def)
  obtain w2 where en: "Enqueue ?d (onchainSubmit ?d) 1 opn w1 = ((''0xaa'', None), w2)"
  proof -
    have "clients w1 1 = Some 5" "chains w1 1 = Some [\<lparr>priv = 1, addr = 1\<rparr>]"
      using u(2) by (auto simp: w0_def keyed_world_def demo_world_def)
    with that show thesis using Enqueue_demo_any by blast
  qed
  have "accountTx ?d (onchainSubmit ?d) 5 1 ?s1 ?s2 src dest 100 [] (keyed_world\<lparr>trace := trace keyed_world @ [EvLock ?k]\<rparr>)
      = ((''0xaa'', None), w2)"
    using u(1) opn en by (simp add: accountTx_def io_simps c d w0_def)
  then show ?thesis
    by (simp add: sendViaAccount_def bindE_def Client_def ServerKey1_def ServerKey2_def WithNonceLock_def d
        keyed_world_def demo_world_def io_simps)
qed

theorem account_transfer_success_witness:
  "\<exists>w'. withdrawn (demo_service (mining_ext 1)) 1 9 8 100 [] keyed_world ''0xaa'' w'"
  using keyed_demo account_transfer_success by fastforce

section \<open>The handler\<close>

lemma parseBig_range: "parseBig v pos = Inr n \<Longrightarrow> 0 \<le> n \<and> (pos \<longrightarrow> 0 < n)"
  by (auto simp: parseBig_def split: if_splits sum.splits)

text \<open>A transfer request that makes sense.\<close>

fun req_ok :: "transferReq \<Rightarrow> bool" where
  "req_ok (NativeReq ch s src dest v) \<longleftrightarrow> s \<in> {''wallet'', ''account''} \<and> 0 \<le> v"
| "req_ok (Erc20Req ch s src dest token v) \<longleftrightarrow> s \<in> {''wallet'', ''account''} \<and> 0 < v"

lemma checkTransfer_ok: "checkTransfer d raw = Inr req \<Longrightarrow> req_ok req"
  by (auto simp: checkTransfer_def Let_def dest: parseBig_range
      split: if_splits sum.splits option.splits prod.splits)

lemma respond_status:
  assumes "respond g r = Some (st, b)"
  shows "st \<in> {200, 422, 409, 503, 500}" "st = 200 \<Longrightarrow> \<exists>res. r = Inr res \<and> b = OkBody res"
proof -
  have "(\<exists>e. WriteTxError g (Some e) = (st, b)) \<or> (\<exists>res. r = Inr res \<and> b = OkBody res \<and> st = 200)"
    using assms by (auto simp: respond_def WriteJSON_def split: sum.splits go_error.splits)
  then show "st \<in> {200, 422, 409, 503, 500}" "st = 200 \<Longrightarrow> \<exists>res. r = Inr res \<and> b = OkBody res"
    by (auto dest: WriteTxError_failure)
qed

text \<open>What a request that is answered with 200 has done.\<close>

fun executed :: "deps \<Rightarrow> world \<Rightarrow> transferReq \<Rightarrow> Result \<Rightarrow> world \<Rightarrow> bool" where
  "executed d w (NativeReq ch source src dest v) res w' \<longleftrightarrow>
     (if source = ''account'' then withdrawn d ch src dest v [] w (TxHash res) w'
      else paid_once d ch src dest v [] w (Inr res) w')"
| "executed d w (Erc20Req ch source src dest token v) res w' \<longleftrightarrow>
     (\<exists>data. abi_Pack (d_geth d) ''erc20.transfer'' [VAddress dest, VUint v] = Inr data \<and>
        (if source = ''account'' then withdrawn d ch src token 0 data w (TxHash res) w'
         else paid_once d ch src token 0 data w (Inr res) w'))"

lemma performTransfer_executed:
  assumes "performTransfer d (onchainSubmit d) req w = (Inr res, w')"
  shows "executed d w req res w'"
proof (cases req)
  case (NativeReq ch source src dest v)
  with assms show ?thesis
    using walletTransfer_paid [where r = "Inr res" and w' = w' and w = w and dest = dest and pk = "Inr []"]
    by (auto simp: SendViaAccountNative_def SendNative_shape dest: sendViaAccount_withdrawn)
next
  case (Erc20Req ch source src dest token v)
  show ?thesis
  proof (cases "source = ''account''")
    case True
    with assms Erc20Req show ?thesis
      by (auto simp: SendViaAccountErc20_def bindE_Inr_iff liftE_def dest: sendViaAccount_withdrawn)
  next
    case False
    with assms Erc20Req have run: "walletTransfer d ch src ''sendErc20''
       (abi_Pack (d_geth d) ''erc20.transfer'' [VAddress dest, VUint v])
       (\<lambda>acc data. \<lparr>msg_From = addr acc, msg_To = token, msg_Value = None, msg_Data = data\<rparr>) 55000 250000 0 w = (Inr res, w')"
      by (simp add: SendErc20_shape)
    from walletTransfer_paid [OF run, of token] False Erc20Req show ?thesis
      by (auto split: sum.splits)
  qed
qed

text \<open>The ways a request can be answered.\<close>

lemma Transfer_cases:
  assumes "Transfer d sub raw w = (ans, w')"
  obtains (Rejected) msg where "checkTransfer d raw = Inl msg" "ans = Some (WriteValidationError msg)" "w' = w"
  | (Performed) req r where "checkTransfer d raw = Inr req" "performTransfer d sub req w = (r, w')" "ans = respond (d_geth d) r"
  using assms
  by (cases "checkTransfer d raw"; cases "performTransfer d sub (projr (checkTransfer d raw)) w")
     (auto simp: Transfer_def io_simps)

text \<open>
  C11: the answer to a transfer request tells what happened: 400 is answered without
  touching anything, 200 only after a request with a valid source and a non-negative value
  (positive for tokens) was paid from the server wallet or withdrawn from the account as asked,
  and every other answer is one of the failure statuses of the error contract.
\<close>

theorem Transfer_answers:
  assumes "Transfer d (onchainSubmit d) raw w = (Some (st, b), w')"
  shows "(st = 400 \<longrightarrow> w' = w) \<and> st \<in> {200, 400, 422, 409, 503, 500}
    \<and> (st = 200 \<longrightarrow> (\<exists>req res. checkTransfer d raw = Inr req \<and> req_ok req \<and> b = OkBody res \<and> executed d w req res w'))"
  using assms
proof (cases rule: Transfer_cases)
  case (Rejected msg)
  then show ?thesis by (simp add: WriteValidationError_def WriteJSON_def)
next
  case (Performed req r)
  from respond_status(2) [of "d_geth d" r st b] performTransfer_executed [of d req w _ w'] Performed checkTransfer_ok [OF Performed(1)]
  have "st = 200 \<Longrightarrow> \<exists>res. b = OkBody res \<and> executed d w req res w'" by auto
  with respond_status(1) [of "d_geth d" r st b] Performed checkTransfer_ok [OF Performed(1)] show ?thesis by auto
qed

definition demo_transfer :: json where
  "demo_transfer = JObj [(''chainId'', JNum ''1''), (''type'', JStr ''native''), (''source'', JStr ''account''),
     (''from'', JStr (replicate 42 (CHR ''a''))), (''to'', JStr (replicate 42 (CHR ''b''))),
     (''valueWei'', JStr ''100'')]"

lemma checkTransfer_demo:
  "checkTransfer (demo_service x) (Some demo_transfer) = Inr (NativeReq 1 ''account'' 42 42 100)"
proof -
  have p: "ParseInt ''1'' 10 = Some 1" "ToBigInt (AString ''100'') = Inr 100"
    "ToLower (TrimSpace ''native'') = ''native''" "ToLower (TrimSpace ''account'') = ''account''"
    "TrimSpace (replicate 42 (CHR ''a'')) = replicate 42 (CHR ''a'')"
    "TrimSpace (replicate 42 (CHR ''b'')) = replicate 42 (CHR ''b'')"
    by code_simp+
  define b where "b = emptyTransfer\<lparr>b_ChainID := 1, b_Type := ''native'', b_Source := ''account'',
     b_From := replicate 42 (CHR ''a''), b_To := replicate 42 (CHR ''b''), b_ValueWei := AString ''100''\<rparr>"
  have u: "Unmarshal ''transfer.transferBody'' transferFields demo_transfer emptyTransfer = (b, None)"
    by (simp add: Unmarshal_def demo_transfer_def transferFields_def decodeStep_def EqualFold_def decString_def decInt64_def
        decAny_def b_def p(1) lowerByte_def isUpper_def)
  have b: "b_ChainID b = 1" "b_Type b = ''native''" "b_Source b = ''account''" "b_From b = replicate 42 (CHR ''a'')"
    "b_To b = replicate 42 (CHR ''b'')" "b_ValueWei b = AString ''100''" by (simp_all add: b_def)
  have g: "common_IsHexAddress (d_geth (demo_service x)) s \<longleftrightarrow> length s = 42"
    "common_HexToAddress (d_geth (demo_service x)) s = of_nat (length s)" for s
    by (simp_all add: demo_service_def opaque_geth_def)
  show ?thesis
    by (simp add: checkTransfer_def u b p(2-) g ResolveChainID_def parseBig_def Let_def
        del: ToBigInt.simps)
qed

theorem Transfer_answers_witness:
  "\<exists>res w'. Transfer (demo_service (mining_ext 1)) (onchainSubmit (demo_service (mining_ext 1))) (Some demo_transfer) keyed_world
       = (Some (200, OkBody res), w')
     \<and> executed (demo_service (mining_ext 1)) keyed_world (NativeReq 1 ''account'' 42 42 100) res w'"
proof -
  let ?d = "demo_service (mining_ext 1)"
  obtain w' where k: "sendViaAccount ?d (onchainSubmit ?d) 1 42 42 100 [] keyed_world
      = (Inr \<lparr>TxHash = ''0xaa'', From = address_Hex opaque_geth 42\<rparr>, w')" using keyed_demo by blast
  have run: "Transfer ?d (onchainSubmit ?d) (Some demo_transfer) keyed_world
      = (Some (200, OkBody \<lparr>TxHash = ''0xaa'', From = address_Hex opaque_geth 42\<rparr>), w')"
    by (simp add: Transfer_def checkTransfer_demo SendViaAccountNative_def k io_simps respond_def WriteJSON_def)
  from Transfer_answers [OF run] run show ?thesis by (simp add: checkTransfer_demo)
qed

end
