(* ===== verification/Split.thy ===== *)
theory Split
  imports Core
begin

text \<open>
  \<open>internal/split\<close>: the settlement of a split payment. The payer, one of the two server wallets,
  sends \<open>executeWithSignatures\<close> to the router contract with the EIP-712 signatures of both server
  keys; before it, the token allowance of the router is raised when no permit is given.
\<close>

section \<open>eip712.go\<close>

record payerSplitMessage =
  m_Payer :: address
  m_ERC20Token :: address
  m_Recipient0 :: address
  m_Recipient1 :: address
  m_NativeAmt0 :: int
  m_NativeAmt1 :: int
  m_ERC20Amt0 :: int
  m_ERC20Amt1 :: int
  m_SignerEpoch :: int
  m_Nonce :: int

definition typedData :: "geth \<Rightarrow> int64 \<Rightarrow> address \<Rightarrow> payerSplitMessage \<Rightarrow> typed_data" where
  "typedData g chainID router m =
    \<lparr>td_domainTypes = [(''name'', ''string''), (''version'', ''string''), (''chainId'', ''uint256''),
       (''verifyingContract'', ''address'')],
     td_name = ''EoaFundedSplitMultisig'', td_version = ''1'', td_chainId = chainID,
     td_contract = address_Hex g router,
     td_types = [(''payer'', ''address''), (''erc20Token'', ''address''), (''recipient0'', ''address''),
       (''recipient1'', ''address''), (''nativeAmount0'', ''uint256''), (''nativeAmount1'', ''uint256''),
       (''erc20Amount0'', ''uint256''), (''erc20Amount1'', ''uint256''), (''signerEpoch'', ''uint256''),
       (''nonce'', ''uint256'')],
     td_primary = ''PayerSplit'',
     td_message = [(''payer'', address_Hex g (m_Payer m)), (''erc20Token'', address_Hex g (m_ERC20Token m)),
       (''recipient0'', address_Hex g (m_Recipient0 m)), (''recipient1'', address_Hex g (m_Recipient1 m)),
       (''nativeAmount0'', FormatInt (m_NativeAmt0 m)), (''nativeAmount1'', FormatInt (m_NativeAmt1 m)),
       (''erc20Amount0'', FormatInt (m_ERC20Amt0 m)), (''erc20Amount1'', FormatInt (m_ERC20Amt1 m)),
       (''signerEpoch'', FormatInt (m_SignerEpoch m)), (''nonce'', FormatInt (m_Nonce m))]\<rparr>"

definition typedDataHash :: "geth \<Rightarrow> int64 \<Rightarrow> address \<Rightarrow> payerSplitMessage \<Rightarrow> go_error + bytes" where
  "typedDataHash g chainID router m = apitypes_TypedDataAndHash g (typedData g chainID router m)"

section \<open>exec.go\<close>

text \<open>\<open>PermitDeadline\<close> and \<open>PermitAmount\<close> may be nil until \<open>validatePermit\<close> has run.\<close>

record Params =
  p_ChainID :: int64
  p_ERC20Token :: address
  p_Recipient0 :: address
  p_Recipient1 :: address
  p_NativeAmount0 :: int
  p_NativeAmount1 :: int
  p_ERC20Amount0 :: int
  p_ERC20Amount1 :: int
  p_PayerKey :: string
  p_PermitDeadline :: "int option"
  p_PermitAmount :: "int option"
  p_PermitV :: byte
  p_PermitR :: bytes
  p_PermitS :: bytes

record SplitResult =
  s_TxHash :: string
  s_From :: string
  s_Payer :: string
  s_RouterAddress :: string
  s_NonceUsed :: string
  s_ApproveTxHash :: string

definition emptyResult :: SplitResult where
  "emptyResult = \<lparr>s_TxHash = [], s_From = [], s_Payer = [], s_RouterAddress = [], s_NonceUsed = [], s_ApproveTxHash = []\<rparr>"

definition isNonceErr :: "go_error option \<Rightarrow> bool" where
  "isNonceErr err =
     (case err of None \<Rightarrow> False
      | Some e \<Rightarrow> let m = ToLower (err_Error e) in Contains m ''efs024'' \<or> Contains m ''nonce'')"

definition zeroBytes32 :: bytes where
  "zeroBytes32 = replicate 32 0"

text \<open>The parameters with the defaults filled in, or an error.\<close>

definition validatePermit :: "Params \<Rightarrow> go_error + Params" where
  "validatePermit p =
     (let deadline = (case p_PermitDeadline p of Some v \<Rightarrow> v | None \<Rightarrow> 0);
          amount = (case p_PermitAmount p of Some v \<Rightarrow> v | None \<Rightarrow> 0);
          p' = p\<lparr>p_PermitDeadline := Some deadline, p_PermitAmount := Some amount\<rparr>;
          erc20Total = p_ERC20Amount0 p + p_ERC20Amount1 p
      in if deadline = 0 then Inr p'
         else if p_ERC20Token p = 0 then Inl (errorsNew ''permit requires non-zero erc20Token'')
         else if erc20Total \<le> 0 then Inl (errorsNew ''permit requires positive erc20 amounts'')
         else if amount < erc20Total then Inl (errorsNew ''permitAmount must be >= erc20Amount0 + erc20Amount1'')
         else if p_PermitR p = zeroBytes32 \<or> p_PermitS p = zeroBytes32
         then Inl (errorsNew ''permitDeadline set: permitR and permitS (bytes32 hex) required'')
         else Inr p')"

definition callBig :: "deps \<Rightarrow> client \<Rightarrow> address \<Rightarrow> string \<Rightarrow> abival list \<Rightarrow> int weio" where
  "callBig d c a method args =
     bindE (callView d c a method args) (\<lambda>v. case v of
       VUint n \<Rightarrow> retE n
     | _ \<Rightarrow> failE (errorsNew (method @ '': unexpected type '' @ goType v)))"

definition relayer :: "deps \<Rightarrow> string \<Rightarrow> Account weio" where
  "relayer d payerKey =
     (if EqualFold (TrimSpace payerKey) ''server_key2'' then ServerKey2 d else ServerKey1 d)"

text \<open>The closure \<open>approve\<close> of \<open>ensureAllowance\<close>.\<close>

definition approve ::
  "deps \<Rightarrow> client \<Rightarrow> int64 \<Rightarrow> Account \<Rightarrow> address \<Rightarrow> address \<Rightarrow> address \<Rightarrow> int \<Rightarrow> uint64 \<Rightarrow> (txhash \<times> go_error option) wio" where
  "approve d c chainID rel token router owner amount nonce =
     (case abi_Pack (d_geth d) ''erc20.approve'' [VAddress router, VUint amount] of
        Inl e \<Rightarrow> ret ([], Some e)
      | Inr data \<Rightarrow>
          bindI (FeeFromProvider d c) (\<lambda>f. case f of
            Inl e \<Rightarrow> ret ([], Some e)
          | Inr fees \<Rightarrow>
              bindI (EstimateGas d c \<lparr>msg_From = owner, msg_To = token, msg_Value = None, msg_Data = data\<rparr>
                       45000 200000 120000) (\<lambda>gasLimit.
              bindI (SignAndSend d c chainID (priv rel) nonce token 0 data gasLimit fees) (\<lambda>(hash, err).
                case err of
                  Some e \<Rightarrow> ret (hash, Some e)
                | None \<Rightarrow> bindI (WaitReceipt d c hash) (\<lambda>(_, err). ret (hash, err))))))"

text \<open>A failed type assertion leaves \<open>cur\<close> nil, which counts as too little.\<close>

definition ensureAllowance ::
  "deps \<Rightarrow> client \<Rightarrow> int64 \<Rightarrow> Account \<Rightarrow> address \<Rightarrow> address \<Rightarrow> address \<Rightarrow> int \<Rightarrow> uint64 \<Rightarrow> (txhash \<times> uint64) weio" where
  "ensureAllowance d c chainID rel token router owner needed eoaNonce =
     bindE (callView d c token ''allowance'' [VAddress owner, VAddress router]) (\<lambda>v.
       if (case v of VUint cur \<Rightarrow> needed \<le> cur | _ \<Rightarrow> False) then retE ([], eoaNonce)
       else
         bindI (approve d c chainID rel token router owner needed eoaNonce) (\<lambda>(hash, err).
           if err = None then retE (hash, eoaNonce + 1)
           else
             bindI (approve d c chainID rel token router owner 0 eoaNonce) (\<lambda>(_, e). case e of
               Some e \<Rightarrow> failE (ErrWrap ''ERC20 approve(0) reset failed: '' e)
             | None \<Rightarrow>
                 bindI (approve d c chainID rel token router owner needed (eoaNonce + 1)) (\<lambda>(hash, err). case err of
                   Some e \<Rightarrow> failE e
                 | None \<Rightarrow> retE (hash, eoaNonce + 2)))))"

definition splitMessage :: "Params \<Rightarrow> address \<Rightarrow> int \<Rightarrow> int \<Rightarrow> payerSplitMessage" where
  "splitMessage p payer epoch nonce =
    \<lparr>m_Payer = payer, m_ERC20Token = p_ERC20Token p, m_Recipient0 = p_Recipient0 p, m_Recipient1 = p_Recipient1 p,
     m_NativeAmt0 = p_NativeAmount0 p, m_NativeAmt1 = p_NativeAmount1 p, m_ERC20Amt0 = p_ERC20Amount0 p,
     m_ERC20Amt1 = p_ERC20Amount1 p, m_SignerEpoch = epoch, m_Nonce = nonce\<rparr>"

definition splitArgs :: "Params \<Rightarrow> address \<Rightarrow> int \<Rightarrow> abival list" where
  "splitArgs p payer nonce =
     [VAddress payer, VAddress (p_ERC20Token p), VAddress (p_Recipient0 p), VAddress (p_Recipient1 p),
      VUint (p_NativeAmount0 p), VUint (p_NativeAmount1 p), VUint (p_ERC20Amount0 p), VUint (p_ERC20Amount1 p),
      VUint nonce]"

text \<open>The packed call; \<open>bigOf\<close> is the value of a pointer that \<open>validatePermit\<close> has filled.\<close>

definition bigOf :: "int option \<Rightarrow> int" where
  "bigOf v = (case v of Some n \<Rightarrow> n | None \<Rightarrow> 0)"

definition splitCalldata :: "geth \<Rightarrow> Params \<Rightarrow> address \<Rightarrow> int \<Rightarrow> bytes \<Rightarrow> bytes \<Rightarrow> go_error + bytes" where
  "splitCalldata g p payer nonce sig0 sig1 =
     abi_Pack g ''router.executeWithSignatures''
       (splitArgs p payer nonce @ [VBytes sig0, VBytes sig1, VUint (bigOf (p_PermitDeadline p)),
          VUint (bigOf (p_PermitAmount p)), VUint8 (p_PermitV p), VBytes32 (p_PermitR p), VBytes32 (p_PermitS p)])"

definition buildAndSend ::
  "deps \<Rightarrow> client \<Rightarrow> Params \<Rightarrow> address \<Rightarrow> address \<Rightarrow> Account \<Rightarrow> Account \<Rightarrow> Account \<Rightarrow> int \<Rightarrow> int \<Rightarrow> uint64
     \<Rightarrow> (txhash \<times> go_error option) wio" where
  "buildAndSend d c p router payer rel s1 s2 epoch nonce eoaNonce =
     (let g = d_geth d; fail = (\<lambda>e. ret ([], Some e)) in
      case typedDataHash g (p_ChainID p) router (splitMessage p payer epoch nonce) of Inl e \<Rightarrow> fail e | Inr localHash \<Rightarrow>
      bindI (callView d c router ''hashTypedDataPayerSplit'' (splitArgs p payer nonce)) (\<lambda>v. case v of
        Inl e \<Rightarrow> fail e
      | Inr (VBytes32 onChain) \<Rightarrow>
          if localHash \<noteq> onChain then fail (errorsNew ''EIP-712 digest mismatch (check chainId / router / signerEpoch)'')
          else
            (case Sign65 g localHash (priv s1) of Inl e \<Rightarrow> fail e | Inr sig0 \<Rightarrow>
            (case Sign65 g localHash (priv s2) of Inl e \<Rightarrow> fail e | Inr sig1 \<Rightarrow>
            (case splitCalldata g p payer nonce sig0 sig1 of Inl e \<Rightarrow> fail e | Inr calldata \<Rightarrow>
              let nativeTotal = p_NativeAmount0 p + p_NativeAmount1 p in
              bindI (FeeFromProvider d c) (\<lambda>f. case f of Inl e \<Rightarrow> fail e | Inr fees \<Rightarrow>
              bindI (EstimateGas d c \<lparr>msg_From = payer, msg_To = router, msg_Value = Some nativeTotal, msg_Data = calldata\<rparr>
                       180000 3000000 300000) (\<lambda>gasLimit.
              SignAndSend d c (p_ChainID p) (priv rel) eoaNonce router nativeTotal calldata gasLimit fees)))))
      | Inr v \<Rightarrow> fail (errorsNew (''hashTypedDataPayerSplit: unexpected type '' @ goType v))))"

text \<open>The settlement with its one retry after a nonce error; the result is the hash and the nonce used.\<close>

definition sendSettlement ::
  "deps \<Rightarrow> client \<Rightarrow> Params \<Rightarrow> address \<Rightarrow> Account \<Rightarrow> Account \<Rightarrow> Account \<Rightarrow> int \<Rightarrow> int \<Rightarrow> uint64 \<Rightarrow> (txhash \<times> int) weio" where
  "sendSettlement d c p router rel s1 s2 epoch payerNonce eoaNonce =
     bindI (buildAndSend d c p router (addr rel) rel s1 s2 epoch payerNonce eoaNonce) (\<lambda>(txHash, err).
       case err of
         None \<Rightarrow> retE (txHash, payerNonce)
       | Some e \<Rightarrow>
           if \<not> isNonceErr err then failE e
           else
             bindI (emit EvSleep) (\<lambda>_.
             bindE (callBig d c router ''payerNonce'' [VAddress (addr rel)]) (\<lambda>fresh.
             bindI (buildAndSend d c p router (addr rel) rel s1 s2 epoch fresh (eoaNonce + 1)) (\<lambda>(txHash, err).
               case err of Some e \<Rightarrow> failE e | None \<Rightarrow> retE (txHash, fresh)))))"

text \<open>
  The critical section of \<open>Execute\<close>; the captured variable is \<open>result\<close>. \<open>p\<close> has been through
  \<open>validatePermit\<close>.
\<close>

definition splitSection ::
  "deps \<Rightarrow> client \<Rightarrow> Params \<Rightarrow> address \<Rightarrow> Account \<Rightarrow> Account \<Rightarrow> Account \<Rightarrow> SplitResult weio" where
  "splitSection d c p router rel s1 s2 =
     (let payer = addr rel; g = d_geth d; erc20Needed = p_ERC20Amount0 p + p_ERC20Amount1 p in
      bindE (callBig d c router ''signerEpoch'' []) (\<lambda>epoch.
      bindE (callBig d c router ''payerNonce'' [VAddress payer]) (\<lambda>payerNonce.
      bindE (extcall (\<lambda>t. x_PendingNonceAt (d_ext d) t c payer) (EvPendingNonceAt c payer)) (\<lambda>eoaNonce.
      bindE (if p_ERC20Token p \<noteq> 0 \<and> 0 < erc20Needed \<and> bigOf (p_PermitDeadline p) = 0
             then ensureAllowance d c (p_ChainID p) rel (p_ERC20Token p) router payer erc20Needed eoaNonce
             else retE ([], eoaNonce)) (\<lambda>(approveHash, eoaNonce).
      bindE (sendSettlement d c p router rel s1 s2 epoch payerNonce eoaNonce) (\<lambda>(txHash, nonceUsed).
        retE \<lparr>s_TxHash = txHash, s_From = address_Hex g payer, s_Payer = address_Hex g payer,
          s_RouterAddress = address_Hex g router, s_NonceUsed = FormatInt nonceUsed,
          s_ApproveTxHash = approveHash\<rparr>))))))"

text \<open>As the closure passed to the lock: the result variable and the error.\<close>

definition closure :: "SplitResult weio \<Rightarrow> (SplitResult \<times> go_error option) wio" where
  "closure m = bindI m (\<lambda>r. case r of Inl e \<Rightarrow> ret (emptyResult, Some e) | Inr res \<Rightarrow> ret (res, None))"

definition Execute :: "deps \<Rightarrow> Params \<Rightarrow> SplitResult weio" where
  "Execute d p =
     bindE (liftE (EOFSProxy (registry d) (p_ChainID p))) (\<lambda>routerStr.
       if \<not> common_IsHexAddress (d_geth d) routerStr then failE (errorsNew ''invalid EOFS proxy address'')
       else if p_ERC20Token p = 0 \<and> (p_ERC20Amount0 p \<noteq> 0 \<or> p_ERC20Amount1 p \<noteq> 0)
       then failE (errorsNew ''erc20Token is zero address: erc20 amounts must be 0'')
       else if p_NativeAmount0 p + p_NativeAmount1 p + (p_ERC20Amount0 p + p_ERC20Amount1 p) \<le> 0
       then failE (errorsNew ''sum of amounts must be positive'')
       else
         let router = common_HexToAddress (d_geth d) routerStr in
         bindE (relayer d (p_PayerKey p)) (\<lambda>rel.
         bindE (ServerKey1 d) (\<lambda>s1.
         bindE (ServerKey2 d) (\<lambda>s2.
         bindE (liftE (validatePermit p)) (\<lambda>p.
         bindE (Client d (p_ChainID p)) (\<lambda>c.
         bindI (WithNonceLock d (NonceLockKey (p_ChainID p) (address_Hex (d_geth d) (addr rel))) emptyResult
                  (closure (splitSection d c p router rel s1 s2)))
           (\<lambda>(res, err). case err of Some e \<Rightarrow> failE e | None \<Rightarrow> retE res)))))))"

section \<open>split.go\<close>

record execBody =
  e_ChainID :: int64
  e_ERC20Token :: string
  e_Recipient0 :: string
  e_Recipient1 :: string
  e_NativeAmount0 :: any
  e_NativeAmount1 :: any
  e_ERC20Amount0 :: any
  e_ERC20Amount1 :: any
  e_PayerKey :: string
  e_PermitDeadline :: any
  e_PermitAmount :: any
  e_PermitV :: int64
  e_PermitR :: string
  e_PermitS :: string

definition emptyExec :: execBody where
  "emptyExec = \<lparr>e_ChainID = 0, e_ERC20Token = [], e_Recipient0 = [], e_Recipient1 = [], e_NativeAmount0 = ANil,
     e_NativeAmount1 = ANil, e_ERC20Amount0 = ANil, e_ERC20Amount1 = ANil, e_PayerKey = [], e_PermitDeadline = ANil,
     e_PermitAmount = ANil, e_PermitV = 0, e_PermitR = [], e_PermitS = []\<rparr>"

definition execFields :: "(string \<times> execBody decoder) list" where
  "execFields =
    [(''chainId'', decInt64 ''execBody.chainId'' (\<lambda>v b. b\<lparr>e_ChainID := v\<rparr>)),
     (''erc20Token'', decString ''execBody.erc20Token'' (\<lambda>v b. b\<lparr>e_ERC20Token := v\<rparr>)),
     (''recipient0'', decString ''execBody.recipient0'' (\<lambda>v b. b\<lparr>e_Recipient0 := v\<rparr>)),
     (''recipient1'', decString ''execBody.recipient1'' (\<lambda>v b. b\<lparr>e_Recipient1 := v\<rparr>)),
     (''nativeAmount0'', decAny ''execBody.nativeAmount0'' (\<lambda>v b. b\<lparr>e_NativeAmount0 := v\<rparr>)),
     (''nativeAmount1'', decAny ''execBody.nativeAmount1'' (\<lambda>v b. b\<lparr>e_NativeAmount1 := v\<rparr>)),
     (''erc20Amount0'', decAny ''execBody.erc20Amount0'' (\<lambda>v b. b\<lparr>e_ERC20Amount0 := v\<rparr>)),
     (''erc20Amount1'', decAny ''execBody.erc20Amount1'' (\<lambda>v b. b\<lparr>e_ERC20Amount1 := v\<rparr>)),
     (''payerKey'', decString ''execBody.payerKey'' (\<lambda>v b. b\<lparr>e_PayerKey := v\<rparr>)),
     (''permitDeadline'', decAny ''execBody.permitDeadline'' (\<lambda>v b. b\<lparr>e_PermitDeadline := v\<rparr>)),
     (''permitAmount'', decAny ''execBody.permitAmount'' (\<lambda>v b. b\<lparr>e_PermitAmount := v\<rparr>)),
     (''permitV'', decInt64 ''execBody.permitV'' (\<lambda>v b. b\<lparr>e_PermitV := v\<rparr>)),
     (''permitR'', decString ''execBody.permitR'' (\<lambda>v b. b\<lparr>e_PermitR := v\<rparr>)),
     (''permitS'', decString ''execBody.permitS'' (\<lambda>v b. b\<lparr>e_PermitS := v\<rparr>))]"

text \<open>The error text, or the number.\<close>

definition reqUint :: "any \<Rightarrow> string \<Rightarrow> string + int" where
  "reqUint v name =
     (if v = ANil then Inl (name @ '' required'')
      else case ToBigInt v of
        Inl e \<Rightarrow> Inl (''invalid '' @ name @ '': '' @ err_Error e)
      | Inr n \<Rightarrow> if n < 0 then Inl (name @ '' must be >= 0'') else Inr n)"

definition parseBytes32 :: "geth \<Rightarrow> string \<Rightarrow> bytes option" where
  "parseBytes32 g s =
     (let s = TrimSpace s in
      if s = [] then None
      else case hexutil_Decode g s of
        Inl _ \<Rightarrow> None
      | Inr b \<Rightarrow> if 32 < length b then None else Some (replicate (32 - length b) 0 @ b))"

fun firstErr :: "string list \<Rightarrow> string" where
  "firstErr [] = []"
| "firstErr (e # errs) = (if e \<noteq> [] then e else firstErr errs)"

text \<open>A value of type \<open>any\<close> that is nil or not a number leaves the pointer nil.\<close>

definition optBig :: "any \<Rightarrow> int option" where
  "optBig v = (if v = ANil then None else case ToBigInt v of Inr n \<Rightarrow> Some n | Inl _ \<Rightarrow> None)"

definition errText :: "string + int \<Rightarrow> string" where
  "errText r = (case r of Inl e \<Rightarrow> e | Inr _ \<Rightarrow> [])"

definition amountOf :: "string + int \<Rightarrow> int" where
  "amountOf r = (case r of Inr n \<Rightarrow> n | Inl _ \<Rightarrow> 0)"

definition checkExec :: "deps \<Rightarrow> json option \<Rightarrow> string + Params" where
  "checkExec d raw =
     (let g = d_geth d;
          (b, err) = (case raw of None \<Rightarrow> (emptyExec, Some ''invalid JSON'')
                      | Some j \<Rightarrow> Unmarshal ''split.execBody'' execFields j emptyExec) in
      if err \<noteq> None then Inl ''invalid JSON body''
      else case ResolveChainID (registry d) (e_ChainID b) of
        Inl _ \<Rightarrow> Inl ''chainId required''
      | Inr chainID \<Rightarrow>
          if \<not> common_IsHexAddress g (TrimSpace (e_ERC20Token b)) then
            Inl ''valid erc20Token required (use 0x0 for native-only)''
          else if \<not> common_IsHexAddress g (e_Recipient0 b) \<or> \<not> common_IsHexAddress g (e_Recipient1 b) then
            Inl ''valid recipient0/recipient1 required''
          else
            let na0 = reqUint (e_NativeAmount0 b) ''nativeAmount0'';
                na1 = reqUint (e_NativeAmount1 b) ''nativeAmount1'';
                ea0 = reqUint (e_ERC20Amount0 b) ''erc20Amount0'';
                ea1 = reqUint (e_ERC20Amount1 b) ''erc20Amount1'';
                msg = firstErr [errText na0, errText na1, errText ea0, errText ea1]
            in if msg \<noteq> [] then Inl msg
               else Inr \<lparr>p_ChainID = chainID, p_ERC20Token = common_HexToAddress g (TrimSpace (e_ERC20Token b)),
                      p_Recipient0 = common_HexToAddress g (e_Recipient0 b),
                      p_Recipient1 = common_HexToAddress g (e_Recipient1 b),
                      p_NativeAmount0 = amountOf na0, p_NativeAmount1 = amountOf na1,
                      p_ERC20Amount0 = amountOf ea0, p_ERC20Amount1 = amountOf ea1, p_PayerKey = e_PayerKey b,
                      p_PermitDeadline = optBig (e_PermitDeadline b), p_PermitAmount = optBig (e_PermitAmount b),
                      p_PermitV = of_int (e_PermitV b),
                      p_PermitR = (case parseBytes32 g (e_PermitR b) of Some r \<Rightarrow> r | None \<Rightarrow> zeroBytes32),
                      p_PermitS = (case parseBytes32 g (e_PermitS b) of Some r \<Rightarrow> r | None \<Rightarrow> zeroBytes32)\<rparr>)"

definition ExecuteHandler :: "deps \<Rightarrow> json option \<Rightarrow> SplitResult http_response wio" where
  "ExecuteHandler d raw =
     (case checkExec d raw of
        Inl msg \<Rightarrow> ret (WriteValidationError msg)
      | Inr p \<Rightarrow>
          bindI (Execute d p) (\<lambda>r. case r of
            Inl e \<Rightarrow> ret (WriteTxError (d_geth d) (Some e))
          | Inr res \<Rightarrow> ret (WriteJSON 200 (OkBody res))))"

section \<open>The handler\<close>

lemma reqUint_nonneg: "errText (reqUint v n) = [] \<Longrightarrow> 0 \<le> amountOf (reqUint v n)"
  by (auto simp: reqUint_def errText_def amountOf_def split: if_splits sum.splits)

lemma firstErr_Nil: "firstErr es = [] \<longleftrightarrow> (\<forall>e \<in> set es. e = [])"
  by (induction es) auto

lemma length_parseBytes32: "parseBytes32 g s = Some b \<Longrightarrow> length b = 32"
  by (auto simp: parseBytes32_def Let_def split: if_splits sum.splits)

text \<open>Parameters a request can have: no amount is negative, and the signature parts have 32 bytes.\<close>

definition params_ok :: "Params \<Rightarrow> bool" where
  "params_ok p \<longleftrightarrow> 0 \<le> p_NativeAmount0 p \<and> 0 \<le> p_NativeAmount1 p \<and> 0 \<le> p_ERC20Amount0 p \<and> 0 \<le> p_ERC20Amount1 p
     \<and> length (p_PermitR p) = 32 \<and> length (p_PermitS p) = 32"

lemma checkExec_ok: "checkExec d raw = Inr p \<Longrightarrow> params_ok p"
  by (auto simp: checkExec_def Let_def params_ok_def firstErr_Nil reqUint_nonneg zeroBytes32_def
      dest: length_parseBytes32 split: if_splits sum.splits option.splits prod.splits)

interpretation sp: http_handler "d_geth d" "checkExec d" "Execute d" "ExecuteHandler d" for d
  by unfold_locales (simp_all add: ExecuteHandler_def io_simps)

end
