(* ===== verification/Deploy.thy ===== *)
theory Deploy
  imports Core
begin

text \<open>
  \<open>internal/deploy\<close>: deployment of an account proxy through the CREATE2 factory. The address
  depends on the deployer, so the deployer is always the first wallet of the chain's pool.
\<close>

section \<open>deploy.go\<close>

record deployBody =
  dp_ChainID :: int64
  dp_ProxyBytecodeHex :: string
  dp_Salt :: string
  dp_FactoryAddress :: string

record deployResponse =
  DeployedAddress :: string
  DeployTxHash :: string
  PredictedAddress :: string
  Match :: bool

definition emptyDeploy :: deployBody where
  "emptyDeploy = \<lparr>dp_ChainID = 0, dp_ProxyBytecodeHex = [], dp_Salt = [], dp_FactoryAddress = []\<rparr>"

definition deployFields :: "(string \<times> deployBody decoder) list" where
  "deployFields =
    [(''chainId'', decInt64 ''deployBody.chainId'' (\<lambda>v b. b\<lparr>dp_ChainID := v\<rparr>)),
     (''proxyBytecodeHex'', decString ''deployBody.proxyBytecodeHex'' (\<lambda>v b. b\<lparr>dp_ProxyBytecodeHex := v\<rparr>)),
     (''salt'', decString ''deployBody.salt'' (\<lambda>v b. b\<lparr>dp_Salt := v\<rparr>)),
     (''factoryAddress'', decString ''deployBody.factoryAddress'' (\<lambda>v b. b\<lparr>dp_FactoryAddress := v\<rparr>))]"

definition computeAddress :: "deps \<Rightarrow> int64 \<Rightarrow> address \<Rightarrow> address \<Rightarrow> bytes \<Rightarrow> bytes \<Rightarrow> address weio" where
  "computeAddress d chainID factory deployer salt bytecodeHash =
     bindE (Client d chainID) (\<lambda>c.
     bindE (callView d c factory ''computeAddress'' [VAddress deployer, VBytes32 salt, VBytes32 bytecodeHash]) (\<lambda>v.
       case v of
         VAddress a \<Rightarrow> retE a
       | _ \<Rightarrow> failE (errorsNew (''computeAddress: unexpected type '' @ goType v))))"

text \<open>The loop over the logs of the receipt.\<close>

fun deployedAddress :: "geth \<Rightarrow> tx_log list \<Rightarrow> address" where
  "deployedAddress g [] = 0"
| "deployedAddress g (lg # logs) =
     (if 2 \<le> length (log_Topics lg) \<and> log_Topics lg ! 0 = abi_EventID g ''Deployed''
      then common_BytesToAddress g (log_Topics lg ! 1)
      else deployedAddress g logs)"

text \<open>
  Address, hash and error. \<open>SendManagedTx\<close> returns a receipt and a hash whenever it returns no
  error; the other cases cannot occur.
\<close>

definition deploy :: "deps \<Rightarrow> int64 \<Rightarrow> Account \<Rightarrow> address \<Rightarrow> bytes \<Rightarrow> bytes \<Rightarrow> (address \<times> string \<times> go_error option) wio" where
  "deploy d chainID deployer factory bytecode salt =
     bindI (SendManagedTx d chainID deployer factory None ''deploy'' [VBytes bytecode, VBytes32 salt]) (\<lambda>((tx, receipt), err).
       case err of
         Some e \<Rightarrow> ret (0, case tx of Some h \<Rightarrow> h | None \<Rightarrow> [], Some e)
       | None \<Rightarrow>
           (case (tx, receipt) of
              (Some h, Some rc) \<Rightarrow> ret (deployedAddress (d_geth d) (rcpt_Logs rc), h, None)
            | _ \<Rightarrow> ret (0, [], Some (GoPanic ''nil dereference''))))"

record deployReq =
  rq_ChainID :: int64
  rq_Bytecode :: bytes
  rq_Salt :: string
  rq_Factory :: address

definition checkDeploy :: "deps \<Rightarrow> json option \<Rightarrow> string + deployReq" where
  "checkDeploy d raw =
     (let g = d_geth d;
          (body, err) = (case raw of None \<Rightarrow> (emptyDeploy, Some ''invalid JSON'')
                         | Some j \<Rightarrow> Unmarshal ''deploy.deployBody'' deployFields j emptyDeploy) in
      if err \<noteq> None then Inl ''invalid JSON body''
      else case ResolveChainID (registry d) (dp_ChainID body) of
        Inl _ \<Rightarrow> Inl ''chainId required''
      | Inr chainID \<Rightarrow>
          (case ParseHexBytes g (TrimSpace (dp_ProxyBytecodeHex body)) of
             Inl _ \<Rightarrow> Inl ''proxyBytecodeHex required''
           | Inr bytecode \<Rightarrow>
               if bytecode = [] then Inl ''proxyBytecodeHex required''
               else
                 let salt = (if TrimSpace (dp_Salt body) = [] then ''account-proxy-1'' else dp_Salt body);
                     factoryAddr = TrimSpace (dp_FactoryAddress body);
                     factoryAddr = (if factoryAddr = [] then Create2Factory (registry d) chainID else factoryAddr)
                 in if \<not> common_IsHexAddress g factoryAddr then
                      Inl ''factoryAddress required (or set CREATE2_FACTORY_ADDRESS)''
                    else Inr \<lparr>rq_ChainID = chainID, rq_Bytecode = bytecode, rq_Salt = salt,
                           rq_Factory = common_HexToAddress g factoryAddr\<rparr>))"

definition performDeploy :: "deps \<Rightarrow> deployReq \<Rightarrow> deployResponse weio" where
  "performDeploy d req =
     (let g = d_geth d; chainID = rq_ChainID req in
      bindE (PrimaryBundler d chainID) (\<lambda>deployer.
        let saltBytes = SaltToBytes32 g (rq_Salt req);
            bytecodeHash = Keccak256 g (rq_Bytecode req);
            factory = rq_Factory req
        in bindE (computeAddress d chainID factory (addr deployer) saltBytes bytecodeHash) (\<lambda>predicted.
           bindI (deploy d chainID deployer factory (rq_Bytecode req) saltBytes) (\<lambda>(deployed, txHash, err).
             case err of
               Some e \<Rightarrow> failE e
             | None \<Rightarrow> retE \<lparr>DeployedAddress = address_Hex g deployed, DeployTxHash = txHash,
                 PredictedAddress = address_Hex g predicted,
                 Match = EqualFold (address_Hex g predicted) (address_Hex g deployed)\<rparr>))))"

definition Deploy :: "deps \<Rightarrow> json option \<Rightarrow> deployResponse http_response wio" where
  "Deploy d raw =
     (case checkDeploy d raw of
        Inl msg \<Rightarrow> ret (WriteValidationError msg)
      | Inr req \<Rightarrow>
          bindI (performDeploy d req) (\<lambda>r. case r of
            Inl e \<Rightarrow> ret (WriteTxError (d_geth d) (Some e))
          | Inr res \<Rightarrow> ret (WriteJSON 200 (OkBody res))))"

section \<open>A deployment that succeeds\<close>

lemma SaltToBytes32_length [simp]: "length (SaltToBytes32 g s) = 32"
  by (simp add: SaltToBytes32_def Let_def split: sum.split)

lemma deploy_success:
  assumes "deploy d ch acc factory code salt w = ((a, h, None), w')"
  shows "\<exists>rc. SendManagedTx d ch acc factory None ''deploy'' [VBytes code, VBytes32 salt] w = (((Some h, Some rc), None), w')
    \<and> a = deployedAddress (d_geth d) (rcpt_Logs rc)"
proof -
  obtain tx rc err u where s: "SendManagedTx d ch acc factory None ''deploy'' [VBytes code, VBytes32 salt] w = (((tx, rc), err), u)"
    by (metis surj_pair)
  with assms show ?thesis
    by (cases err; cases tx; cases rc) (auto simp: deploy_def io_simps)
qed

lemma computeAddress_success:
  assumes "computeAddress d ch factory dep salt code w = (Inr a, w')"
  obtains c es where "list_all dial_event es" "pools w' = pools w"
    "trace w' = trace w @ es @ [EvCall c factory ''computeAddress'' [VAddress dep, VBytes32 salt, VBytes32 code] (Inr (VAddress a))]"
proof -
  from assms obtain c w1 where cl: "Client d ch w = (Inr c, w1)"
    and v: "bindE (callView d c factory ''computeAddress'' [VAddress dep, VBytes32 salt, VBytes32 code])
       (\<lambda>v. case v of VAddress a \<Rightarrow> retE a | _ \<Rightarrow> failE (errorsNew (''computeAddress: unexpected type '' @ goType v))) w1 = (Inr a, w')"
    by (auto simp: computeAddress_def bindE_Inr_iff)
  from Client_trace [OF cl] obtain es where es: "trace w1 = trace w @ es" "list_all dial_event es" by blast
  from v have "w' = w1\<lparr>trace := trace w1 @ [EvCall c factory ''computeAddress'' [VAddress dep, VBytes32 salt, VBytes32 code] (Inr (VAddress a))]\<rparr>"
    by (auto simp: callView_def io_simps split: sum.splits abival.splits)
  with es that [OF es(2), of c] Client_frame(3) [OF cl] show thesis by simp
qed

text \<open>
  The address that the logs of a receipt give: that of the first \<open>Deployed\<close> event, the zero address
  when there is none.
\<close>

definition deployed_log :: "geth \<Rightarrow> tx_log \<Rightarrow> address \<Rightarrow> bool" where
  "deployed_log g lg a \<longleftrightarrow> (\<exists>t ts. log_Topics lg = abi_EventID g ''Deployed'' # t # ts \<and> a = common_BytesToAddress g t)"

definition reported_by :: "geth \<Rightarrow> tx_log list \<Rightarrow> address \<Rightarrow> bool" where
  "reported_by g logs a \<longleftrightarrow>
     (\<exists>pre lg post. logs = pre @ lg # post \<and> deployed_log g lg a \<and> (\<forall>l \<in> set pre. \<forall>b. \<not> deployed_log g l b))
     \<or> (\<forall>l \<in> set logs. \<forall>b. \<not> deployed_log g l b) \<and> a = 0"

lemma deployed_log_iff: "(\<exists>b. deployed_log g lg b) \<longleftrightarrow> 2 \<le> length (log_Topics lg) \<and> log_Topics lg ! 0 = abi_EventID g ''Deployed''"
proof
  assume l: "2 \<le> length (log_Topics lg) \<and> log_Topics lg ! 0 = abi_EventID g ''Deployed''"
  then obtain t1 t ts where "log_Topics lg = t1 # t # ts" by (auto simp: Suc_le_length_iff numeral_2_eq_2)
  with l show "\<exists>b. deployed_log g lg b" by (auto simp: deployed_log_def)
qed (auto simp: deployed_log_def)

lemma deployedAddress_reported: "reported_by g logs (deployedAddress g logs)"
proof (induction logs)
  case (Cons lg logs)
  show ?case
  proof (cases "\<exists>b. deployed_log g lg b")
    case True
    then have "deployed_log g lg (deployedAddress g (lg # logs))" by (auto simp: deployed_log_def)
    then show ?thesis unfolding reported_by_def by (metis append_Nil empty_iff list.set(1))
  next
    case False
    then have "deployedAddress g (lg # logs) = deployedAddress g logs" using deployed_log_iff [of g lg] by auto
    with Cons False show ?thesis unfolding reported_by_def by (metis append_Cons set_ConsD)
  qed
qed (simp add: reported_by_def)

text \<open>
  What a deployment answered with 200 has done. The wallet \<open>p ! 0\<close> of the chain's pool asks the
  factory for the address of exactly the salt and bytecode whose deployment it then sends, and the
  answer reports the address that the receipt of the mined transaction gives.
\<close>

definition deployed_as :: "deps \<Rightarrow> deployReq \<Rightarrow> deployResponse \<Rightarrow> world \<Rightarrow> world \<Rightarrow> bool" where
  "deployed_as d req res w w' \<longleftrightarrow>
     (let g = d_geth d; ch = rq_ChainID req; salt = SaltToBytes32 g (rq_Salt req); code = rq_Bytecode req in
      \<exists>p c0 predicted pre dial c noise n opts h rc post a.
        pools w' ch = Some p \<and> signed_by d (p ! 0) ch n None opts
        \<and> list_all (\<lambda>e. key_event e \<or> dial_event e) pre \<and> list_all dial_event dial \<and> quiet noise \<and> quiet post
        \<and> new_events w w' = pre @
            EvCall c0 (rq_Factory req) ''computeAddress'' [VAddress (addr (p ! 0)), VBytes32 salt, VBytes32 (Keccak256 g code)]
              (Inr (VAddress predicted)) #
            dial @ EvLock (NonceLockKey ch (address_Hex g (addr (p ! 0)))) # noise @
            managed_events c (addr (p ! 0)) n opts (rq_Factory req) ''deploy'' [VBytes code, VBytes32 salt] h rc @
            post @ [EvUnlock (NonceLockKey ch (address_Hex g (addr (p ! 0))))]
        \<and> reported_by g (rcpt_Logs rc) a
        \<and> res = \<lparr>DeployedAddress = address_Hex g a, DeployTxHash = h, PredictedAddress = address_Hex g predicted,
            Match = EqualFold (address_Hex g predicted) (address_Hex g a)\<rparr>)"

lemma performDeploy_deployed:
  assumes "performDeploy d req w = (Inr res, w')"
  shows "deployed_as d req res w w'"
proof -
  let ?g = "d_geth d" and ?ch = "rq_ChainID req" and ?salt = "SaltToBytes32 (d_geth d) (rq_Salt req)"
  let ?code = "rq_Bytecode req" and ?f = "rq_Factory req"
  from assms obtain dep w1 predicted w2 where pr: "PrimaryBundler d ?ch w = (Inr dep, w1)"
    and ca: "computeAddress d ?ch ?f (addr dep) ?salt (Keccak256 ?g ?code) w1 = (Inr predicted, w2)"
    and rest: "bindI (deploy d ?ch dep ?f ?code ?salt) (\<lambda>(deployed, h, err). case err of Some e \<Rightarrow> failE e
       | None \<Rightarrow> retE \<lparr>DeployedAddress = address_Hex ?g deployed, DeployTxHash = h, PredictedAddress = address_Hex ?g predicted,
        Match = EqualFold (address_Hex ?g predicted) (address_Hex ?g deployed)\<rparr>) w2 = (Inr res, w')"
    unfolding performDeploy_def Let_def bindE_Inr_iff by blast
  obtain deployed h err u where de0: "deploy d ?ch dep ?f ?code ?salt w2 = ((deployed, h, err), u)" by (metis surj_pair)
  with rest have de: "deploy d ?ch dep ?f ?code ?salt w2 = ((deployed, h, None), w')"
    and res: "res = \<lparr>DeployedAddress = address_Hex ?g deployed, DeployTxHash = h, PredictedAddress = address_Hex ?g predicted,
        Match = EqualFold (address_Hex ?g predicted) (address_Hex ?g deployed)\<rparr>"
    by (auto simp: io_simps split: option.splits)
  from pr obtain p es where p: "pools w1 ?ch = Some p" "dep = p ! 0" "trace w1 = trace w @ es" "list_all key_event es"
    by (rule PrimaryBundler_run) (metis world.select_convs(1) world.surjective world.update_convs)
  from ca obtain c0 fs where fs: "list_all dial_event fs" "pools w2 = pools w1"
    "trace w2 = trace w1 @ fs @ [EvCall c0 ?f ''computeAddress'' [VAddress (addr dep), VBytes32 ?salt, VBytes32 (Keccak256 ?g ?code)]
       (Inr (VAddress predicted))]" by (rule computeAddress_success)
  from deploy_success [OF de] obtain rc where s: "SendManagedTx d ?ch dep ?f None ''deploy'' [VBytes ?code, VBytes32 ?salt] w2
      = (((Some h, Some rc), None), w')" and a: "deployed = deployedAddress ?g (rcpt_Logs rc)" by blast
  from SendManagedTx_mined [OF s] obtain dial c noise n opts post where
    m: "signed_by d dep ?ch n None opts" "list_all dial_event dial" "quiet noise" "quiet post"
    and tr: "trace w' = trace w2 @ dial @ EvLock (NonceLockKey ?ch (address_Hex ?g (addr dep))) # noise
         @ managed_events c (addr dep) n opts ?f ''deploy'' [VBytes ?code, VBytes32 ?salt] h rc
         @ post @ [EvUnlock (NonceLockKey ?ch (address_Hex ?g (addr dep)))]" by blast
  have pw: "pools w' ?ch = Some p" using keepsD [OF SendManagedTx_pools s] fs(2) p(1) by simp
  have pre: "list_all (\<lambda>e. key_event e \<or> dial_event e) (es @ fs)"
    using p(4) fs(1) by (auto simp: list_all_iff)
  show ?thesis unfolding deployed_as_def Let_def
    by (rule exI [of _ p], rule exI [of _ c0], rule exI [of _ predicted], rule exI [of _ "es @ fs"], rule exI [of _ dial],
        rule exI [of _ c], rule exI [of _ noise], rule exI [of _ n], rule exI [of _ opts], rule exI [of _ h],
        rule exI [of _ rc], rule exI [of _ post], rule exI [of _ deployed])
       (use pw pre m tr fs(3) p(2,3) res a deployedAddress_reported in \<open>simp add: new_events_def\<close>)
qed

interpretation dep: http_handler "d_geth d" "checkDeploy d" "performDeploy d" "Deploy d" for d
  by unfold_locales (simp_all add: Deploy_def io_simps)

text \<open>
  C9: a deployment request is rejected with 400 without touching anything, or fails with a
  status of the error contract, or is answered with 200 after the first wallet of the chain's
  pool asked the factory for the address of this salt and bytecode and then sent the deployment
  of exactly them, with a fresh nonce under its nonce lock, in a transaction that was mined. The
  answer reports the predicted address, the address of the first \<open>Deployed\<close> event of the
  transaction's receipt (the zero address when it has none: the status of the receipt is not
  looked at), and whether they agree.
\<close>

theorem Deploy_answers:
  assumes "Deploy d raw w = ((st, b), w')"
  shows "(st = 400 \<longrightarrow> w' = w) \<and> st \<in> {200, 400, 422, 409, 503, 500}
    \<and> (st = 200 \<longrightarrow> (\<exists>req res. checkDeploy d raw = Inr req \<and> b = OkBody res \<and> deployed_as d req res w w'))"
  using dep.answers [OF assms, of "\<lambda>req res. deployed_as d req res w w'"] performDeploy_deployed by blast

text \<open>A node that mines a deployment with the given status and logs, and predicts the address 9.\<close>

definition deploy_ext :: "uint64 \<Rightarrow> tx_log list \<Rightarrow> ext" where
  "deploy_ext st logs = (mining_ext st)\<lparr>x_Call := \<lambda>t c a m vs. Inr (VAddress 9),
     x_WaitMined := \<lambda>t c h. Inr \<lparr>rcpt_Status = st, rcpt_GasUsed = 21000, rcpt_EffectiveGasPrice = Some 1, rcpt_Logs = logs\<rparr>\<rparr>"

definition deploy_deps :: "uint64 \<Rightarrow> tx_log list \<Rightarrow> deps" where
  "deploy_deps st logs =
     (demo_deps (deploy_ext st logs) False)\<lparr>d_geth := opaque_geth\<lparr>hexutil_Decode := \<lambda>_. Inr [0xab, 0xcd]\<rparr>\<rparr>"

definition deploy_world :: world where
  "deploy_world = init_world\<lparr>clients := [1 \<mapsto> 5], pools := [1 \<mapsto> [\<lparr>priv = 1, addr = 1\<rparr>]]\<rparr>"

definition demo_deployment :: json where
  "demo_deployment = JObj [(''chainId'', JNum ''1''), (''proxyBytecodeHex'', JStr ''0xabcd''),
     (''factoryAddress'', JStr (replicate 42 (CHR ''f'')))]"

definition demo_deploy_req :: deployReq where
  "demo_deploy_req = \<lparr>rq_ChainID = 1, rq_Bytecode = [0xab, 0xcd], rq_Salt = ''account-proxy-1'', rq_Factory = 42\<rparr>"

lemma deploy_deps_sel:
  "d_ext (deploy_deps st logs) = deploy_ext st logs" "d_rdb (deploy_deps st logs) = False"
  "common_IsHexAddress (d_geth (deploy_deps st logs)) s \<longleftrightarrow> length s = 42"
  "common_HexToAddress (d_geth (deploy_deps st logs)) s = of_nat (length s)"
  "hexutil_Decode (d_geth (deploy_deps st logs)) s = Inr [0xab, 0xcd]"
  "address_Hex (d_geth (deploy_deps st logs)) a = ''0x'' @ decNat (unat a)"
  "abi_EventID (d_geth (deploy_deps st logs)) = bytes_of"
  "common_BytesToAddress (d_geth (deploy_deps st logs)) t = of_nat (length t)"
  by (simp_all add: deploy_deps_def opaque_geth_def)

lemma demo_deployment_ok: "checkDeploy (deploy_deps st logs) (Some demo_deployment) = Inr demo_deploy_req"
proof -
  have p: "ParseInt ''1'' 10 = Some 1" "TrimSpace ''0xabcd'' = ''0xabcd''" "TrimSpace [] = []"
    "TrimSpace (replicate 42 (CHR ''f'')) = replicate 42 (CHR ''f'')" by code_simp+
  have h: "ParseHexBytes (d_geth (deploy_deps st logs)) ''0xabcd'' = Inr [0xab, 0xcd]"
    by (simp add: ParseHexBytes_def p deploy_deps_sel Let_def)
  define b where "b = emptyDeploy\<lparr>dp_ChainID := 1, dp_ProxyBytecodeHex := ''0xabcd'', dp_FactoryAddress := replicate 42 (CHR ''f'')\<rparr>"
  have u: "Unmarshal ''deploy.deployBody'' deployFields demo_deployment emptyDeploy = (b, None)"
    by (simp add: Unmarshal_def demo_deployment_def deployFields_def decodeStep_def EqualFold_def decString_def decInt64_def
        b_def p(1) lowerByte_def isUpper_def)
  have b: "dp_ChainID b = 1" "dp_ProxyBytecodeHex b = ''0xabcd''" "dp_Salt b = []" "dp_FactoryAddress b = replicate 42 (CHR ''f'')"
    by (simp_all add: b_def emptyDeploy_def)
  show ?thesis
    by (simp add: checkDeploy_def u b p h deploy_deps_sel ResolveChainID_def Let_def demo_deploy_req_def)
qed

lemma deploy_run:
  "\<exists>w'. SendManagedTx (deploy_deps st logs) 1 \<lparr>priv = 1, addr = 1\<rparr> dest None m args (deploy_world\<lparr>trace := t\<rparr>)
     = (((Some ''0xaa'', Some \<lparr>rcpt_Status = st, rcpt_GasUsed = 21000, rcpt_EffectiveGasPrice = Some 1, rcpt_Logs = logs\<rparr>), None), w')"
proof -
  have "Transactor (d_geth (deploy_deps st logs)) \<lparr>priv = 1, addr = 1\<rparr> 1
      = Inr \<lparr>opts_From = 1, opts_ChainID = 1, opts_Nonce = 0, opts_Value = None\<rparr>"
    by (simp add: Transactor_def deploy_deps_def opaque_geth_def)
  then show ?thesis
    by (simp add: SendManagedTx_def Client_def WithNonceLock_def managedTx_def deploy_ext_def mining_ext_def deploy_deps_sel
        deploy_world_def io_simps Let_def)
qed

lemma Deploy_run:
  fixes st :: uint64 and logs :: "tx_log list"
  defines "a \<equiv> deployedAddress (d_geth (deploy_deps st logs)) logs"
  shows "\<exists>w' c rc. Deploy (deploy_deps st logs) (Some demo_deployment) deploy_world
       = ((200, OkBody \<lparr>DeployedAddress = ''0x'' @ decNat (unat a), DeployTxHash = ''0xaa'', PredictedAddress = ''0x9'',
            Match = EqualFold ''0x9'' (''0x'' @ decNat (unat a))\<rparr>), w')
     \<and> EvWaitMined c ''0xaa'' (Inr rc) \<in> set (trace w') \<and> rcpt_Status rc = st"
proof -
  let ?d = "deploy_deps st logs" and ?acc = "\<lparr>priv = 1, addr = 1\<rparr> :: Account" and ?g = "d_geth (deploy_deps st logs)"
  let ?rc = "\<lparr>rcpt_Status = st, rcpt_GasUsed = 21000, rcpt_EffectiveGasPrice = Some 1, rcpt_Logs = logs\<rparr> :: tx_receipt"
  have hex: "address_Hex ?g 9 = ''0x9''" "address_Hex ?g a = ''0x'' @ decNat (unat a)"
    by (simp_all add: deploy_deps_sel) code_simp
  have pr: "PrimaryBundler ?d 1 deploy_world = (Inr ?acc, deploy_world)"
    by (simp add: PrimaryBundler_def BundlerPool_def deploy_world_def walletAt_def io_simps)
  obtain t where ca: "computeAddress ?d 1 42 1 (SaltToBytes32 ?g ''account-proxy-1'') (Keccak256 ?g [0xab, 0xcd]) deploy_world
      = (Inr 9, deploy_world\<lparr>trace := t\<rparr>)"
    by (simp add: computeAddress_def Client_def callView_def deploy_ext_def deploy_deps_sel deploy_world_def io_simps)
  obtain w' where run: "SendManagedTx ?d 1 ?acc 42 None ''deploy'' [VBytes [0xab, 0xcd],
       VBytes32 (SaltToBytes32 ?g ''account-proxy-1'')] (deploy_world\<lparr>trace := t\<rparr>) = (((Some ''0xaa'', Some ?rc), None), w')"
    using deploy_run by blast
  have "\<exists>c. EvWaitMined c ''0xaa'' (Inr ?rc) \<in> set (trace w')"
    using SendManagedTx_mined [OF run] run by (auto simp: managed_events_def)
  moreover have "Deploy ?d (Some demo_deployment) deploy_world = ((200, OkBody \<lparr>DeployedAddress = address_Hex ?g a,
       DeployTxHash = ''0xaa'', PredictedAddress = address_Hex ?g 9, Match = EqualFold (address_Hex ?g 9) (address_Hex ?g a)\<rparr>), w')"
    by (simp add: Deploy_def demo_deployment_ok demo_deploy_req_def performDeploy_def Let_def deploy_def bindE_def bindI_def
        pr ca [simplified] run [simplified] retE_def ret_def WriteJSON_def a_def)
  ultimately show ?thesis unfolding hex by (metis tx_receipt.select_convs(1))
qed

text \<open>
  A deployment that reverts is answered with 200 and the zero address: neither the receipt's
  status nor the absence of the event is looked at.
\<close>

lemma Deploy_reverted:
  "\<exists>w' c h rc. Deploy (deploy_deps 0 []) (Some demo_deployment) deploy_world = ((200, OkBody \<lparr>DeployedAddress = ''0x0'',
       DeployTxHash = h, PredictedAddress = ''0x9'', Match = False\<rparr>), w')
     \<and> EvWaitMined c h (Inr rc) \<in> set (trace w') \<and> rcpt_Status rc = 0"
proof -
  have "decNat (unat (0 :: address)) = ''0''" by code_simp
  then have "''0x'' @ decNat (unat (deployedAddress (d_geth (deploy_deps 0 [])) [])) = ''0x0''" "EqualFold ''0x9'' ''0x0'' = False"
    by (simp_all add: EqualFold_def lowerByte_def isUpper_def)
  with Deploy_run [of 0 "[]"] show ?thesis by metis
qed

text \<open>The contract is deployed at the predicted address: the receipt has status 1 and the event of it.\<close>

definition demo_logs :: "tx_log list" where
  "demo_logs = [\<lparr>log_Topics = [bytes_of ''Transfer'']\<rparr>, \<lparr>log_Topics = [bytes_of ''Deployed'', replicate 9 0]\<rparr>]"

lemma Deploy_deployed:
  "\<exists>w' c rc. Deploy (deploy_deps 1 demo_logs) (Some demo_deployment) deploy_world = ((200, OkBody \<lparr>DeployedAddress = ''0x9'',
       DeployTxHash = ''0xaa'', PredictedAddress = ''0x9'', Match = True\<rparr>), w')
     \<and> EvWaitMined c ''0xaa'' (Inr rc) \<in> set (trace w') \<and> rcpt_Status rc = 1"
proof -
  have "deployedAddress (d_geth (deploy_deps 1 demo_logs)) demo_logs = 9"
    by (simp add: demo_logs_def deploy_deps_sel)
  moreover have "''0x'' @ decNat (unat (9 :: address)) = ''0x9''" by code_simp
  moreover have "EqualFold ''0x9'' ''0x9'' = True" by (simp add: EqualFold_def)
  ultimately show ?thesis using Deploy_run [of 1 demo_logs] by (simp only:)
qed

theorem Deploy_answers_witness:
  "\<exists>res w'. Deploy (deploy_deps 1 demo_logs) (Some demo_deployment) deploy_world = ((200, OkBody res), w')
     \<and> DeployedAddress res = ''0x9'' \<and> Match res \<and> deployed_as (deploy_deps 1 demo_logs) demo_deploy_req res deploy_world w'"
proof -
  obtain w' where run: "Deploy (deploy_deps 1 demo_logs) (Some demo_deployment) deploy_world
      = ((200, OkBody \<lparr>DeployedAddress = ''0x9'', DeployTxHash = ''0xaa'', PredictedAddress = ''0x9'', Match = True\<rparr>), w')"
    using Deploy_deployed by blast
  from Deploy_answers [OF run] run show ?thesis by (simp add: demo_deployment_ok)
qed

end
