(* ===== verification/GasPool.thy ===== *)
theory GasPool
  imports Core
begin

text \<open>
  \<open>internal/entrypoint\<close>: deposits to and withdrawals from the global gas pool of the EntryPoint
  contract, always by the first wallet of the chain's pool, and the completion time of the
  answer in Korean time.
\<close>

section \<open>Time\<close>

text \<open>
  The Gregorian calendar of package \<open>time\<close>. Days are counted from 1970-01-01; the years of the
  computation start in March, so that the leap day is the last of its year: a cycle of 400 such
  years has 146097 days, a century 36524 (the last of a cycle one more), four years 1461 (the
  last of a century possibly one less), and \<open>doy\<close> counts the days of the year.
\<close>

definition civil :: "int \<Rightarrow> int \<times> int \<times> int" where
  "civil days =
     (let z = days + 719468;
          doe = z mod 146097;
          c = min 3 (doe div 36524);
          doc = doe - 36524 * c;
          q = doc div 1461;
          doq = doc - 1461 * q;
          a = min 3 (doq div 365);
          doy = doq - 365 * a;
          mp = (5 * doy + 2) div 153;
          d = doy - (153 * mp + 2) div 5 + 1;
          m = (if mp < 10 then mp + 3 else mp - 9);
          y = 400 * (z div 146097) + 100 * c + 4 * q + a + (if m \<le> 2 then 1 else 0)
      in (y, m, d))"

text \<open>A number with leading zeros, as the layout elements of \<open>Format\<close> are printed.\<close>

definition pad :: "nat \<Rightarrow> int \<Rightarrow> string" where
  "pad n i = (let s = decNat (nat \<bar>i\<bar>) in (if i < 0 then ''-'' else []) @ replicate (n - length s) (CHR ''0'') @ s)"

text \<open>\<open>time.Unix(sec).In(kst).Format("20060102150405")\<close>.\<close>

definition formatKST :: "int \<Rightarrow> string" where
  "formatKST sec =
     (let t = sec + 9 * 60 * 60; (y, m, d) = civil (t div 86400); s = t mod 86400
      in pad 4 y @ pad 2 m @ pad 2 d @ pad 2 (s div 3600) @ pad 2 (s mod 3600 div 60) @ pad 2 (s mod 60))"

section \<open>entrypoint.go\<close>

record gasPoolBody =
  gp_ChainID :: int64
  gp_Action :: string
  gp_EntrypointAddress :: string
  gp_Amount :: string
  gp_ToAddress :: string

record gasPoolResponse =
  gr_Status :: string
  gr_TxHash :: string
  gr_GasFee :: string
  gr_CompleteDatetime :: string
  gr_Message :: string

definition emptyGasPool :: gasPoolBody where
  "emptyGasPool = \<lparr>gp_ChainID = 0, gp_Action = [], gp_EntrypointAddress = [], gp_Amount = [], gp_ToAddress = []\<rparr>"

definition gasPoolFields :: "(string \<times> gasPoolBody decoder) list" where
  "gasPoolFields =
    [(''chainId'', decInt64 ''body.chainId'' (\<lambda>v b. b\<lparr>gp_ChainID := v\<rparr>)),
     (''action'', decString ''body.action'' (\<lambda>v b. b\<lparr>gp_Action := v\<rparr>)),
     (''entrypointAddress'', decString ''body.entrypointAddress'' (\<lambda>v b. b\<lparr>gp_EntrypointAddress := v\<rparr>)),
     (''amount'', decString ''body.amount'' (\<lambda>v b. b\<lparr>gp_Amount := v\<rparr>)),
     (''toAddress'', decString ''body.toAddress'' (\<lambda>v b. b\<lparr>gp_ToAddress := v\<rparr>))]"

definition gasFeeOf :: "uint64 \<Rightarrow> int option \<Rightarrow> string" where
  "gasFeeOf gasUsed effectivePrice =
     (case effectivePrice of None \<Rightarrow> ''0'' | Some p \<Rightarrow> FormatInt (uint gasUsed * p))"

text \<open>A request that passed the checks; \<open>pr_To\<close> is the trimmed \<open>toAddress\<close>, looked at only by a withdrawal.\<close>

record gasPoolReq =
  pr_ChainID :: int64
  pr_Action :: string
  pr_EntryPoint :: address
  pr_Amount :: int
  pr_To :: string

definition checkGasPool :: "deps \<Rightarrow> json option \<Rightarrow> string + gasPoolReq" where
  "checkGasPool d raw =
     (let g = d_geth d;
          (b, err) = (case raw of None \<Rightarrow> (emptyGasPool, Some ''invalid JSON'')
                      | Some j \<Rightarrow> Unmarshal ''entrypoint.body'' gasPoolFields j emptyGasPool) in
      if err \<noteq> None then Inl ''invalid JSON body''
      else case ResolveChainID (registry d) (gp_ChainID b) of
        Inl _ \<Rightarrow> Inl ''chainId required''
      | Inr chainID \<Rightarrow>
          let action = ToUpper (TrimSpace (gp_Action b)); epAddr = TrimSpace (gp_EntrypointAddress b) in
          if action \<noteq> ''DEPOSIT'' \<and> action \<noteq> ''WITHDRAW'' then Inl (''action required: 'DEPOSIT' or 'WITHDRAW'' @ [CHR 0x27])
          else if \<not> common_IsHexAddress g epAddr then Inl ''valid entrypointAddress required''
          else (case ToBigInt (AString (TrimSpace (gp_Amount b))) of
                  Inl _ \<Rightarrow> Inl ''valid amount (wei integer string) required''
                | Inr amount \<Rightarrow>
                    if amount < 0 then Inl ''valid amount (wei integer string) required''
                    else Inr \<lparr>pr_ChainID = chainID, pr_Action = action, pr_EntryPoint = common_HexToAddress g epAddr,
                           pr_Amount = amount, pr_To = TrimSpace (gp_ToAddress b)\<rparr>))"

text \<open>The value, method and arguments of the transaction.\<close>

definition poolCall :: "geth \<Rightarrow> gasPoolReq \<Rightarrow> Account \<Rightarrow> int option \<times> string \<times> abival list" where
  "poolCall g req owner =
     (if pr_Action req = ''DEPOSIT'' then (Some (pr_Amount req), ''depositGlobalGasPool'', [])
      else
        let dest = (if common_IsHexAddress g (pr_To req) then common_HexToAddress g (pr_To req) else addr owner)
        in (None, ''withdrawGlobalGasPool'', [VAddress dest, VUint (pr_Amount req)]))"

definition performGasPool :: "deps \<Rightarrow> gasPoolReq \<Rightarrow> gasPoolResponse weio" where
  "performGasPool d req =
     bindE (PrimaryBundler d (pr_ChainID req)) (\<lambda>owner.
       let (value, method, args) = poolCall (d_geth d) req owner in
       bindI (SendManagedTx d (pr_ChainID req) owner (pr_EntryPoint req) value method args) (\<lambda>((tx, receipt), err).
         case err of
           Some e \<Rightarrow> failE e
         | None \<Rightarrow>
             (case (tx, receipt) of
                (Some h, Some rc) \<Rightarrow>
                  bindI (extcall (x_Now (d_ext d)) EvNow) (\<lambda>now.
                    retE \<lparr>gr_Status = ''SUCCESS'', gr_TxHash = h,
                      gr_GasFee = gasFeeOf (rcpt_GasUsed rc) (rcpt_EffectiveGasPrice rc),
                      gr_CompleteDatetime = formatKST now,
                      gr_Message = (if pr_Action req = ''DEPOSIT'' then ''deposit completed'' else ''withdraw completed'')\<rparr>)
              | _ \<Rightarrow> failE (GoPanic ''nil dereference''))))"

definition GasPoolTransfer :: "deps \<Rightarrow> json option \<Rightarrow> gasPoolResponse http_response wio" where
  "GasPoolTransfer d raw =
     (case checkGasPool d raw of
        Inl msg \<Rightarrow> ret (WriteValidationError msg)
      | Inr req \<Rightarrow>
          bindI (performGasPool d req) (\<lambda>r. case r of
            Inl e \<Rightarrow> ret (WriteTxError (d_geth d) (Some e))
          | Inr res \<Rightarrow> ret (WriteJSON 200 (OkBody res))))"

section \<open>The calendar\<close>

text \<open>
  A reference: the days before a date, from the lengths of the months and the leap-year rule.
\<close>

definition leap :: "int \<Rightarrow> bool" where
  "leap y \<longleftrightarrow> y mod 4 = 0 \<and> (y mod 100 \<noteq> 0 \<or> y mod 400 = 0)"

definition monthDays :: "int \<Rightarrow> int \<Rightarrow> int" where
  "monthDays y m = (if m = 2 then (if leap y then 29 else 28) else if m \<in> {4, 6, 9, 11} then 30 else 31)"

definition leapsTo :: "int \<Rightarrow> int" where
  "leapsTo y = y div 4 - y div 100 + y div 400"

definition daysBefore :: "int \<Rightarrow> int \<Rightarrow> int \<Rightarrow> int" where
  "daysBefore y m d =
     365 * (y - 1970) + (leapsTo (y - 1) - leapsTo 1969)
     + (\<Sum>i \<leftarrow> [1..m - 1]. monthDays y i) + d - 1"

definition validDate :: "int \<Rightarrow> int \<Rightarrow> int \<Rightarrow> bool" where
  "validDate y m d \<longleftrightarrow> 1 \<le> m \<and> m \<le> 12 \<and> 1 \<le> d \<and> d \<le> monthDays y m"

lemma leap_rule:
  fixes a :: int
  assumes "a + (if p then 1 else 0) = a'" "b + (if q then 1 else 0) = b'" "c + (if r then 1 else 0) = c'"
    and "q \<Longrightarrow> p" "r \<Longrightarrow> q"
  shows "a - b + c + (if p \<and> (\<not> q \<or> r) then 1 else 0) = a' - b' + c'"
  using assms by (auto split: if_splits)

lemma leap_step:
  fixes y :: int
  shows "leapsTo (y - 1) + (if leap y then 1 else 0) = leapsTo y"
proof -
  have d: "(y - 1) div k + (if y mod k = 0 then 1 else 0) = y div k" if "0 < k" for k
  proof (cases "y mod k = 0")
    case True
    then obtain j where "y = k * j" by (metis mult_div_mod_eq add.right_neutral)
    moreover have "(k * j - 1) div k = j - 1"
      using that by (intro int_div_pos_eq [where r = "k - 1"]) (auto simp: algebra_simps)
    ultimately show ?thesis using that by simp
  next
    case False
    have "y - 1 = k * (y div k) + (y mod k - 1)" by simp
    moreover have "0 \<le> y mod k - 1" "y mod k - 1 < k" using False that pos_mod_sign [of k y] pos_mod_bound [of k y] by linarith+
    ultimately have "(y - 1) div k = y div k" by (rule int_div_pos_eq)
    with False show ?thesis by simp
  qed
  have "y mod 100 = 0 \<Longrightarrow> y mod 4 = 0" "y mod 400 = 0 \<Longrightarrow> y mod 100 = 0"
    using mod_mod_cancel [of 4 100 y] mod_mod_cancel [of 100 400 y] by simp_all
  moreover have "(y - 1) div 4 + (if y mod 4 = 0 then 1 else 0) = y div 4"
    "(y - 1) div 100 + (if y mod 100 = 0 then 1 else 0) = y div 100"
    "(y - 1) div 400 + (if y mod 400 = 0 then 1 else 0) = y div 400" by (rule d, simp)+
  ultimately show ?thesis unfolding leap_def leapsTo_def by (intro leap_rule)
qed

text \<open>Days since the March that begins the year.\<close>

lemma daysBefore_march:
  assumes "0 \<le> mp" "mp \<le> 11" "m = (if mp < 10 then mp + 3 else mp - 9)" "Y = (if m \<le> 2 then y + 1 else y)"
  shows "daysBefore Y m d = 365 * (y - 1970) + leapsTo y - 418 + (153 * mp + 2) div 5 + d - 1"
proof -
  have "mp \<in> {0, 1, 2, 3, 4, 5, 6, 7, 8, 9, 10, 11}" using assms(1,2) set_upto [of 0 11]
    by (simp add: upto.simps set_eq_iff)
  moreover have "leapsTo 1969 = 477" by (simp add: leapsTo_def)
  ultimately show ?thesis
    using leap_step [of y] assms(3,4)
    by (elim insertE emptyE) (simp_all add: daysBefore_def monthDays_def upto.simps split: if_splits)
qed

lemma div_bounds: "0 < k \<Longrightarrow> k * (x div k) \<le> x \<and> x < k * (x div k) + k" for k x :: int
  using pos_mod_bound [of k x] pos_mod_sign [of k x] mult_div_mod_eq [of k x] by linarith

lemma capped_digit:
  fixes k x c :: int
  assumes "0 \<le> x" "x \<le> 4 * k" "0 < k" "c = min 3 (x div k)"
  shows "0 \<le> c \<and> c \<le> 3 \<and> 0 \<le> x - k * c \<and> x - k * c \<le> k \<and> (c < 3 \<longrightarrow> x - k * c < k)"
proof (cases "x div k \<le> 3")
  case True
  with assms have "c = x div k" by (simp add: min_def)
  with True assms div_bounds [OF assms(3), of x] show ?thesis by (simp add: pos_imp_zdiv_nonneg_iff)
next
  case False
  with assms have "c = 3" "k * 3 \<le> k * (x div k)" by (auto simp: min_def intro: mult_left_mono)
  then have "c = 3" "k * 3 \<le> x" using div_bounds [OF assms(3), of x] by linarith+
  with assms(2) show ?thesis by simp
qed

text \<open>The decomposition of the days of a cycle.\<close>

lemma cycle_split:
  fixes a c q doe doc doq doy :: int
  assumes "0 \<le> doe" "doe < 146097"
    and "c = min 3 (doe div 36524)" "doc = doe - 36524 * c" "q = doc div 1461" "doq = doc - 1461 * q"
    and "a = min 3 (doq div 365)" "doy = doq - 365 * a"
  shows "0 \<le> c" "c \<le> 3" "0 \<le> q" "q \<le> 24" "0 \<le> a" "a \<le> 3" "0 \<le> doy" "doy \<le> 365"
    "doy = 365 \<Longrightarrow> a = 3 \<and> (q < 24 \<or> c = 3)" "doe = 36524 * c + 1461 * q + 365 * a + doy"
proof -
  have c: "0 \<le> c \<and> c \<le> 3 \<and> 0 \<le> doc \<and> doc \<le> 36524 \<and> (c < 3 \<longrightarrow> doc < 36524)"
    using capped_digit [OF assms(1) _ _ assms(3)] assms(2,4) by simp
  have "1461 * q \<le> doc \<and> doc < 1461 * q + 1461" using div_bounds [of 1461 doc] unfolding assms(5) by simp
  then have q: "0 \<le> q \<and> q \<le> 24 \<and> 0 \<le> doq \<and> doq < 1461 \<and> (q = 24 \<and> c < 3 \<longrightarrow> doq < 1460)"
    using c assms(6) by linarith
  then have a: "0 \<le> a \<and> a \<le> 3 \<and> 0 \<le> doy \<and> doy \<le> 365 \<and> (a < 3 \<longrightarrow> doy < 365)"
    using capped_digit [OF _ _ _ assms(7)] assms(8) by simp
  have "a = 3 \<and> (q < 24 \<or> c = 3)" if "doy = 365" using that a q c assms(8) by linarith
  then show "doy = 365 \<Longrightarrow> a = 3 \<and> (q < 24 \<or> c = 3)" .
  show "0 \<le> c" "c \<le> 3" "0 \<le> q" "q \<le> 24" "0 \<le> a" "a \<le> 3" "0 \<le> doy" "doy \<le> 365" using c q a by simp_all
  show "doe = 36524 * c + 1461 * q + 365 * a + doy" using assms(4,6,8) by linarith
qed

lemma march_leap:
  fixes e c q :: int
  assumes "0 \<le> q" "q \<le> 24" "q < 24 \<or> c = 3"
  shows "leap (400 * e + 100 * c + 4 * q + 3 + 1)"
proof -
  let ?y = "400 * e + 100 * c + 4 * q + 3 + 1"
  have "?y = 4 * (100 * e + 25 * c + q + 1)" "?y = 100 * (4 * e + c) + (4 * q + 4)" by simp_all
  then have 1: "?y mod 4 = 0" "?y mod 100 = (4 * q + 4) mod 100" by (metis mod_mult_self1_is_0, metis mod_mult_self4)
  show ?thesis
  proof (cases "q < 24")
    case True
    with assms(1) have "(4 * q + 4) mod 100 = 4 * q + 4" by (intro mod_pos_pos_trivial) auto
    with 1 assms(1) show ?thesis by (simp add: leap_def)
  next
    case False
    with assms have "?y = 400 * (e + 1)" by simp
    then have "?y mod 400 = 0" by (metis mod_mult_self1_is_0)
    with 1 show ?thesis by (simp add: leap_def)
  qed
qed

lemma march_valid:
  assumes "0 \<le> mp" "mp \<le> 11" "153 * mp \<le> 5 * doy + 2 \<and> 5 * doy + 2 < 153 * mp + 153" "0 \<le> doy" "doy \<le> 365"
    and "m = (if mp < 10 then mp + 3 else mp - 9)" "Y = (if m \<le> 2 then y + 1 else y)"
    and "d = doy - (153 * mp + 2) div 5 + 1" "doy = 365 \<Longrightarrow> leap (y + 1)"
  shows "validDate Y m d"
proof -
  have "mp \<in> {0, 1, 2, 3, 4, 5, 6, 7, 8, 9, 10, 11}" using assms(1,2) set_upto [of 0 11]
    by (simp add: upto.simps set_eq_iff)
  then show ?thesis
    using assms(3-)
    by (elim insertE emptyE; cases "doy = 365") (auto simp: validDate_def monthDays_def)
qed

lemma civil_exact:
  assumes "civil z = (y, m, d)"
  shows "validDate y m d \<and> daysBefore y m d = z"
proof -
  define e where "e = (z + 719468) div 146097"
  define doe where "doe = (z + 719468) mod 146097"
  define c where "c = min 3 (doe div 36524)"
  define doc where "doc = doe - 36524 * c"
  define q where "q = doc div 1461"
  define doq where "doq = doc - 1461 * q"
  define a where "a = min 3 (doq div 365)"
  define doy where "doy = doq - 365 * a"
  define mp where "mp = (5 * doy + 2) div 153"
  define Y where "Y = 400 * e + 100 * c + 4 * q + a"
  have "0 \<le> doe" "doe < 146097" unfolding doe_def by (rule pos_mod_sign, simp, rule pos_mod_bound, simp)
  note split = cycle_split [OF this c_def doc_def q_def doq_def a_def doy_def]
  have civ: "civil z = (Y + (if (if mp < 10 then mp + 3 else mp - 9) \<le> 2 then 1 else 0),
      (if mp < 10 then mp + 3 else mp - 9), doy - (153 * mp + 2) div 5 + 1)"
    unfolding civil_def Let_def Y_def mp_def doy_def a_def doq_def q_def doc_def c_def doe_def e_def by (rule refl)
  have m: "m = (if mp < 10 then mp + 3 else mp - 9)" and y: "y = (if m \<le> 2 then Y + 1 else Y)"
    and d: "d = doy - (153 * mp + 2) div 5 + 1"
    using civ [unfolded assms prod.inject] by (simp_all only: if_distrib [of "\<lambda>x. Y + x"] add_0_right cong: if_cong)
  have mpb: "153 * mp \<le> 5 * doy + 2 \<and> 5 * doy + 2 < 153 * mp + 153"
    unfolding mp_def by (rule div_bounds) simp
  then have mp: "0 \<le> mp" "mp \<le> 11" using split(7,8) by linarith+
  have Y: "Y div 4 = 100 * e + 25 * c + q" "Y div 100 = 4 * e + c" "Y div 400 = e"
    by (rule int_div_pos_eq [where r = a] int_div_pos_eq [where r = "4 * q + a"]
          int_div_pos_eq [where r = "100 * c + 4 * q + a"], use split(1-6) in \<open>simp_all add: Y_def\<close>)+
  have "z + 719468 = 146097 * e + doe" unfolding doe_def e_def by (rule mult_div_mod_eq [symmetric])
  moreover have "daysBefore y m d = 365 * (Y - 1970) + leapsTo Y - 418 + (153 * mp + 2) div 5 + d - 1"
    by (rule daysBefore_march [OF mp m y])
  ultimately have "daysBefore y m d = z"
    using split(10) unfolding leapsTo_def Y d by (simp add: Y_def)
  moreover have "validDate y m d"
    by (rule march_valid [OF mp mpb split(7,8) m y d])
       (use split(3,4,9) march_leap [of q c e] in \<open>auto simp: Y_def algebra_simps\<close>)
  ultimately show ?thesis by simp
qed

text \<open>
  C38: the completion time of an answer is the instant in Korean time: its fields are a valid
  date of the Gregorian calendar and a time of day that together denote exactly the given
  second, nine hours ahead of UTC.
\<close>

theorem formatKST_exact:
  "\<exists>y m d hh mm ss. validDate y m d \<and> 0 \<le> hh \<and> hh < 24 \<and> 0 \<le> mm \<and> mm < 60 \<and> 0 \<le> ss \<and> ss < 60
     \<and> sec + 9 * 3600 = 86400 * daysBefore y m d + 3600 * hh + 60 * mm + ss
     \<and> formatKST sec = pad 4 y @ pad 2 m @ pad 2 d @ pad 2 hh @ pad 2 mm @ pad 2 ss"
proof -
  obtain t where t: "sec + 9 * 60 * 60 = t" by blast
  obtain y m d where c: "civil (t div 86400) = (y, m, d)" by (metis surj_pair)
  obtain s where s: "t mod 86400 = s" "t = 86400 * (t div 86400) + s" "0 \<le> s" "s < 86400" by simp
  obtain h r where h: "s div 3600 = h" "s mod 3600 = r" by blast
  have hr: "s = 3600 * h + r" "0 \<le> r" "r < 3600" by (simp_all flip: h)
  have r: "r = 60 * (r div 60) + r mod 60" by simp
  have "formatKST sec = pad 4 y @ pad 2 m @ pad 2 d @ pad 2 h @ pad 2 (r div 60) @ pad 2 (s mod 60)"
    unfolding formatKST_def Let_def t c s(1) h by simp
  moreover have "s mod 60 = r mod 60" using mod_mod_cancel [of 60 3600 s] h(2) by simp
  moreover have "0 \<le> h" "h < 24" using hr s(3,4) by linarith+
  moreover have "0 \<le> r div 60" "r div 60 < 60" "0 \<le> r mod 60" "r mod 60 < 60" using hr(2,3) by auto
  moreover have "sec + 9 * 3600 = 86400 * daysBefore y m d + 3600 * h + 60 * (r div 60) + r mod 60"
    using civil_exact [OF c] s(2) hr(1) r t by linarith
  ultimately show ?thesis using civil_exact [OF c] by metis
qed

section \<open>A request that succeeds\<close>

text \<open>
  What a request answered with 200 has done: one mined transaction of the first wallet to the
  entry point, a deposit of the amount or a withdrawal of it to the given address (to the wallet
  itself when none is given), and the fee of its receipt.
\<close>

definition pool_call :: "geth \<Rightarrow> gasPoolReq \<Rightarrow> Account \<Rightarrow> transactopts \<Rightarrow> string \<Rightarrow> abival list \<Rightarrow> bool" where
  "pool_call g req owner opts method args \<longleftrightarrow> 0 \<le> pr_Amount req \<and>
     (pr_Action req = ''DEPOSIT'' \<and> method = ''depositGlobalGasPool'' \<and> args = [] \<and> opts_Value opts = Some (pr_Amount req)
      \<or> pr_Action req = ''WITHDRAW'' \<and> method = ''withdrawGlobalGasPool''
        \<and> args = [VAddress (if common_IsHexAddress g (pr_To req) then common_HexToAddress g (pr_To req) else addr owner),
                 VUint (pr_Amount req)])"

definition pooled :: "deps \<Rightarrow> gasPoolReq \<Rightarrow> gasPoolResponse \<Rightarrow> world \<Rightarrow> world \<Rightarrow> bool" where
  "pooled d req res w w' \<longleftrightarrow>
     (let g = d_geth d; ch = pr_ChainID req in
      \<exists>p v method args pre dial c noise n opts h rc post now.
        pools w' ch = Some p \<and> signed_by d (p ! 0) ch n v opts \<and> pool_call g req (p ! 0) opts method args
        \<and> list_all key_event pre \<and> list_all dial_event dial \<and> quiet noise \<and> quiet post
        \<and> new_events w w' = pre @ dial @ EvLock (NonceLockKey ch (address_Hex g (addr (p ! 0)))) # noise @
            managed_events c (addr (p ! 0)) n opts (pr_EntryPoint req) method args h rc @
            post @ [EvUnlock (NonceLockKey ch (address_Hex g (addr (p ! 0)))), EvNow now]
        \<and> gr_TxHash res = h \<and> gr_CompleteDatetime res = formatKST now
        \<and> gr_GasFee res = FormatInt (uint (rcpt_GasUsed rc) * (case rcpt_EffectiveGasPrice rc of None \<Rightarrow> 0 | Some x \<Rightarrow> x)))"

lemma checkGasPool_ok:
  "checkGasPool d raw = Inr req \<Longrightarrow> 0 \<le> pr_Amount req \<and> pr_Action req \<in> {''DEPOSIT'', ''WITHDRAW''}"
  by (auto simp: checkGasPool_def Let_def simp del: ToBigInt.simps split: if_splits sum.splits prod.splits)

lemma performGasPool_pooled:
  assumes "performGasPool d req w = (Inr res, w')" "0 \<le> pr_Amount req" "pr_Action req \<in> {''DEPOSIT'', ''WITHDRAW''}"
  shows "pooled d req res w w'"
proof -
  let ?g = "d_geth d" and ?ch = "pr_ChainID req"
  from assms(1) obtain owner w1 where pr: "PrimaryBundler d ?ch w = (Inr owner, w1)"
    and rest: "(case poolCall ?g req owner of (v, m, args) \<Rightarrow> bindI (SendManagedTx d ?ch owner (pr_EntryPoint req) v m args)
       (\<lambda>((tx, receipt), err). case err of Some e \<Rightarrow> failE e | None \<Rightarrow>
         (case (tx, receipt) of (Some h, Some rc) \<Rightarrow> bindI (extcall (x_Now (d_ext d)) EvNow) (\<lambda>now.
            retE \<lparr>gr_Status = ''SUCCESS'', gr_TxHash = h, gr_GasFee = gasFeeOf (rcpt_GasUsed rc) (rcpt_EffectiveGasPrice rc),
                      gr_CompleteDatetime = formatKST now,
                      gr_Message = (if pr_Action req = ''DEPOSIT'' then ''deposit completed'' else ''withdraw completed'')\<rparr>)
          | _ \<Rightarrow> failE (GoPanic ''nil dereference'')))) w1 = (Inr res, w')"
    unfolding performGasPool_def Let_def bindE_Inr_iff by blast
  obtain v m args where pc: "poolCall ?g req owner = (v, m, args)" by (metis surj_pair)
  obtain tx rc0 err w2 where s0: "SendManagedTx d ?ch owner (pr_EntryPoint req) v m args w1 = (((tx, rc0), err), w2)"
    by (metis surj_pair)
  with rest pc obtain h rc now where s: "SendManagedTx d ?ch owner (pr_EntryPoint req) v m args w1 = (((Some h, Some rc), None), w2)"
    and w': "w' = w2\<lparr>trace := trace w2 @ [EvNow now]\<rparr>" and res: "gr_TxHash res = h" "gr_CompleteDatetime res = formatKST now"
      "gr_GasFee res = gasFeeOf (rcpt_GasUsed rc) (rcpt_EffectiveGasPrice rc)"
    by (cases err; cases tx; cases rc0) (auto simp: io_simps)
  from pr obtain p es where p: "pools w1 ?ch = Some p" "owner = p ! 0" "trace w1 = trace w @ es" "list_all key_event es"
    by (rule PrimaryBundler_run) (metis world.select_convs(1) world.surjective world.update_convs)
  from SendManagedTx_mined [OF s] obtain dial c noise n opts post where
    m: "signed_by d owner ?ch n v opts" "list_all dial_event dial" "quiet noise" "quiet post"
    and tr: "trace w2 = trace w1 @ dial @ EvLock (NonceLockKey ?ch (address_Hex ?g (addr owner))) # noise
         @ managed_events c (addr owner) n opts (pr_EntryPoint req) m args h rc
         @ post @ [EvUnlock (NonceLockKey ?ch (address_Hex ?g (addr owner)))]" by blast
  have pw: "pools w' ?ch = Some p" using keepsD [OF SendManagedTx_pools s] w' p(1) by simp
  have pcall: "pool_call ?g req owner opts m args"
    using pc m(1) assms(2,3) by (auto simp: pool_call_def poolCall_def signed_by_def Let_def split: if_splits)
  have "FormatInt 0 = ''0''" by code_simp
  then have fee: "gr_GasFee res = FormatInt (uint (rcpt_GasUsed rc) * (case rcpt_EffectiveGasPrice rc of None \<Rightarrow> 0 | Some x \<Rightarrow> x))"
    unfolding res(3) gasFeeOf_def by (simp split: option.split)
  show ?thesis unfolding pooled_def Let_def
    by (rule exI [of _ p], rule exI [of _ v], rule exI [of _ m], rule exI [of _ args], rule exI [of _ es], rule exI [of _ dial],
        rule exI [of _ c], rule exI [of _ noise], rule exI [of _ n], rule exI [of _ opts], rule exI [of _ h],
        rule exI [of _ rc], rule exI [of _ post], rule exI [of _ now])
       (use pw m tr w' p(2-4) res(1,2) fee pcall in \<open>simp add: new_events_def\<close>)
qed

interpretation gp: http_handler "d_geth d" "checkGasPool d" "performGasPool d" "GasPoolTransfer d" for d
  by unfold_locales (simp_all add: GasPoolTransfer_def io_simps)

text \<open>
  C10: a gas-pool request is rejected with 400 without touching anything, or fails with a
  status of the error contract, or is answered with 200 after exactly one mined transaction of
  the first wallet of the chain's pool, under its nonce lock and with a fresh nonce: a deposit
  that carries the amount as its value, or a withdrawal of the amount to the address given, to
  the wallet itself if none is.
\<close>

theorem GasPoolTransfer_answers:
  assumes "GasPoolTransfer d raw w = ((st, b), w')"
  shows "(st = 400 \<longrightarrow> w' = w) \<and> st \<in> {200, 400, 422, 409, 503, 500}
    \<and> (st = 200 \<longrightarrow> (\<exists>req res. checkGasPool d raw = Inr req \<and> b = OkBody res \<and> pooled d req res w w'))"
  using gp.answers [OF assms, of "\<lambda>req res. pooled d req res w w'"] performGasPool_pooled checkGasPool_ok by blast

definition demo_deposit :: json where
  "demo_deposit = JObj [(''chainId'', JNum ''1''), (''action'', JStr ''deposit''),
     (''entrypointAddress'', JStr (replicate 42 (CHR ''e''))), (''amount'', JStr ''100'')]"

definition pool_world :: world where
  "pool_world = init_world\<lparr>clients := [1 \<mapsto> 5], pools := [1 \<mapsto> [\<lparr>priv = 1, addr = 1\<rparr>]]\<rparr>"

lemma demo_deposit_ok:
  "checkGasPool (demo_deps x False) (Some demo_deposit)
     = Inr \<lparr>pr_ChainID = 1, pr_Action = ''DEPOSIT'', pr_EntryPoint = 42, pr_Amount = 100, pr_To = []\<rparr>"
proof -
  have p: "ParseInt ''1'' 10 = Some 1" "ToUpper (TrimSpace ''deposit'') = ''DEPOSIT''" "TrimSpace [] = []" "TrimSpace ''100'' = ''100''"
    "ToBigInt (AString ''100'') = Inr 100"
    "TrimSpace (replicate 42 (CHR ''e'')) = replicate 42 (CHR ''e'')" by code_simp+
  define b where "b = emptyGasPool\<lparr>gp_ChainID := 1, gp_Action := ''deposit'', gp_EntrypointAddress := replicate 42 (CHR ''e''),
     gp_Amount := ''100''\<rparr>"
  have u: "Unmarshal ''entrypoint.body'' gasPoolFields demo_deposit emptyGasPool = (b, None)"
    by (simp add: Unmarshal_def demo_deposit_def gasPoolFields_def decodeStep_def EqualFold_def decString_def decInt64_def
        b_def p(1) lowerByte_def isUpper_def)
  have b: "gp_ChainID b = 1" "gp_Action b = ''deposit''" "gp_EntrypointAddress b = replicate 42 (CHR ''e'')"
    "gp_Amount b = ''100''" "gp_ToAddress b = []" by (simp_all add: b_def emptyGasPool_def)
  have g: "common_IsHexAddress opaque_geth s \<longleftrightarrow> length s = 42" "common_HexToAddress opaque_geth s = of_nat (length s)" for s
    by (simp_all add: opaque_geth_def)
  show ?thesis
    by (simp add: checkGasPool_def u b p g ResolveChainID_def Let_def del: ToBigInt.simps)
qed

text \<open>The deposit is answered with 200 and leaves the cached clients as they are.\<close>

lemma demo_deposit_run:
  "\<exists>res w'. GasPoolTransfer (demo_deps (mining_ext 1) False) (Some demo_deposit) pool_world = ((200, OkBody res), w')
     \<and> clients w' = [1 \<mapsto> 5]"
proof -
  let ?d = "demo_deps (mining_ext 1) False"
  have pr: "PrimaryBundler ?d 1 pool_world = (Inr \<lparr>priv = 1, addr = 1\<rparr>, pool_world)"
    by (simp add: PrimaryBundler_def BundlerPool_def pool_world_def walletAt_def io_simps)
  have "Transactor opaque_geth \<lparr>priv = 1, addr = 1\<rparr> 1 = Inr \<lparr>opts_From = 1, opts_ChainID = 1, opts_Nonce = 0, opts_Value = None\<rparr>"
    by (simp add: Transactor_def opaque_geth_def)
  then obtain h rc w1 where s: "SendManagedTx ?d 1 \<lparr>priv = 1, addr = 1\<rparr> 42 (Some 100) ''depositGlobalGasPool'' [] pool_world
      = (((Some h, Some rc), None), w1)" and c: "clients w1 = [1 \<mapsto> 5]"
    by (simp add: SendManagedTx_def Client_def WithNonceLock_def managedTx_def mining_ext_def pool_world_def io_simps Let_def)
  show ?thesis using s c
    by (simp add: GasPoolTransfer_def demo_deposit_ok performGasPool_def poolCall_def bindE_def bindI_def pr [simplified] extcall_run
        retE_def ret_def WriteJSON_def)
qed

theorem GasPoolTransfer_answers_witness:
  "\<exists>res w'. GasPoolTransfer (demo_deps (mining_ext 1) False) (Some demo_deposit) pool_world = ((200, OkBody res), w')
     \<and> pooled (demo_deps (mining_ext 1) False) \<lparr>pr_ChainID = 1, pr_Action = ''DEPOSIT'', pr_EntryPoint = 42, pr_Amount = 100, pr_To = []\<rparr>
         res pool_world w'"
proof -
  obtain res w' where run: "GasPoolTransfer (demo_deps (mining_ext 1) False) (Some demo_deposit) pool_world = ((200, OkBody res), w')"
    using demo_deposit_run by blast
  from GasPoolTransfer_answers [OF run] run show ?thesis by (simp add: demo_deposit_ok)
qed

end
