(* ===== verification/Server.thy ===== *)
theory Server
  imports UserOp Transfers Split Deploy GasPool
begin

text \<open>
  \<open>cmd/bundler\<close> with \<open>internal/platform/env\<close> and \<open>internal/platform/logger\<close>: the static
  configuration, the start-up that assembles the shared dependencies, the routing table, and the
  levels and timestamps of the log. \<open>serve\<close> handles one HTTP request; all components meet here.
\<close>

section \<open>logger.go\<close>

text \<open>\<open>slog.Level\<close> is an integer.\<close>

definition LevelDebug :: int where "LevelDebug = - 4"
definition LevelInfo :: int where "LevelInfo = 0"
definition LevelWarn :: int where "LevelWarn = 4"
definition LevelError :: int where "LevelError = 8"

definition ParseLevel :: "string \<Rightarrow> int" where
  "ParseLevel s =
     (let l = ToLower (TrimSpace s) in
      if l = ''trace'' \<or> l = ''debug'' then LevelDebug
      else if l = ''warn'' \<or> l = ''warning'' then LevelWarn
      else if l = ''error'' \<or> l = ''fatal'' then LevelError
      else LevelInfo)"

definition pinoLabel :: "int \<Rightarrow> string" where
  "pinoLabel l =
     (if LevelError \<le> l then ''error''
      else if LevelWarn \<le> l then ''warn''
      else if LevelInfo \<le> l then ''info''
      else if LevelDebug \<le> l then ''debug''
      else ''trace'')"

text \<open>
  The value of a log attribute: a time in milliseconds since 1970, a level, or anything else
  by its text.
\<close>

datatype slogValue = LTime int | LLevel int | LString string

text \<open>\<open>Format\<close> with \<open>kstLayout\<close>; the layout cuts the time to milliseconds.\<close>

definition kstTime :: "int \<Rightarrow> string" where
  "kstTime ms =
     (let t = ms div 1000 + 9 * 60 * 60; (y, m, d) = civil (t div 86400); s = t mod 86400
      in pad 4 y @ ''-'' @ pad 2 m @ ''-'' @ pad 2 d @ ''T'' @ pad 2 (s div 3600) @ '':'' @
         pad 2 (s mod 3600 div 60) @ '':'' @ pad 2 (s mod 60) @ ''.'' @ pad 3 (ms mod 1000) @ ''+09:00'')"

text \<open>None is the panic of \<open>Value.Time\<close> on a value of another kind; a failed assertion gives level 0.\<close>

definition pinoReplace :: "string \<times> slogValue \<Rightarrow> (string \<times> slogValue) option" where
  "pinoReplace a = (case a of (key, v) \<Rightarrow>
     if key = ''time'' then (case v of LTime ms \<Rightarrow> Some (''time'', LString (kstTime ms)) | _ \<Rightarrow> None)
     else if key = ''level'' then
       Some (''level'', LString (pinoLabel (case v of LLevel l \<Rightarrow> l | _ \<Rightarrow> 0)))
     else Some a)"

definition resolveHostname :: "go_error + string \<Rightarrow> string" where
  "resolveHostname h = (case h of Inl _ \<Rightarrow> ''unknown'' | Inr n \<Rightarrow> n)"

text \<open>
  A logger: its handler, text or JSON with a minimal level, and the attributes of \<open>With\<close>. \<open>pid\<close> and
  \<open>host\<close> are those of the process.
\<close>

record logger =
  lg_Pretty :: bool
  lg_Level :: int
  lg_Attrs :: "(string \<times> slogValue) list"

definition build :: "string \<Rightarrow> int \<Rightarrow> bool \<Rightarrow> int \<Rightarrow> string \<Rightarrow> logger" where
  "build module level pretty pid host = \<lparr>lg_Pretty = pretty, lg_Level = level,
     lg_Attrs = [(''module'', LString module), (''pid'', LString (FormatInt pid)), (''hostname'', LString host)]\<rparr>"

text \<open>
  What a handler of \<open>slog\<close> writes for a message: nothing below its level; otherwise time, level,
  message, the logger's attributes and those of the call. With \<open>ReplaceAttr\<close> each goes through
  that function; None is its panic.
\<close>

definition logged ::
  "logger \<Rightarrow> int \<Rightarrow> int \<Rightarrow> string \<Rightarrow> (string \<times> slogValue) list \<Rightarrow> (string \<times> slogValue) option list" where
  "logged lg now lvl msg args =
     (if lvl < lg_Level lg then []
      else map (if lg_Pretty lg then Some else pinoReplace)
        ((''time'', LTime now) # (''level'', LLevel lvl) # (''msg'', LString msg) # lg_Attrs lg @ args))"

section \<open>env.go\<close>

record EnvConfig =
  cfg_Listen :: string
  cfg_RedisURL :: string
  cfg_RedisHost :: string
  cfg_RedisPort :: int
  cfg_RedisPassword :: string
  cfg_DefaultChainID :: int64
  cfg_NonceLockTTLMs :: int
  cfg_NHNAppKey :: string
  cfg_NHNBaseURL :: string
  cfg_KeyDBPath :: string
  cfg_KeyName :: string
  cfg_OwnerKey :: string
  cfg_BundlerKey :: string
  cfg_ServerKey1 :: string
  cfg_ServerKey2 :: string
  cfg_LogLevel :: string
  cfg_LogPretty :: bool

text \<open>The defaults of the tags: the configuration of an empty environment.\<close>

definition defaultConfig :: EnvConfig where
  "defaultConfig =
    \<lparr>cfg_Listen = '':3000'', cfg_RedisURL = [], cfg_RedisHost = [], cfg_RedisPort = 6379, cfg_RedisPassword = [],
     cfg_DefaultChainID = 0, cfg_NonceLockTTLMs = 30000, cfg_NHNAppKey = [], cfg_NHNBaseURL = [], cfg_KeyDBPath = [],
     cfg_KeyName = [], cfg_OwnerKey = [], cfg_BundlerKey = [], cfg_ServerKey1 = [], cfg_ServerKey2 = [],
     cfg_LogLevel = ''debug'', cfg_LogPretty = True\<rparr>"

text \<open>Nanoseconds, in the 64 bits of \<open>time.Duration\<close>.\<close>

definition NonceLockTTL :: "EnvConfig \<Rightarrow> 64 word" where
  "NonceLockTTL c = word_of_int (cfg_NonceLockTTLMs c) * 1000000"

section \<open>main.go\<close>

definition parseLevel :: "string \<Rightarrow> int" where
  "parseLevel s =
     (let l = ToLower (TrimSpace s) in
      if l = ''debug'' \<or> l = ''trace'' then LevelDebug
      else if l = ''warn'' \<or> l = ''warning'' then LevelWarn
      else if l = ''error'' then LevelError
      else LevelInfo)"

text \<open>
  The KMS client and whether there is a key store, or the message logged before the process
  exits. \<open>sqlOpen\<close> and \<open>ping\<close> are the database's.
\<close>

definition buildKMS :: "(string \<Rightarrow> go_error option) \<Rightarrow> (string \<Rightarrow> go_error option) \<Rightarrow> EnvConfig \<Rightarrow> string + NHNClient option \<times> bool" where
  "buildKMS sqlOpen ping cfg =
     (case (if cfg_NHNAppKey cfg \<noteq> [] then
              (case NewNHNClient (cfg_NHNAppKey cfg) (cfg_NHNBaseURL cfg) of
                 Inl _ \<Rightarrow> Inl ''NHN KMS init failed''
               | Inr c \<Rightarrow> Inr (Some c))
            else Inr None) of
        Inl msg \<Rightarrow> Inl msg
      | Inr dec \<Rightarrow>
          if cfg_KeyDBPath cfg \<noteq> [] then
            (case OpenSQLite sqlOpen ping (cfg_KeyDBPath cfg) of
               Some _ \<Rightarrow> Inl ''keystore open failed''
             | None \<Rightarrow> Inr (dec, True))
          else Inr (dec, False))"

text \<open>
  \<open>main\<close> up to the assembled dependencies, or the message logged before the process exits.
  \<open>g\<close> and \<open>x\<close> are the library and the outside world, \<open>vars\<close> and \<open>environ\<close> the
  environment that the registry reads, \<open>ParseURL\<close> the check of the redis URL.
\<close>

definition start ::
  "geth \<Rightarrow> ext \<Rightarrow> (string \<Rightarrow> string) \<Rightarrow> string list \<Rightarrow> (string \<Rightarrow> go_error option) \<Rightarrow> (string \<Rightarrow> go_error option)
     \<Rightarrow> (string \<Rightarrow> go_error option) \<Rightarrow> EnvConfig \<Rightarrow> string + deps" where
  "start g x vars environ ParseURL sqlOpen ping cfg =
     (case AssertConfig (NewRegistryWithLookup vars) environ of
        Some _ \<Rightarrow> Inl ''config invalid''
      | None \<Rightarrow>
     (case Dial ParseURL (cfg_RedisURL cfg) (cfg_RedisHost cfg) (cfg_RedisPort cfg) (cfg_RedisPassword cfg) of
        Inl _ \<Rightarrow> Inl ''redis dial failed''
      | Inr rdb \<Rightarrow>
     (case buildKMS sqlOpen ping cfg of
        Inl msg \<Rightarrow> Inl msg
      | Inr (dec, ks) \<Rightarrow>
          Inr \<lparr>d_geth = g, d_ext = x, d_getenv = vars, d_rdb = (rdb \<noteq> None), d_dec = dec, d_ks = ks,
               d_env = \<lparr>OwnerKey = cfg_OwnerKey cfg, BundlerKey = cfg_BundlerKey cfg,
                 ServerKey1Env = cfg_ServerKey1 cfg, ServerKey2Env = cfg_ServerKey2 cfg\<rparr>\<rparr>)))"

text \<open>
  A request: method, the segments of its path (between the slashes; percent escapes are not
  modelled), whether its body could be read, and what the first \<open>n\<close> bytes of the body decode to
  (None if they are no JSON).
\<close>

record http_request =
  req_Method :: string
  req_Path :: "string list"
  req_BodyOk :: bool
  req_JSON :: "nat \<Rightarrow> json option"

datatype endpoint = Health | Create2Deploy | TransferApi | EntrypointTransfer | SplitExecute | Bundler string

text \<open>The patterns of the \<open>ServeMux\<close>; the last one has a wildcard for one segment.\<close>

definition patterns :: "string list \<Rightarrow> (string \<times> endpoint) option" where
  "patterns path =
     (if path = [''health''] then Some (''GET'', Health)
      else if path = [''api'', ''create2'', ''deploy''] then Some (''POST'', Create2Deploy)
      else if path = [''api'', ''transfer''] then Some (''POST'', TransferApi)
      else if path = [''api'', ''entrypoint'', ''transfer''] then Some (''POST'', EntrypointTransfer)
      else if path = [''api'', ''eoa-funded-split'', ''execute-with-signatures''] then Some (''POST'', SplitExecute)
      else if path = [''api'', ''bundler''] then Some (''POST'', Bundler [])
      else if length path = 3 \<and> take 2 path = [''api'', ''bundler''] \<and> path ! 2 \<noteq> [] then Some (''POST'', Bundler (path ! 2))
      else None)"

text \<open>
  \<open>ServeMux\<close> redirects a request whose path is not clean, that is, has empty, \<open>.\<close> or \<open>..\<close> segments
  apart from a trailing slash, to the clean path with status 301, unless the method is CONNECT.
\<close>

definition cleanPath :: "string list \<Rightarrow> bool" where
  "cleanPath path \<longleftrightarrow> path \<noteq> [] \<and> last path \<notin> {''.'', ''..''} \<and> (\<forall>s \<in> set (butlast path). s \<notin> {[], ''.'', ''..''})"

text \<open>A GET pattern also serves HEAD. A path that only other methods match is answered with 405.\<close>

definition route :: "string \<Rightarrow> string list \<Rightarrow> int + endpoint" where
  "route method path =
     (if method \<noteq> ''CONNECT'' \<and> \<not> cleanPath path then Inl 301
      else case patterns path of
        None \<Rightarrow> Inl 404
      | Some (m, e) \<Rightarrow> if method = m \<or> m = ''GET'' \<and> method = ''HEAD'' then Inr e else Inl 405)"

text \<open>The response. A handler that panics sends none.\<close>

datatype response =
    PlainResp int
  | DeployResp "deployResponse http_response"
  | TransferResp "Result http_response"
  | GasPoolResp "gasPoolResponse http_response"
  | SplitResp "SplitResult http_response"
  | RpcResp "int \<times> rpcResponse"
  | NoResp

fun statusCode :: "response \<Rightarrow> int option" where
  "statusCode (PlainResp st) = Some st"
| "statusCode (DeployResp r) = Some (fst r)"
| "statusCode (TransferResp r) = Some (fst r)"
| "statusCode (GasPoolResp r) = Some (fst r)"
| "statusCode (SplitResp r) = Some (fst r)"
| "statusCode (RpcResp r) = Some (fst r)"
| "statusCode NoResp = None"

fun handle :: "deps \<Rightarrow> http_request \<Rightarrow> endpoint \<Rightarrow> response wio" where
  "handle d rq Health = ret (PlainResp 200)"
| "handle d rq Create2Deploy = bindI (Deploy d (req_JSON rq (4 * 2 ^ 20))) (\<lambda>r. ret (DeployResp r))"
| "handle d rq TransferApi =
     bindI (Transfer d (onchainSubmit d) (req_JSON rq (2 ^ 20)))
       (\<lambda>r. ret (case r of Some r \<Rightarrow> TransferResp r | None \<Rightarrow> NoResp))"
| "handle d rq EntrypointTransfer = bindI (GasPoolTransfer d (req_JSON rq (2 ^ 20))) (\<lambda>r. ret (GasPoolResp r))"
| "handle d rq SplitExecute = bindI (ExecuteHandler d (req_JSON rq (2 ^ 20))) (\<lambda>r. ret (SplitResp r))"
| "handle d rq (Bundler chainId) =
     bindI (RPC d (onchainSubmit d) (if req_BodyOk rq then Inr (req_JSON rq (2 ^ 20)) else Inl ()) chainId)
       (\<lambda>r. ret (RpcResp r))"

definition serve :: "deps \<Rightarrow> http_request \<Rightarrow> response wio" where
  "serve d rq =
     (case route (req_Method rq) (req_Path rq) of
        Inl st \<Rightarrow> ret (PlainResp st)
      | Inr e \<Rightarrow> handle d rq e)"

section \<open>The log\<close>

text \<open>
  A JSON line has the format of the other services: the time in Korean time, the level as a
  label, then message, module, pid and host; arguments follow as they are unless they use the
  names \<open>time\<close> or \<open>level\<close>.
\<close>

lemma logged_pino:
  assumes "level \<le> lvl" "\<forall>a \<in> set args. fst a \<notin> {''time'', ''level''}"
  shows "logged (build module level False pid host) now lvl msg args =
    map Some ([(''time'', LString (kstTime now)), (''level'', LString (pinoLabel lvl)), (''msg'', LString msg),
      (''module'', LString module), (''pid'', LString (FormatInt pid)), (''hostname'', LString host)] @ args)"
proof -
  have "map pinoReplace args = map Some args" using assms(2) by (auto simp: pinoReplace_def split: prod.split)
  with assms(1) show ?thesis by (simp add: logged_def build_def pinoReplace_def)
qed

section \<open>Answers\<close>

lemma serve_transfer:
  assumes "Transfer d sub raw w = (ans, w')"
  shows "case ans of None \<Rightarrow> True | Some (st, b) \<Rightarrow> st \<in> {200, 400, 422, 409, 503, 500} \<and> (st = 400 \<longrightarrow> w' = w)"
  using assms
proof (cases rule: Transfer_cases)
  case (Rejected msg)
  then show ?thesis by (simp add: WriteValidationError_def WriteJSON_def)
next
  case (Performed req r)
  show ?thesis
  proof (cases ans)
    case (Some a)
    obtain st b where a: "a = (st, b)" by fastforce
    with Performed(3) Some have "respond (d_geth d) r = Some (st, b)" by simp
    from respond_status(1) [OF this] Some a show ?thesis by auto
  qed simp
qed

lemma serve_checked:
  "Deploy d raw w = (r, w') \<Longrightarrow> fst r \<in> {200, 400, 422, 409, 503, 500} \<and> (fst r = 400 \<longrightarrow> w' = w)"
  "GasPoolTransfer d raw w = (r2, w') \<Longrightarrow> fst r2 \<in> {200, 400, 422, 409, 503, 500} \<and> (fst r2 = 400 \<longrightarrow> w' = w)"
  "ExecuteHandler d raw w = (r3, w') \<Longrightarrow> fst r3 \<in> {200, 400, 422, 409, 503, 500} \<and> (fst r3 = 400 \<longrightarrow> w' = w)"
  using dep.answers [of d raw w "fst r" "snd r" w' "\<lambda>_ _. True"] gp.answers [of d raw w "fst r2" "snd r2" w' "\<lambda>_ _. True"]
    sp.answers [of d raw w "fst r3" "snd r3" w' "\<lambda>_ _. True"] by auto

lemma RPC_status: "RPC d sub body p w = (r, w') \<Longrightarrow> fst r = 200"
  by (auto simp: RPC_def io_simps Let_def split: sum.splits prod.splits)

lemma handle_answers:
  assumes "handle d rq e w = (resp, w')"
  shows "(case statusCode resp of Some st \<Rightarrow> st \<in> {200, 400, 422, 409, 503, 500} | None \<Rightarrow> e = TransferApi)
    \<and> (statusCode resp = Some 400 \<or> e = Health \<longrightarrow> w' = w)"
proof (cases e)
  case Health
  with assms show ?thesis by (auto simp: ret_def)
next
  case Create2Deploy
  with assms obtain r where "Deploy d (req_JSON rq (4 * 2 ^ 20)) w = (r, w')" "resp = DeployResp r" by (auto simp: io_simps split: prod.splits)
  with serve_checked(1) Create2Deploy show ?thesis by fastforce
next
  case TransferApi
  with assms obtain r where "Transfer d (onchainSubmit d) (req_JSON rq (2 ^ 20)) w = (r, w')"
    "resp = (case r of Some r \<Rightarrow> TransferResp r | None \<Rightarrow> NoResp)" by (auto simp: io_simps split: prod.splits)
  with serve_transfer TransferApi show ?thesis by (fastforce split: option.splits)
next
  case EntrypointTransfer
  with assms obtain r where "GasPoolTransfer d (req_JSON rq (2 ^ 20)) w = (r, w')" "resp = GasPoolResp r" by (auto simp: io_simps split: prod.splits)
  with serve_checked(2) EntrypointTransfer show ?thesis by fastforce
next
  case SplitExecute
  with assms obtain r where "ExecuteHandler d (req_JSON rq (2 ^ 20)) w = (r, w')" "resp = SplitResp r" by (auto simp: io_simps split: prod.splits)
  with serve_checked(3) SplitExecute show ?thesis by fastforce
next
  case (Bundler c)
  with assms obtain body r where "RPC d (onchainSubmit d) body c w = (r, w')" "resp = RpcResp r" by (auto simp: io_simps split: prod.splits)
  with RPC_status Bundler show ?thesis by fastforce
qed



section \<open>Start-up\<close>

text \<open>
  C40: a service that starts has an entry point and can reach every chain that its default RPC
  URL or the URL it found serves; it uses the distributed lock exactly when redis is configured
  and the KMS exactly when both its key and the key store are; the fallback keys are those of the
  environment.
\<close>

theorem start_sound:
  assumes "start g x vars environ ParseURL sqlOpen ping cfg = Inr d"
  shows "(\<exists>ep. EntryPoint (registry d) = Inr ep)
    \<and> ((\<forall>c. \<exists>conf. Get (registry d) c = Inr conf) \<or>
       (\<exists>sfx v. ''RPC_URL_'' @ sfx @ ''='' @ v \<in> set environ \<and> TrimSpace v \<noteq> []))
    \<and> (d_rdb d \<longleftrightarrow> cfg_RedisURL cfg \<noteq> [] \<or> cfg_RedisHost cfg \<noteq> [])
    \<and> (Enabled d \<longleftrightarrow> cfg_NHNAppKey cfg \<noteq> [] \<and> cfg_KeyDBPath cfg \<noteq> [])
    \<and> d_env d = \<lparr>OwnerKey = cfg_OwnerKey cfg, BundlerKey = cfg_BundlerKey cfg,
        ServerKey1Env = cfg_ServerKey1 cfg, ServerKey2Env = cfg_ServerKey2 cfg\<rparr>"
proof -
  from assms obtain rdb dec ks where a: "AssertConfig (NewRegistryWithLookup vars) environ = None"
    and r: "Dial ParseURL (cfg_RedisURL cfg) (cfg_RedisHost cfg) (cfg_RedisPort cfg) (cfg_RedisPassword cfg) = Inr rdb"
    and k: "buildKMS sqlOpen ping cfg = Inr (dec, ks)"
    and d: "d = \<lparr>d_geth = g, d_ext = x, d_getenv = vars, d_rdb = (rdb \<noteq> None), d_dec = dec, d_ks = ks,
        d_env = \<lparr>OwnerKey = cfg_OwnerKey cfg, BundlerKey = cfg_BundlerKey cfg,
          ServerKey1Env = cfg_ServerKey1 cfg, ServerKey2Env = cfg_ServerKey2 cfg\<rparr>\<rparr>"
    by (auto simp: start_def split: option.splits sum.splits)
  have reg: "registry d = NewRegistryWithLookup vars" by (simp add: registry_def d)
  have "\<exists>ep. EntryPoint (registry d) = Inr ep" using a by (auto simp: reg AssertConfig_def split: sum.splits)
  moreover have "(\<forall>c. \<exists>conf. Get (registry d) c = Inr conf) \<or>
       (\<exists>sfx v. ''RPC_URL_'' @ sfx @ ''='' @ v \<in> set environ \<and> TrimSpace v \<noteq> [])"
    using AssertConfig_sound [OF a] unfolding reg by blast
  moreover have "d_rdb d \<longleftrightarrow> cfg_RedisURL cfg \<noteq> [] \<or> cfg_RedisHost cfg \<noteq> []"
    using r by (auto simp: d Dial_def split: if_splits option.splits)
  moreover have "Enabled d \<longleftrightarrow> cfg_NHNAppKey cfg \<noteq> [] \<and> cfg_KeyDBPath cfg \<noteq> []"
    using k by (auto simp: d Enabled_def buildKMS_def OpenSQLite_def NewNHNClient_def split: if_splits option.splits)
  ultimately show ?thesis by (simp add: d)
qed

lemma demo_start:
  "\<exists>d. start opaque_geth offline_ext (\<lambda>_. ''x'') [] (\<lambda>_. None) (\<lambda>_. None) (\<lambda>_. None)
     (defaultConfig\<lparr>cfg_RedisHost := ''redis'', cfg_NHNAppKey := ''k''\<rparr>) = Inr d"
  by (simp add: start_def AssertConfig_def EntryPoint_def lookup_def NewRegistryWithLookup_def Dial_def buildKMS_def
      NewNHNClient_def defaultConfig_def)

theorem start_sound_witness:
  "\<exists>d. start opaque_geth offline_ext (\<lambda>_. ''x'') [] (\<lambda>_. None) (\<lambda>_. None) (\<lambda>_. None)
     (defaultConfig\<lparr>cfg_RedisHost := ''redis'', cfg_NHNAppKey := ''k''\<rparr>) = Inr d \<and> d_rdb d \<and> \<not> Enabled d"
proof -
  obtain d where s: "start opaque_geth offline_ext (\<lambda>_. ''x'') [] (\<lambda>_. None) (\<lambda>_. None) (\<lambda>_. None)
     (defaultConfig\<lparr>cfg_RedisHost := ''redis'', cfg_NHNAppKey := ''k''\<rparr>) = Inr d" using demo_start by blast
  from start_sound [OF s] s show ?thesis by (simp add: defaultConfig_def)
qed

section \<open>Configuration and log\<close>

text \<open>The two parsers of log levels agree but on \<open>fatal\<close>, which the one \<open>main\<close> uses takes for info.\<close>

lemma parseLevel_fatal:
  "parseLevel s = (if ToLower (TrimSpace s) = ''fatal'' then LevelInfo else ParseLevel s)" "ParseLevel ''fatal'' = LevelError"
  by (simp_all add: parseLevel_def ParseLevel_def Let_def) code_simp

lemma pinoLabel_roundtrip:
  "l \<in> {LevelDebug, LevelInfo, LevelWarn, LevelError} \<Longrightarrow> parseLevel (pinoLabel l) = l \<and> ParseLevel (pinoLabel l) = l"
  by (elim insertE emptyE; simp only: ; code_simp)

text \<open>The TTL is exact for all settings below 292 years.\<close>

lemma NonceLockTTL_exact:
  assumes "\<bar>cfg_NonceLockTTLMs c\<bar> \<le> 9223372036854"
  shows "sint (NonceLockTTL c) = cfg_NonceLockTTLMs c * 1000000"
proof -
  let ?n = "cfg_NonceLockTTLMs c * 1000000"
  have "NonceLockTTL c = word_of_int ?n" by (simp add: NonceLockTTL_def)
  then have "sint (NonceLockTTL c) = signed_take_bit 63 ?n" by (simp only:) (simp only: sint_sbintrunc', simp)
  also have "\<dots> = ?n" using assms by (intro signed_take_bit_int_eq_self) auto
  finally show ?thesis .
qed

end
