(* ===== verification/Split_Section.thy ===== *)
theory Split_Section
  imports Split
begin

text \<open>
  The critical section of a settlement, \<open>splitSection\<close>: every transaction it broadcasts is an
  approval or a settlement that is justified by what was read from the chain before.
\<close>

declare split_paired_Ex [simp del] split_paired_All [simp del]

section \<open>What the critical section submits\<close>


text \<open>
  \<open>vetted ok seen es\<close>: every submission of \<open>es\<close> satisfies \<open>ok\<close> with respect to the events before
  it, of which \<open>seen\<close> are those before \<open>es\<close>.
\<close>

fun vetted :: "(trace \<Rightarrow> event \<Rightarrow> bool) \<Rightarrow> trace \<Rightarrow> trace \<Rightarrow> bool" where
  "vetted ok seen [] \<longleftrightarrow> True"
| "vetted ok seen (e # es) \<longleftrightarrow> (submission e \<longrightarrow> ok seen e) \<and> vetted ok (seen @ [e]) es"

lemma vetted_append [simp]: "vetted ok seen (es @ fs) \<longleftrightarrow> vetted ok seen es \<and> vetted ok (seen @ es) fs"
  by (induction es arbitrary: seen) simp_all

lemma vetted_queries: "list_all query es \<Longrightarrow> vetted ok seen es"
  by (induction es arbitrary: seen) (auto dest: query_plain)

lemma vetted_mono:
  assumes "\<And>seen seen' e. ok seen e \<Longrightarrow> set seen \<subseteq> set seen' \<Longrightarrow> ok seen' e"
  shows "vetted ok seen es \<Longrightarrow> set seen \<subseteq> set seen' \<Longrightarrow> vetted ok seen' es"
proof (induction es arbitrary: seen seen')
  case (Cons e es)
  moreover have "set (seen @ [e]) \<subseteq> set (seen' @ [e])" using Cons.prems(2) by auto
  ultimately show ?case using assms [of seen e seen'] by (metis vetted.simps(2))
qed simp

text \<open>The call of a view method with its answer, in the events so far.\<close>

abbreviation answered :: "trace \<Rightarrow> client \<Rightarrow> address \<Rightarrow> string \<Rightarrow> abival list \<Rightarrow> abival \<Rightarrow> bool" where
  "answered es c a m args v \<equiv> EvCall c a m args (Inr v) \<in> set es"

text \<open>
  A settlement transaction: both server keys signed the digest the router itself computed for
  the parameters and the nonce, and the call carries the parameters and both native amounts.
\<close>

definition settles ::
  "deps \<Rightarrow> client \<Rightarrow> Params \<Rightarrow> address \<Rightarrow> Account \<Rightarrow> Account \<Rightarrow> Account \<Rightarrow> int \<Rightarrow> int \<Rightarrow> trace \<Rightarrow> signed_tx \<Rightarrow> bool" where
  "settles d c p router rel s1 s2 epoch nonce seen stx \<longleftrightarrow>
     (\<exists>digest sig0 sig1 data.
        typedDataHash (d_geth d) (p_ChainID p) router (splitMessage p (addr rel) epoch nonce) = Inr digest
        \<and> answered seen c router ''hashTypedDataPayerSplit'' (splitArgs p (addr rel) nonce) (VBytes32 digest)
        \<and> Sign65 (d_geth d) digest (priv s1) = Inr sig0 \<and> Sign65 (d_geth d) digest (priv s2) = Inr sig1
        \<and> splitCalldata (d_geth d) p (addr rel) nonce sig0 sig1 = Inr data
        \<and> carries (d_geth d) (p_ChainID p) rel router (p_NativeAmount0 p + p_NativeAmount1 p) data stx)"

lemma settles_mono:
  "settles d c p router rel s1 s2 epoch nonce seen stx \<Longrightarrow> set seen \<subseteq> set seen'
     \<Longrightarrow> settles d c p router rel s1 s2 epoch nonce seen' stx"
  unfolding settles_def by blast

text \<open>
  \<open>sent_tx\<close>: the outcome of a function that asks the node, then broadcasts a transaction with
  property \<open>Q\<close> as its last step and reports its hash and the node's answer, or fails before.
\<close>

definition sent_tx ::
  "deps \<Rightarrow> client \<Rightarrow> (signed_tx \<Rightarrow> trace \<Rightarrow> bool) \<Rightarrow> txhash \<times> go_error option \<Rightarrow> trace \<Rightarrow> bool" where
  "sent_tx d c Q r es \<longleftrightarrow> list_all query es \<and> snd r \<noteq> None \<or>
     (\<exists>qs stx. es = qs @ [EvSendTransaction c stx (snd r)] \<and> list_all query qs
        \<and> fst r = signed_Hash (d_geth d) stx \<and> Q stx qs)"

lemma sent_tx_failed [simp]: "list_all query es \<Longrightarrow> sent_tx d c Q (h, Some e) es"
  by (simp add: sent_tx_def)

lemma sent_tx_after:
  assumes "sent_tx d c Q r fs" "list_all query es" "\<And>stx qs. Q stx qs \<Longrightarrow> R stx (es @ qs)"
  shows "sent_tx d c R r (es @ fs)"
  using assms(1) unfolding sent_tx_def
proof (elim disjE conjE exE)
  fix qs stx assume "fs = qs @ [EvSendTransaction c stx (snd r)]" "list_all query qs"
    "fst r = signed_Hash (d_geth d) stx" "Q stx qs"
  then have "es @ fs = (es @ qs) @ [EvSendTransaction c stx (snd r)] \<and> list_all query (es @ qs)
      \<and> fst r = signed_Hash (d_geth d) stx \<and> R stx (es @ qs)"
    using assms(2,3) by simp
  then show "list_all query (es @ fs) \<and> snd r \<noteq> None \<or>
     (\<exists>qs stx. es @ fs = qs @ [EvSendTransaction c stx (snd r)] \<and> list_all query qs
        \<and> fst r = signed_Hash (d_geth d) stx \<and> R stx qs)" by blast
qed (use assms(2) in simp)

lemma sent_tx_mono: "sent_tx d c Q r es \<Longrightarrow> (\<And>stx qs. Q stx qs \<Longrightarrow> R stx qs) \<Longrightarrow> sent_tx d c R r es"
  using sent_tx_after [of d c Q r es "[]" R] by simp

definition nonce_of :: "geth \<Rightarrow> int64 \<Rightarrow> Account \<Rightarrow> uint64 \<Rightarrow> signed_tx \<Rightarrow> bool" where
  "nonce_of g ch acc n stx \<longleftrightarrow> (\<exists>t. types_SignTx g ch (priv acc) t = Inr stx \<and> tx_Nonce t = n)"

lemma SignAndSend_runs:
  "runs (SignAndSend d c ch (priv acc) n dest v data gas fees)
     (sent_tx d c (\<lambda>stx qs. carries (d_geth d) ch acc dest v data stx \<and> nonce_of (d_geth d) ch acc n stx))"
  (is "runs _ (sent_tx d c ?Q)")
  unfolding runs_def
proof
  fix w
  show "\<exists>x es. SignAndSend d c ch (priv acc) n dest v data gas fees w = (x, w\<lparr>trace := trace w @ es\<rparr>) \<and> sent_tx d c ?Q x es"
  proof (cases "types_SignTx (d_geth d) ch (priv acc) (tx_of ch n dest v data gas fees)")
    case (Inl e)
    then show ?thesis
      by (intro exI [of _ "([], Some e)"] exI [of _ "[]"]) (simp add: SignAndSend_cases)
  next
    case (Inr stx)
    let ?err = "x_SendTransaction (d_ext d) (trace w) c stx"
    have "?Q stx []" using Inr unfolding carries_def nonce_of_def by (metis tx_of_sel(1,2,3,4))
    then have "sent_tx d c ?Q (signed_Hash (d_geth d) stx, ?err) [EvSendTransaction c stx ?err]"
      unfolding sent_tx_def by (intro disjI2 exI [of _ "[]"] exI [of _ stx]) simp
    with Inr show ?thesis
      by (intro exI [of _ "(signed_Hash (d_geth d) stx, ?err)"] exI [of _ "[EvSendTransaction c stx ?err]"])
         (simp add: SignAndSend_cases Let_def)
  qed
qed

text \<open>Fees, gas limit and broadcast, as both transactions of a settlement do it.\<close>

lemma fee_send_runs:
  "runs (bindI (FeeFromProvider d c) (\<lambda>f. case f of Inl e \<Rightarrow> ret ([], Some e) | Inr fees \<Rightarrow>
      bindI (EstimateGas d c msg lo hi fb) (\<lambda>gas. SignAndSend d c ch (priv acc) n dest v data gas fees)))
     (sent_tx d c (\<lambda>stx qs. carries (d_geth d) ch acc dest v data stx \<and> nonce_of (d_geth d) ch acc n stx))"
proof (rule runs_bindI, rule runs_mono [OF asks_runs [OF asks_FeeFromProvider]])
  fix f es assume es: "list_all query es"
  show "runs (case f of Inl e \<Rightarrow> ret ([], Some e) | Inr fees \<Rightarrow>
      bindI (EstimateGas d c msg lo hi fb) (\<lambda>gas. SignAndSend d c ch (priv acc) n dest v data gas fees))
     (\<lambda>y fs. sent_tx d c (\<lambda>stx qs. carries (d_geth d) ch acc dest v data stx \<and> nonce_of (d_geth d) ch acc n stx) y (es @ fs))"
  proof (cases f)
    case (Inr fees)
    show ?thesis unfolding Inr sum.case
      by (rule runs_bindI, rule runs_mono [OF asks_runs [OF asks_EstimateGas]], rule runs_mono [OF SignAndSend_runs],
          rule sent_tx_after [OF _ es], rule sent_tx_after) auto
  qed (use es in simp)
qed

text \<open>\<open>buildAndSend\<close> broadcasts nothing but a settlement, with the given account nonce.\<close>

lemma buildAndSend_runs:
  "runs (buildAndSend d c p router (addr rel) rel s1 s2 epoch nonce n)
     (sent_tx d c (\<lambda>stx qs. settles d c p router rel s1 s2 epoch nonce qs stx
        \<and> nonce_of (d_geth d) (p_ChainID p) rel n stx))"
proof (cases "typedDataHash (d_geth d) (p_ChainID p) router (splitMessage p (addr rel) epoch nonce)")
  case (Inl e)
  then show ?thesis by (simp add: buildAndSend_def)
next
  case dig: (Inr digest)
  let ?Q = "\<lambda>stx qs. settles d c p router rel s1 s2 epoch nonce qs stx \<and> nonce_of (d_geth d) (p_ChainID p) rel n stx"
  let ?call = "\<lambda>r. EvCall c router ''hashTypedDataPayerSplit'' (splitArgs p (addr rel) nonce) r"
  have send: "runs (bindI (FeeFromProvider d c) (\<lambda>f. case f of Inl e \<Rightarrow> ret ([], Some e) | Inr fees \<Rightarrow>
      bindI (EstimateGas d c msg lo hi fb) (\<lambda>gas.
        SignAndSend d c (p_ChainID p) (priv rel) n router (p_NativeAmount0 p + p_NativeAmount1 p) data gas fees)))
      (\<lambda>y fs. sent_tx d c ?Q y (?call (Inr (VBytes32 digest)) # fs))"
    if sigs: "Sign65 (d_geth d) digest (priv s1) = Inr sig0" "Sign65 (d_geth d) digest (priv s2) = Inr sig1"
      "splitCalldata (d_geth d) p (addr rel) nonce sig0 sig1 = Inr data" for sig0 sig1 data msg lo hi fb
  proof (rule runs_mono [OF fee_send_runs])
    fix y fs assume "sent_tx d c (\<lambda>stx qs. carries (d_geth d) (p_ChainID p) rel router
        (p_NativeAmount0 p + p_NativeAmount1 p) data stx \<and> nonce_of (d_geth d) (p_ChainID p) rel n stx) y fs"
    from sent_tx_after [OF this, of "[?call (Inr (VBytes32 digest))]" ?Q]
    show "sent_tx d c ?Q y (?call (Inr (VBytes32 digest)) # fs)"
      using dig sigs by (auto simp: settles_def)
  qed
  show ?thesis
    unfolding buildAndSend_def Let_def dig sum.case
    by (rule runs_bindI, rule runs_mono [OF callView_runs])
       (auto intro!: send split: sum.split abival.split)
qed

text \<open>An approval of the router for an amount of the token.\<close>

definition approves :: "deps \<Rightarrow> Params \<Rightarrow> address \<Rightarrow> Account \<Rightarrow> int \<Rightarrow> signed_tx \<Rightarrow> bool" where
  "approves d p router rel amount stx \<longleftrightarrow>
     (\<exists>data. abi_Pack (d_geth d) ''erc20.approve'' [VAddress router, VUint amount] = Inr data
        \<and> carries (d_geth d) (p_ChainID p) rel (p_ERC20Token p) 0 data stx)"

text \<open>An approval was broadcast and its receipt shows that it did not revert.\<close>

definition approval_mined :: "deps \<Rightarrow> client \<Rightarrow> Params \<Rightarrow> address \<Rightarrow> Account \<Rightarrow> int \<Rightarrow> trace \<Rightarrow> bool" where
  "approval_mined d c p router rel amount es \<longleftrightarrow>
     (\<exists>stx rc. approves d p router rel amount stx \<and> EvSendTransaction c stx None \<in> set es
        \<and> EvTransactionReceipt c (signed_Hash (d_geth d) stx) (Inr (Some rc)) \<in> set es \<and> rcpt_Status rc \<noteq> 0)"

lemma approval_mined_mono:
  "approval_mined d c p router rel amount es \<Longrightarrow> set es \<subseteq> set fs \<Longrightarrow> approval_mined d c p router rel amount fs"
  unfolding approval_mined_def by blast

text \<open>What one call of \<open>approve\<close> submits: at most one approval; success means it was mined.\<close>

definition approval_run ::
  "deps \<Rightarrow> client \<Rightarrow> Params \<Rightarrow> address \<Rightarrow> Account \<Rightarrow> int \<Rightarrow> go_error option \<Rightarrow> trace \<Rightarrow> bool" where
  "approval_run d c p router rel amount err es \<longleftrightarrow>
     (list_all query es \<and> err \<noteq> None \<or>
      (\<exists>qs stx r ws. es = qs @ EvSendTransaction c stx r # ws \<and> list_all query qs \<and> list_all query ws
         \<and> approves d p router rel amount stx))
     \<and> (err = None \<longrightarrow> approval_mined d c p router rel amount es)"

lemma WaitReceipt_runs: "runs (WaitReceipt d c h) (\<lambda>re es. poll_verdict c h re es)"
  unfolding runs_def
proof
  fix w :: world
  let ?n = "x_Ticks (d_ext d) (trace w)"
  let ?w = "w\<lparr>trace := trace w @ [EvTicks ?n]\<rparr>"
  obtain re w' where r: "pollReceipt d c h ?n ?w = (re, w')" by fastforce
  from pollReceipt_verdict [OF r] obtain es where "w' = ?w\<lparr>trace := trace ?w @ es\<rparr>" "poll_verdict c h re es" by blast
  with r show "\<exists>x es. WaitReceipt d c h w = (x, w\<lparr>trace := trace w @ es\<rparr>) \<and> poll_verdict c h x es"
    by (intro exI [of _ re] exI [of _ "EvTicks ?n # es"])
       (auto simp: WaitReceipt_def io_simps poll_verdict_def split: prod.splits option.splits)
qed

lemma failed_approval:
  assumes "sent_tx d c Q (h, Some e) es" "\<And>stx qs. Q stx qs \<Longrightarrow> approves d p router rel amount stx"
  shows "approval_run d c p router rel amount (Some e) es"
  using assms(1) unfolding sent_tx_def
proof (elim disjE exE conjE)
  fix qs stx assume "es = qs @ [EvSendTransaction c stx (snd (h, Some e))]" "list_all query qs" "Q stx qs"
  then have "es = qs @ EvSendTransaction c stx (Some e) # []" "list_all query qs" "approves d p router rel amount stx"
    using assms(2) by simp_all
  then show ?thesis unfolding approval_run_def by (metis list.pred_inject(1) option.distinct(1))
qed (simp add: approval_run_def)

lemma waited_approval:
  assumes "sent_tx d c Q (h, None) es" "\<And>stx qs. Q stx qs \<Longrightarrow> approves d p router rel amount stx"
    and "poll_verdict c h (rc, e) ws"
  shows "approval_run d c p router rel amount e (es @ ws)"
proof -
  from assms(1,2) obtain qs stx where es: "es = qs @ [EvSendTransaction c stx None]" "list_all query qs"
    "h = signed_Hash (d_geth d) stx" "approves d p router rel amount stx" by (auto simp: sent_tx_def)
  have "approval_mined d c p router rel amount (es @ ws)" if "e = None"
    using es assms(3) that by (auto simp: poll_verdict_def approval_mined_def split: option.splits)
  moreover have "list_all query ws" using assms(3) by (simp add: poll_verdict_def)
  ultimately show ?thesis using es unfolding approval_run_def by auto
qed

lemma approve_runs:
  "runs (approve d c (p_ChainID p) rel (p_ERC20Token p) router owner amount n)
     (\<lambda>r es. approval_run d c p router rel amount (snd r) es)"
proof (cases "abi_Pack (d_geth d) ''erc20.approve'' [VAddress router, VUint amount]")
  case (Inl e)
  then show ?thesis by (simp add: approve_def approval_run_def)
next
  case data: (Inr data)
  let ?send = "bindI (FeeFromProvider d c) (\<lambda>f. case f of Inl e \<Rightarrow> ret ([], Some e) | Inr fees \<Rightarrow>
      bindI (EstimateGas d c \<lparr>msg_From = owner, msg_To = p_ERC20Token p, msg_Value = None, msg_Data = data\<rparr> 45000 200000 120000)
        (\<lambda>gas. SignAndSend d c (p_ChainID p) (priv rel) n (p_ERC20Token p) 0 data gas fees))"
  let ?wait = "\<lambda>(hash, err). case err of Some e \<Rightarrow> ret (hash, Some e)
      | None \<Rightarrow> bindI (WaitReceipt d c hash) (\<lambda>(_, err). ret (hash, err))"
  have shape: "approve d c (p_ChainID p) rel (p_ERC20Token p) router owner amount n = bindI ?send ?wait"
    unfolding approve_def data sum.case
    by (rule ext) (simp add: io_simps split: prod.split sum.split option.split)
  show ?thesis unfolding shape
  proof (rule runs_bindI, rule runs_mono [OF fee_send_runs])
    fix x es
    assume s0: "sent_tx d c (\<lambda>stx qs. carries (d_geth d) (p_ChainID p) rel (p_ERC20Token p) 0 data stx
        \<and> nonce_of (d_geth d) (p_ChainID p) rel n stx) x es"
    have Q: "approves d p router rel amount stx" if "carries (d_geth d) (p_ChainID p) rel (p_ERC20Token p) 0 data stx
        \<and> nonce_of (d_geth d) (p_ChainID p) rel n stx" for stx
      using that data by (auto simp: approves_def)
    obtain h err where x: "x = (h, err)" by fastforce
    show "runs (?wait x) (\<lambda>y fs. approval_run d c p router rel amount (snd y) (es @ fs))"
    proof (cases err)
      case (Some e)
      then show ?thesis using failed_approval [OF s0 [unfolded x Some] Q] by (simp add: x)
    next
      case None
      show ?thesis unfolding x None using waited_approval [OF s0 [unfolded x None] Q]
        by (auto intro!: runs_bindI runs_mono [OF WaitReceipt_runs])
    qed
  qed
qed

text \<open>
  The two kinds of submission, with what must have been read from the chain before: an approval
  follows an allowance that does not suffice, a settlement follows the router's epoch, the
  payer's nonce and the router's digest.
\<close>

definition suffices :: "int \<Rightarrow> abival \<Rightarrow> bool" where
  "suffices needed v = (case v of VUint cur \<Rightarrow> needed \<le> cur | _ \<Rightarrow> False)"

abbreviation needed :: "Params \<Rightarrow> int" where
  "needed p \<equiv> p_ERC20Amount0 p + p_ERC20Amount1 p"

definition approval_ok :: "deps \<Rightarrow> client \<Rightarrow> Params \<Rightarrow> address \<Rightarrow> Account \<Rightarrow> trace \<Rightarrow> event \<Rightarrow> bool" where
  "approval_ok d c p router rel seen e \<longleftrightarrow>
     (\<exists>stx r amount v. e = EvSendTransaction c stx r \<and> amount \<in> {0, needed p} \<and> approves d p router rel amount stx
        \<and> answered seen c (p_ERC20Token p) ''allowance'' [VAddress (addr rel), VAddress router] v \<and> \<not> suffices (needed p) v)"

definition settle_ok ::
  "deps \<Rightarrow> client \<Rightarrow> Params \<Rightarrow> address \<Rightarrow> Account \<Rightarrow> Account \<Rightarrow> Account \<Rightarrow> trace \<Rightarrow> event \<Rightarrow> bool" where
  "settle_ok d c p router rel s1 s2 seen e \<longleftrightarrow>
     (\<exists>stx r epoch nonce. e = EvSendTransaction c stx r \<and> answered seen c router ''signerEpoch'' [] (VUint epoch)
        \<and> answered seen c router ''payerNonce'' [VAddress (addr rel)] (VUint nonce)
        \<and> settles d c p router rel s1 s2 epoch nonce seen stx)"

lemma query_no_mutex: "list_all query es \<Longrightarrow> list_all (\<lambda>e. \<not> mutex_event e) es"
  by (auto simp: list_all_iff dest: query_plain)

lemma query_no_submission: "list_all query es \<Longrightarrow> filter submission es = []"
  by (auto simp: filter_empty_conv list_all_iff dest: query_plain)

lemma approval_run_vetted:
  assumes "approval_run d c p router rel amount err es" "amount \<in> {0, needed p}" "\<not> suffices (needed p) v"
    and "answered seen c (p_ERC20Token p) ''allowance'' [VAddress (addr rel), VAddress router] v"
  shows "vetted (approval_ok d c p router rel) seen es \<and> list_all (\<lambda>e. \<not> mutex_event e) es"
  using assms(1) unfolding approval_run_def
proof (elim conjE disjE exE)
  fix qs stx r ws assume e: "es = qs @ EvSendTransaction c stx r # ws" "list_all query qs" "list_all query ws"
    "approves d p router rel amount stx"
  have "approval_ok d c p router rel (seen @ qs) (EvSendTransaction c stx r)"
    unfolding approval_ok_def using e(4) assms(2,3,4) by auto
  with e show ?thesis by (simp add: vetted_queries query_no_mutex)
qed (simp_all add: vetted_queries query_no_mutex)

definition allowance_ok :: "deps \<Rightarrow> client \<Rightarrow> Params \<Rightarrow> address \<Rightarrow> Account \<Rightarrow> trace \<Rightarrow> bool" where
  "allowance_ok d c p router rel es \<longleftrightarrow>
     (\<exists>v. answered es c (p_ERC20Token p) ''allowance'' [VAddress (addr rel), VAddress router] v \<and> suffices (needed p) v)
     \<or> approval_mined d c p router rel (needed p) es"

lemma allowance_ok_mono:
  "allowance_ok d c p router rel es \<Longrightarrow> set es \<subseteq> set fs \<Longrightarrow> allowance_ok d c p router rel fs"
  unfolding allowance_ok_def using approval_mined_mono by blast

text \<open>
  \<open>approving ... v es\<close>: \<open>es\<close> begins with the allowance \<open>v\<close> and all its submissions are approvals.
  \<open>allowed\<close> is the claim about \<open>ensureAllowance\<close>, whatever its result holds.
\<close>

definition approving :: "deps \<Rightarrow> client \<Rightarrow> Params \<Rightarrow> address \<Rightarrow> Account \<Rightarrow> abival \<Rightarrow> trace \<Rightarrow> bool" where
  "approving d c p router rel v es \<longleftrightarrow>
     EvCall c (p_ERC20Token p) ''allowance'' [VAddress (addr rel), VAddress router] (Inr v) \<in> set es
     \<and> vetted (approval_ok d c p router rel) [] es \<and> list_all (\<lambda>e. \<not> mutex_event e) es"

definition allowed :: "deps \<Rightarrow> client \<Rightarrow> Params \<Rightarrow> address \<Rightarrow> Account \<Rightarrow> 'e + 'r \<Rightarrow> trace \<Rightarrow> bool" where
  "allowed d c p router rel r es \<longleftrightarrow> vetted (approval_ok d c p router rel) [] es \<and> list_all (\<lambda>e. \<not> mutex_event e) es
     \<and> (isl r \<or> allowance_ok d c p router rel es)"

lemma allowed_pure:
  "approving d c p router rel v es \<Longrightarrow> allowed d c p router rel (Inl e) es"
  "approving d c p router rel v es \<Longrightarrow> approval_mined d c p router rel (needed p) es \<Longrightarrow> allowed d c p router rel (Inr x) es"
  by (auto simp: approving_def allowed_def allowance_ok_def)

text \<open>One more approval, and then \<open>f\<close>.\<close>

lemma approve_then:
  fixes f :: "txhash \<times> go_error option \<Rightarrow> (txhash \<times> uint64) weio"
  assumes "\<not> suffices (needed p) v" "amount \<in> {0, needed p}" "approving d c p router rel v es"
    and "\<And>h e es. approving d c p router rel v es \<Longrightarrow> (e = None \<Longrightarrow> approval_mined d c p router rel amount es) \<Longrightarrow>
      runs (f (h, e)) (\<lambda>y gs. allowed d c p router rel y (es @ gs))"
  shows "runs (bindI (approve d c (p_ChainID p) rel (p_ERC20Token p) router (addr rel) amount m) f)
    (\<lambda>y fs. allowed d c p router rel y (es @ fs))"
proof (rule runs_bindI, rule runs_mono [OF approve_runs])
  fix x :: "txhash \<times> go_error option" and fs assume a: "approval_run d c p router rel amount (snd x) fs"
  have "vetted (approval_ok d c p router rel) es fs \<and> list_all (\<lambda>e. \<not> mutex_event e) fs"
    using approval_run_vetted [OF a assms(2,1), of es] assms(3) by (simp add: approving_def)
  with assms(3) have "approving d c p router rel v (es @ fs)" by (simp add: approving_def)
  moreover have "approval_mined d c p router rel amount (es @ fs)" if "snd x = None"
    using a that by (auto simp: approval_run_def elim: approval_mined_mono)
  ultimately show "runs (f x) (\<lambda>y gs. allowed d c p router rel y (es @ fs @ gs))"
    using assms(4) [of "es @ fs" "snd x" "fst x"] by simp
qed

text \<open>The last attempt, and the reset to zero before it.\<close>

lemma approve_last:
  fixes k :: uint64
  assumes "\<not> suffices (needed p) v" "approving d c p router rel v es"
  shows "runs (bindI (approve d c (p_ChainID p) rel (p_ERC20Token p) router (addr rel) (needed p) m)
      (\<lambda>(hash, err). case err of Some e \<Rightarrow> failE e | None \<Rightarrow> retE (hash, k)))
    (\<lambda>y fs. allowed d c p router rel y (es @ fs))"
  by (rule approve_then [OF assms(1) _ assms(2)]) (auto split: option.split intro: allowed_pure)

lemma approve_reset:
  assumes "\<not> suffices (needed p) v" "approving d c p router rel v es"
  shows "runs (bindI (approve d c (p_ChainID p) rel (p_ERC20Token p) router (addr rel) 0 n) (\<lambda>(_, e). case e of
      Some e \<Rightarrow> failE (ErrWrap ''ERC20 approve(0) reset failed: '' e)
    | None \<Rightarrow> bindI (approve d c (p_ChainID p) rel (p_ERC20Token p) router (addr rel) (needed p) (n + 1))
        (\<lambda>(hash, err). case err of Some e \<Rightarrow> failE e | None \<Rightarrow> retE (hash, n + 2))))
    (\<lambda>y fs. allowed d c p router rel y (es @ fs))"
  by (rule approve_then [OF assms(1) _ assms(2)])
     (auto split: option.split intro: allowed_pure approve_last [OF assms(1)])

lemma ensureAllowance_runs:
  "runs (ensureAllowance d c (p_ChainID p) rel (p_ERC20Token p) router (addr rel) (needed p) n)
     (allowed d c p router rel)"
proof -
  have "runs (ensureAllowance d c (p_ChainID p) rel (p_ERC20Token p) router (addr rel) (needed p) n)
     (\<lambda>r es. allowed d c p router rel r ([] @ es))"
    unfolding ensureAllowance_def
  proof (rule runs_bindE, rule runs_mono [OF callView_runs], split sum.split, intro conjI allI impI)
    fix r es v
    assume es: "es = [EvCall c (p_ERC20Token p) ''allowance'' [VAddress (addr rel), VAddress router] r]"
    show "allowed d c p router rel (Inl e) ([] @ es)" if "r = Inl e" for e
      using es that by (simp add: allowed_def)
    assume r: "r = Inr v"
    have pre: "approving d c p router rel v es" using es r by (simp add: approving_def)
    have *: "(case v of VUint cur \<Rightarrow> needed p \<le> cur | _ \<Rightarrow> False) = suffices (needed p) v" by (simp add: suffices_def)
    show "runs (if (case v of VUint cur \<Rightarrow> needed p \<le> cur | _ \<Rightarrow> False) then retE ([], n) else
        bindI (approve d c (p_ChainID p) rel (p_ERC20Token p) router (addr rel) (needed p) n) (\<lambda>(hash, err).
          if err = None then retE (hash, n + 1) else
          bindI (approve d c (p_ChainID p) rel (p_ERC20Token p) router (addr rel) 0 n) (\<lambda>(_, e). case e of
            Some e \<Rightarrow> failE (ErrWrap ''ERC20 approve(0) reset failed: '' e)
          | None \<Rightarrow> bindI (approve d c (p_ChainID p) rel (p_ERC20Token p) router (addr rel) (needed p) (n + 1))
              (\<lambda>(hash, err). case err of Some e \<Rightarrow> failE e | None \<Rightarrow> retE (hash, n + 2)))))
      (\<lambda>y fs. allowed d c p router rel y ([] @ es @ fs))"
    proof (cases "suffices (needed p) v")
      case True
      then have "allowance_ok d c p router rel es" using es r by (auto simp: allowance_ok_def)
      with True pre show ?thesis unfolding * by (simp add: allowed_def approving_def)
    next
      case False
      then show ?thesis unfolding * append_Nil if_not_P [OF False]
        by (intro approve_then [OF False _ pre]) (auto intro: allowed_pure approve_reset)
    qed
  qed
  then show ?thesis by simp
qed

text \<open>
  The attempts at a settlement, in order: all refused if an error is reported, and otherwise
  only the last one accepted; there are at most two.
\<close>

fun refused :: "event \<Rightarrow> bool" where
  "refused (EvSendTransaction c stx r) \<longleftrightarrow> r \<noteq> None"
| "refused e \<longleftrightarrow> False"

definition attempts ::
  "deps \<Rightarrow> client \<Rightarrow> Params \<Rightarrow> address \<Rightarrow> Account \<Rightarrow> Account \<Rightarrow> Account \<Rightarrow> trace \<Rightarrow> go_error + txhash \<times> int \<Rightarrow> trace \<Rightarrow> bool" where
  "attempts d c p router rel s1 s2 seen r es \<longleftrightarrow>
     vetted (settle_ok d c p router rel s1 s2) seen es \<and> list_all (\<lambda>e. \<not> mutex_event e) es
     \<and> (case r of
          Inl _ \<Rightarrow> list_all refused (filter submission es) \<and> length (filter submission es) \<le> 2
        | Inr (h, nonce) \<Rightarrow> \<exists>rs stx epoch. filter submission es = rs @ [EvSendTransaction c stx None]
            \<and> list_all refused rs \<and> length rs \<le> 1 \<and> h = signed_Hash (d_geth d) stx
            \<and> answered (seen @ es) c router ''payerNonce'' [VAddress (addr rel)] (VUint nonce)
            \<and> settles d c p router rel s1 s2 epoch nonce (seen @ es) stx)"

lemma callBig_runs: "runs (callBig d c a m args) (\<lambda>r es. list_all query es \<and>
    (case r of Inl _ \<Rightarrow> True | Inr n \<Rightarrow> answered es c a m args (VUint n)))"
  unfolding callBig_def
  by (rule runs_bindE, rule runs_mono [OF callView_runs]) (auto split: sum.split abival.split)

text \<open>One attempt, after the epoch and a nonce have been read.\<close>

lemma buildAndSend_attempt:
  assumes sent: "sent_tx d c (\<lambda>stx qs. settles d c p router rel s1 s2 epoch nonce qs stx
      \<and> nonce_of (d_geth d) (p_ChainID p) rel n stx) x es"
    and seen: "answered seen c router ''signerEpoch'' [] (VUint epoch)"
      "answered seen c router ''payerNonce'' [VAddress (addr rel)] (VUint nonce)"
  shows "vetted (settle_ok d c p router rel s1 s2) seen es" "list_all (\<lambda>e. \<not> mutex_event e) es"
    and "snd x \<noteq> None \<Longrightarrow> list_all refused (filter submission es) \<and> length (filter submission es) \<le> 1"
    and "snd x = None \<Longrightarrow> \<exists>stx. filter submission es = [EvSendTransaction c stx None]
          \<and> fst x = signed_Hash (d_geth d) stx \<and> settles d c p router rel s1 s2 epoch nonce es stx"
proof -
  have "vetted (settle_ok d c p router rel s1 s2) seen es \<and> list_all (\<lambda>e. \<not> mutex_event e) es
    \<and> (snd x \<noteq> None \<longrightarrow> list_all refused (filter submission es) \<and> length (filter submission es) \<le> 1)
    \<and> (snd x = None \<longrightarrow> (\<exists>stx. filter submission es = [EvSendTransaction c stx None]
          \<and> fst x = signed_Hash (d_geth d) stx \<and> settles d c p router rel s1 s2 epoch nonce es stx))"
    using sent unfolding sent_tx_def
  proof (elim disjE exE conjE)
    fix qs stx assume e: "es = qs @ [EvSendTransaction c stx (snd x)]" "list_all query qs"
      "fst x = signed_Hash (d_geth d) stx" "settles d c p router rel s1 s2 epoch nonce qs stx"
    have "settles d c p router rel s1 s2 epoch nonce (seen @ qs) stx"
      by (rule settles_mono [OF e(4)]) simp
    with seen have "settle_ok d c p router rel s1 s2 (seen @ qs) (EvSendTransaction c stx (snd x))"
      unfolding settle_ok_def by auto
    moreover have "settles d c p router rel s1 s2 epoch nonce es stx"
      by (rule settles_mono [OF e(4)]) (auto simp: e(1))
    ultimately show ?thesis using e by (auto simp: vetted_queries query_no_mutex query_no_submission)
  qed (simp add: vetted_queries query_no_mutex query_no_submission)
  then show "vetted (settle_ok d c p router rel s1 s2) seen es" "list_all (\<lambda>e. \<not> mutex_event e) es"
    "snd x \<noteq> None \<Longrightarrow> list_all refused (filter submission es) \<and> length (filter submission es) \<le> 1"
    "snd x = None \<Longrightarrow> \<exists>stx. filter submission es = [EvSendTransaction c stx None]
          \<and> fst x = signed_Hash (d_geth d) stx \<and> settles d c p router rel s1 s2 epoch nonce es stx" by blast+
qed

lemma attempts_refused:
  assumes "vetted (settle_ok d c p router rel s1 s2) seen es" "list_all (\<lambda>e. \<not> mutex_event e) es"
    and "list_all refused (filter submission es)" "length (filter submission es) \<le> 2"
  shows "attempts d c p router rel s1 s2 seen (Inl e) es"
  using assms by (simp add: attempts_def)

lemma attempts_accepted:
  assumes "vetted (settle_ok d c p router rel s1 s2) seen es" "list_all (\<lambda>e. \<not> mutex_event e) es"
    and "filter submission es = rs @ [EvSendTransaction c stx None]" "list_all refused rs" "length rs \<le> 1"
    and "answered (seen @ es) c router ''payerNonce'' [VAddress (addr rel)] (VUint nonce)"
    and "settles d c p router rel s1 s2 epoch nonce fs stx" "set fs \<subseteq> set (seen @ es)"
  shows "attempts d c p router rel s1 s2 seen (Inr (signed_Hash (d_geth d) stx, nonce)) es"
  using assms settles_mono [OF assms(7,8)] unfolding attempts_def by auto

lemma retry_runs:
  assumes ep: "answered seen c router ''signerEpoch'' [] (VUint epoch)"
    and es: "vetted (settle_ok d c p router rel s1 s2) seen es" "list_all (\<lambda>e. \<not> mutex_event e) es"
      "list_all refused (filter submission es)" "length (filter submission es) \<le> 1"
  shows "runs (bindI (emit EvSleep) (\<lambda>_.
      bindE (callBig d c router ''payerNonce'' [VAddress (addr rel)]) (\<lambda>fresh.
      bindI (buildAndSend d c p router (addr rel) rel s1 s2 epoch fresh m) (\<lambda>(txHash, err).
        case err of Some e \<Rightarrow> failE e | None \<Rightarrow> retE (txHash, fresh)))))
    (\<lambda>y fs. attempts d c p router rel s1 s2 seen y (es @ fs))"
proof (rule runs_bindI, rule runs_emit, rule runs_bindE, rule runs_mono [OF callBig_runs], goal_cases)
  case (1 r qs)
  then have qs: "list_all query qs" by blast
  have v: "vetted (settle_ok d c p router rel s1 s2) seen (es @ EvSleep # qs)"
    "list_all (\<lambda>e. \<not> mutex_event e) (es @ EvSleep # qs)"
    "filter submission (es @ EvSleep # qs) = filter submission es"
    using es qs by (simp_all add: vetted_queries query_no_mutex query_no_submission)
  show ?case
  proof (cases r)
    case (Inl e)
    then show ?thesis using attempts_refused [OF v(1,2)] v(3) es(3,4) by simp
  next
    case (Inr fresh)
    let ?seen = "seen @ es @ EvSleep # qs"
    have "answered ?seen c router ''signerEpoch'' [] (VUint epoch)"
      "answered ?seen c router ''payerNonce'' [VAddress (addr rel)] (VUint fresh)" using ep 1 Inr by auto
    note a = buildAndSend_attempt [OF _ this]
    show ?thesis unfolding Inr sum.case
    proof (rule runs_bindI, rule runs_mono [OF buildAndSend_runs])
      fix x fs assume s: "sent_tx d c (\<lambda>stx qs. settles d c p router rel s1 s2 epoch fresh qs stx
          \<and> nonce_of (d_geth d) (p_ChainID p) rel m stx) x fs"
      obtain h err where x: "x = (h, err)" by fastforce
      have all: "vetted (settle_ok d c p router rel s1 s2) seen ((es @ EvSleep # qs) @ fs)"
        "list_all (\<lambda>e. \<not> mutex_event e) ((es @ EvSleep # qs) @ fs)" using v a(1,2) [OF s] by simp_all
      show "runs (case x of (txHash, err) \<Rightarrow> case err of Some e \<Rightarrow> failE e | None \<Rightarrow> retE (txHash, fresh))
         (\<lambda>y gs. attempts d c p router rel s1 s2 seen y (es @ [EvSleep] @ qs @ fs @ gs))"
      proof (cases err)
        case (Some e)
        then show ?thesis
          using attempts_refused [OF all] a(3) [OF s] es(3,4) v(3) by (simp add: x)
      next
        case None
        then obtain stx where "filter submission fs = [EvSendTransaction c stx None]" "h = signed_Hash (d_geth d) stx"
          "settles d c p router rel s1 s2 epoch fresh fs stx" using a(4) [OF s] by (auto simp: x)
        with attempts_accepted [OF all, of "filter submission es" stx fresh epoch fs] v(3) es(3,4) 1 Inr None
        show ?thesis by (auto simp: x)
      qed
    qed
  qed
qed

lemma sendSettlement_runs:
  assumes "answered seen c router ''signerEpoch'' [] (VUint epoch)"
    and "answered seen c router ''payerNonce'' [VAddress (addr rel)] (VUint nonce)"
  shows "runs (sendSettlement d c p router rel s1 s2 epoch nonce n) (attempts d c p router rel s1 s2 seen)"
  unfolding sendSettlement_def
proof (rule runs_bindI, rule runs_mono [OF buildAndSend_runs], goal_cases)
  case (1 x es)
  note a = buildAndSend_attempt [OF 1 assms]
  obtain h err where x: "x = (h, err)" by fastforce
  show ?case
  proof (cases err)
    case None
    then obtain stx where "filter submission es = [EvSendTransaction c stx None]" "h = signed_Hash (d_geth d) stx"
      "settles d c p router rel s1 s2 epoch nonce es stx" using a(4) by (auto simp: x)
    with attempts_accepted [OF a(1,2), of "[]" stx nonce epoch es] assms None show ?thesis by (auto simp: x)
  next
    case (Some e)
    with a(3) have r: "list_all refused (filter submission es)" "length (filter submission es) \<le> 1" by (simp_all add: x)
    show ?thesis
    proof (cases "isNonceErr err")
      case True
      then show ?thesis using retry_runs [OF assms(1) a(1,2) r] Some by (simp add: x)
    next
      case False
      then show ?thesis using attempts_refused [OF a(1,2) r(1)] r(2) Some by (simp add: x)
    qed
  qed
qed

text \<open>What a run of the critical section did: first allowance, then settlement.\<close>

definition settled ::
  "deps \<Rightarrow> client \<Rightarrow> Params \<Rightarrow> address \<Rightarrow> Account \<Rightarrow> Account \<Rightarrow> Account \<Rightarrow> go_error + SplitResult \<Rightarrow> trace \<Rightarrow> bool" where
  "settled d c p router rel s1 s2 r es \<longleftrightarrow>
     (\<exists>as ss ar. es = as @ ss \<and> vetted (approval_ok d c p router rel) [] as \<and> list_all (\<lambda>e. \<not> mutex_event e) as
        \<and> attempts d c p router rel s1 s2 as ar ss
        \<and> (case r of
             Inl _ \<Rightarrow> isl ar
           | Inr res \<Rightarrow> \<exists>nonce. ar = Inr (s_TxHash res, nonce) \<and> s_NonceUsed res = FormatInt nonce
               \<and> s_Payer res = address_Hex (d_geth d) (addr rel)
               \<and> (p_ERC20Token p \<noteq> 0 \<and> 0 < needed p \<and> bigOf (p_PermitDeadline p) = 0
                    \<longrightarrow> allowance_ok d c p router rel as)))"

lemma settled_early:
  assumes "vetted (approval_ok d c p router rel) [] es" "list_all (\<lambda>e. \<not> mutex_event e) es"
  shows "settled d c p router rel s1 s2 (Inl e) es"
proof -
  have "attempts d c p router rel s1 s2 es (Inl e) []" by (simp add: attempts_def)
  then show ?thesis using assms unfolding settled_def
    by (intro exI [of _ es] exI [of _ "[]"] exI [of _ "Inl e"]) simp
qed

lemma settled_failed: "list_all query es \<Longrightarrow> settled d c p router rel s1 s2 (Inl e) es"
  by (rule settled_early) (simp_all add: vetted_queries query_no_mutex)

lemma vetted_prepend:
  assumes "list_all query qs" "vetted (approval_ok d c p router rel) [] es"
  shows "vetted (approval_ok d c p router rel) [] (qs @ es)"
proof -
  have "vetted (approval_ok d c p router rel) qs es"
    by (rule vetted_mono [OF _ assms(2)]) (auto simp: approval_ok_def)
  then show ?thesis using assms(1) by (simp add: vetted_queries)
qed

text \<open>A query that fails ends the section; one that succeeds leaves its answer in the trace.\<close>

lemma query_then:
  fixes m :: "'x weio"
  assumes "list_all query es" "runs m (\<lambda>r qs. list_all query qs \<and> (case r of Inl _ \<Rightarrow> True | Inr x \<Rightarrow> R x qs))"
    and "\<And>x qs. list_all query qs \<Longrightarrow> R x qs \<Longrightarrow> runs (f x) (\<lambda>y fs. settled d c p router rel s1 s2 y ((es @ qs) @ fs))"
  shows "runs (bindE m f) (\<lambda>y fs. settled d c p router rel s1 s2 y (es @ fs))"
proof (rule runs_bindE, rule runs_mono [OF assms(2)])
  fix r :: "go_error + 'x" and qs assume a: "list_all query qs \<and> (case r of Inl _ \<Rightarrow> True | Inr x \<Rightarrow> R x qs)"
  show "case r of Inl e \<Rightarrow> settled d c p router rel s1 s2 (Inl e) (es @ qs)
      | Inr x \<Rightarrow> runs (f x) (\<lambda>y fs. settled d c p router rel s1 s2 y (es @ qs @ fs))"
  proof (cases r)
    case (Inl e)
    then show ?thesis using a assms(1) by (simp add: settled_failed)
  next
    case (Inr x)
    then show ?thesis using a assms(3) [of qs x] by simp
  qed
qed

definition needsAllowance :: "Params \<Rightarrow> bool" where
  "needsAllowance p \<longleftrightarrow> p_ERC20Token p \<noteq> 0 \<and> 0 < needed p \<and> bigOf (p_PermitDeadline p) = 0"

lemma allowance_stage_runs:
  "runs (if needsAllowance p
      then ensureAllowance d c (p_ChainID p) rel (p_ERC20Token p) router (addr rel) (needed p) n else retE ([], n))
     (\<lambda>r es. vetted (approval_ok d c p router rel) [] es \<and> list_all (\<lambda>e. \<not> mutex_event e) es
       \<and> (isl r \<or> (needsAllowance p \<longrightarrow> allowance_ok d c p router rel es)))"
  using ensureAllowance_runs [of d c p rel router n]
  by (auto simp: allowed_def intro: runs_mono)

lemma settled_result:
  assumes "vetted (approval_ok d c p router rel) [] as" "list_all (\<lambda>e. \<not> mutex_event e) as"
    and "attempts d c p router rel s1 s2 as ar ss" "needsAllowance p \<longrightarrow> allowance_ok d c p router rel as"
  shows "settled d c p router rel s1 s2 (case ar of Inl e \<Rightarrow> Inl e | Inr (h, nonce) \<Rightarrow>
      Inr \<lparr>s_TxHash = h, s_From = address_Hex (d_geth d) (addr rel), s_Payer = address_Hex (d_geth d) (addr rel),
          s_RouterAddress = address_Hex (d_geth d) router, s_NonceUsed = FormatInt nonce, s_ApproveTxHash = ah\<rparr>) (as @ ss)"
  unfolding settled_def
  by (intro exI [of _ as] exI [of _ ss] exI [of _ ar])
     (use assms in \<open>auto simp: needsAllowance_def split: sum.split prod.split\<close>)

lemma settlement_stage:
  assumes q: "list_all query es"
    and ans: "answered es c router ''signerEpoch'' [] (VUint epoch)"
      "answered es c router ''payerNonce'' [VAddress (addr rel)] (VUint nonce)"
  shows "runs (bindE (if needsAllowance p
      then ensureAllowance d c (p_ChainID p) rel (p_ERC20Token p) router (addr rel) (needed p) n else retE ([], n))
     (\<lambda>(ah, n). bindE (sendSettlement d c p router rel s1 s2 epoch nonce n) (\<lambda>(txHash, nonceUsed).
        retE \<lparr>s_TxHash = txHash, s_From = address_Hex (d_geth d) (addr rel), s_Payer = address_Hex (d_geth d) (addr rel),
          s_RouterAddress = address_Hex (d_geth d) router, s_NonceUsed = FormatInt nonceUsed, s_ApproveTxHash = ah\<rparr>)))
     (\<lambda>y fs. settled d c p router rel s1 s2 y (es @ fs))"
proof (rule runs_bindE, rule runs_mono [OF allowance_stage_runs], goal_cases)
  case (1 r as)
  then have a: "vetted (approval_ok d c p router rel) [] (es @ as)" "list_all (\<lambda>e. \<not> mutex_event e) (es @ as)"
    using vetted_prepend [OF q, of d c p router rel as] query_no_mutex [OF q] by simp_all
  show ?case
  proof (cases r)
    case (Inl e)
    then show ?thesis using settled_early [OF a] by simp
  next
    case (Inr x)
    obtain ah m where x: "x = (ah, m)" by fastforce
    have ok: "needsAllowance p \<longrightarrow> allowance_ok d c p router rel (es @ as)"
      using 1 Inr by (auto elim: allowance_ok_mono)
    have "runs (sendSettlement d c p router rel s1 s2 epoch nonce m) (attempts d c p router rel s1 s2 (es @ as))"
      by (rule sendSettlement_runs) (use ans in auto)
    then have "runs (bindE (sendSettlement d c p router rel s1 s2 epoch nonce m) (\<lambda>(txHash, nonceUsed).
        retE \<lparr>s_TxHash = txHash, s_From = address_Hex (d_geth d) (addr rel), s_Payer = address_Hex (d_geth d) (addr rel),
          s_RouterAddress = address_Hex (d_geth d) router, s_NonceUsed = FormatInt nonceUsed, s_ApproveTxHash = ah\<rparr>))
        (\<lambda>y fs. settled d c p router rel s1 s2 y ((es @ as) @ fs))"
      by (intro runs_bindE, elim runs_mono)
         (use settled_result [OF a _ ok, of s1 s2 _ _ ah] in \<open>fastforce split: sum.splits prod.splits\<close>)
    then show ?thesis by (simp add: Inr x)
  qed
qed

lemma splitSection_runs: "runs (splitSection d c p router rel s1 s2) (settled d c p router rel s1 s2)"
proof -
  have "runs (splitSection d c p router rel s1 s2) (\<lambda>y fs. settled d c p router rel s1 s2 y ([] @ fs))"
    unfolding splitSection_def Let_def needsAllowance_def [symmetric]
    apply (rule query_then [OF _ callBig_runs], simp)
    apply (rule query_then [OF _ callBig_runs], simp)
    apply (rule query_then [where R = "\<lambda>_ _. True"], simp)
     apply (auto intro: runs_extcall split: sum.split)[1]
    apply (rule settlement_stage, auto)
    done
  then show ?thesis by simp
qed

declare split_paired_Ex [simp] split_paired_All [simp]

end
