(* ===== verification/Split_Outcome.thy ===== *)
theory Split_Outcome
  imports Split_Section
begin

text \<open>
  The settlement as a whole, \<open>Execute\<close> with the lookups before the nonce lock and the lock
  itself, the answer of its handler, and a settlement run on a concrete node.
\<close>

declare split_paired_Ex [simp del] split_paired_All [simp del]

section \<open>The settlement as a whole\<close>

lemma closure_run:
  "closure m w = ((res, err), w') \<Longrightarrow> m w = ((case err of Some e \<Rightarrow> Inl e | None \<Rightarrow> Inr res), w')"
  by (auto simp: closure_def io_simps split: prod.splits sum.splits)

lemma relayer_appends: "appends key_event (relayer d k)"
  unfolding relayer_def by (simp add: ServerKey_appends)

text \<open>The amounts \<open>Execute\<close> accepts.\<close>

definition amounts_ok :: "Params \<Rightarrow> bool" where
  "amounts_ok p \<longleftrightarrow> (p_ERC20Token p = 0 \<longrightarrow> p_ERC20Amount0 p = 0 \<and> p_ERC20Amount1 p = 0)
     \<and> 0 < p_NativeAmount0 p + p_NativeAmount1 p + needed p"

text \<open>
  \<open>settlement_by d p s1 s2 r es\<close>: the events of a run that got into the critical section with the
  server keys \<open>s1\<close> and \<open>s2\<close>, between the lock and the unlock of the payer's nonce lock, and before it
  only key and connection events.
\<close>

definition settlement_by :: "deps \<Rightarrow> Params \<Rightarrow> Account \<Rightarrow> Account \<Rightarrow> go_error + SplitResult \<Rightarrow> trace \<Rightarrow> bool" where
  "settlement_by d p s1 s2 r es \<longleftrightarrow>
     (\<exists>routerStr p' c rel pre noise body post k.
        EOFSProxy (registry d) (p_ChainID p) = Inr routerStr \<and> amounts_ok p \<and> validatePermit p = Inr p'
        \<and> rel = (if EqualFold (TrimSpace (p_PayerKey p)) ''server_key2'' then s2 else s1)
        \<and> k = NonceLockKey (p_ChainID p) (address_Hex (d_geth d) (addr rel))
        \<and> es = pre @ EvLock k # noise @ body @ post @ [EvUnlock k]
        \<and> list_all (\<lambda>e. \<not> mutex_event e \<and> \<not> submission e) pre \<and> quiet noise \<and> quiet post
        \<and> settled d c p' (common_HexToAddress (d_geth d) routerStr) rel s1 s2 r body)"

definition settlement :: "deps \<Rightarrow> Params \<Rightarrow> go_error + SplitResult \<Rightarrow> trace \<Rightarrow> bool" where
  "settlement d p r es \<longleftrightarrow> (\<exists>s1 s2. settlement_by d p s1 s2 r es)"

lemma settlementI:
  assumes "EOFSProxy (registry d) (p_ChainID p) = Inr routerStr" "amounts_ok p" "validatePermit p = Inr p'"
    and "rel = (if EqualFold (TrimSpace (p_PayerKey p)) ''server_key2'' then s2 else s1)"
    and "k = NonceLockKey (p_ChainID p) (address_Hex (d_geth d) (addr rel))"
    and "es = pre @ EvLock k # noise @ body @ post @ [EvUnlock k]"
    and "list_all (\<lambda>e. \<not> mutex_event e \<and> \<not> submission e) pre" "quiet noise" "quiet post"
    and "settled d c p' (common_HexToAddress (d_geth d) routerStr) rel s1 s2 r body"
  shows "settlement_by d p s1 s2 r es"
  unfolding settlement_by_def using assms by blast

lemma validatePermit_frame:
  "validatePermit p = Inr p' \<Longrightarrow> p_ChainID p' = p_ChainID p \<and> p_ERC20Token p' = p_ERC20Token p
     \<and> needed p' = needed p"
  by (auto simp: validatePermit_def Let_def split: if_splits)

lemma locked_settlement:
  assumes l: "WithNonceLock d k emptyResult (closure (splitSection d c p router rel s1 s2)) w = ((res, err), w')"
  shows "(err \<noteq> None \<and> filter submission (new_events w w') = [] \<or>
    (\<exists>noise body post. new_events w w' = EvLock k # noise @ body @ post @ [EvUnlock k] \<and> quiet noise \<and> quiet post
       \<and> settled d c p router rel s1 s2 (case err of Some e \<Rightarrow> Inl e | None \<Rightarrow> Inr res) body))
    \<and> server1 w' = server1 w \<and> server2 w' = server2 w"
  using wl.lock_runs [OF l]
proof (elim disjE exE conjE)
  fix pre post w2 assume q: "quiet pre" "quiet post"
    and f: "closure (splitSection d c p router rel s1 s2) (w\<lparr>trace := trace w @ EvLock k # pre\<rparr>) = ((res, err), w2)"
    and w': "w' = w2\<lparr>trace := trace w2 @ post @ [EvUnlock k]\<rparr>"
  obtain body where body: "w2 = w\<lparr>trace := trace w @ EvLock k # pre @ body\<rparr>"
    "settled d c p router rel s1 s2 (case err of Some e \<Rightarrow> Inl e | None \<Rightarrow> Inr res) body"
    by (rule runsE [OF splitSection_runs closure_run [OF f]]) auto
  have "new_events w w' = EvLock k # pre @ body @ post @ [EvUnlock k]"
    unfolding w' body(1) by (simp add: new_events_def)
  moreover have "server1 w' = server1 w \<and> server2 w' = server2 w" unfolding w' body(1) by simp
  ultimately show ?thesis using q body(2) by blast
next
  fix es e assume "quiet es" "(res, err) = (emptyResult, Some e)" "w' = w\<lparr>trace := trace w @ EvLock k # es @ [EvUnlock k]\<rparr>"
  then show ?thesis
    by (auto simp: new_events_def filter_empty_conv list_all_iff dest: lock_noise_plain)
qed

lemma locked_trace:
  assumes "WithNonceLock d k emptyResult (closure (splitSection d c p router rel s1 s2)) w = (x, w')"
  shows "\<exists>es. trace w' = trace w @ es"
proof -
  have "appends (\<lambda>_. True) (closure (splitSection d c p router rel s1 s2))"
  proof (rule appendsI)
    fix w y w' assume c: "closure (splitSection d c p router rel s1 s2) w = (y, w')"
    obtain res err where y: "y = (res, err)" by fastforce
    show "\<exists>es. trace w' = trace w @ es \<and> list_all (\<lambda>_. True) es"
      by (rule runsE [OF splitSection_runs closure_run [OF c [unfolded y]]]) (simp add: list_all_iff)
  qed
  then have "appends (\<lambda>_. True) (WithNonceLock d k emptyResult (closure (splitSection d c p router rel s1 s2)))"
    by (rule wl.withLock_appends) simp_all
  from appendsE [OF this assms] show ?thesis by blast
qed

text \<open>What \<open>Execute\<close> does before it takes the lock, on amounts that passed.\<close>

definition prepare :: "deps \<Rightarrow> Params \<Rightarrow> (Account \<times> Account \<times> Account \<times> Params \<times> client) weio" where
  "prepare d p =
     bindE (relayer d (p_PayerKey p)) (\<lambda>rel. bindE (ServerKey1 d) (\<lambda>s1. bindE (ServerKey2 d) (\<lambda>s2.
     bindE (liftE (validatePermit p)) (\<lambda>p. bindE (Client d (p_ChainID p)) (\<lambda>c. retE (rel, s1, s2, p, c))))))"

lemma prepare_appends: "appends (\<lambda>e. \<not> mutex_event e \<and> \<not> submission e) (prepare d p)"
proof -
  have k: "appends (\<lambda>e. \<not> mutex_event e \<and> \<not> submission e) m" if "appends key_event m" for m :: "Account weio"
    by (rule appends_mono [OF that]) (auto dest: key_event_plain)
  have c: "appends (\<lambda>e. \<not> mutex_event e \<and> \<not> submission e) (Client d ch)" for ch
    by (rule appendsI) (auto elim!: Client_trace dest: dial_plain)
  show ?thesis unfolding prepare_def
    by (intro appends_bindE k relayer_appends ServerKey_appends c appends_basic)
qed

lemma Client_keeps_keys: "Client d ch w = (r, w') \<Longrightarrow> server1 w' = server1 w \<and> server2 w' = server2 w"
  using Client_frame by metis

text \<open>The keys are those of the manager, and the payer is one of them.\<close>

lemma prepare_success:
  assumes "prepare d p w = (Inr (rel, s1, s2, p', c), w')"
  shows "validatePermit p = Inr p' \<and> rel = (if EqualFold (TrimSpace (p_PayerKey p)) ''server_key2'' then s2 else s1)"
    and "server1 w' = Some s1 \<and> server2 w' = Some s2"
proof -
  from assms obtain w1 w2 w3 where r: "relayer d (p_PayerKey p) w = (Inr rel, w1)" "ServerKey1 d w1 = (Inr s1, w2)"
    "ServerKey2 d w2 = (Inr s2, w3)" "validatePermit p = Inr p'" "Client d (p_ChainID p') w3 = (Inr c, w')"
    by (auto simp: prepare_def bindE_Inr_iff liftE_def)
  show "server1 w' = Some s1 \<and> server2 w' = Some s2"
    using Client_keeps_keys [OF r(5)] ServerKey2_keeps1 [OF r(3)] sk1.filled [OF r(2)] sk2.filled [OF r(3)] by simp
  show "validatePermit p = Inr p' \<and> rel = (if EqualFold (TrimSpace (p_PayerKey p)) ''server_key2'' then s2 else s1)"
  proof (cases "EqualFold (TrimSpace (p_PayerKey p)) ''server_key2''")
    case True
    with r(1) have "ServerKey2 d w = (Inr rel, w1)" by (simp add: relayer_def)
    from sk2.load_agrees [OF this, of w2] ServerKey1_keeps2 [OF r(2)] r(3) have "rel = s2" by simp
    with True r(4) show ?thesis by simp
  next
    case False
    with r(1) have "ServerKey1 d w = (Inr rel, w1)" by (simp add: relayer_def)
    from sk1.load_again [OF this] r(2) have "rel = s1" by simp
    with False r(4) show ?thesis by simp
  qed
qed

lemma Execute_shape:
  "Execute d p = bindE (liftE (EOFSProxy (registry d) (p_ChainID p))) (\<lambda>routerStr.
     if \<not> common_IsHexAddress (d_geth d) routerStr then failE (errorsNew ''invalid EOFS proxy address'')
     else if p_ERC20Token p = 0 \<and> (p_ERC20Amount0 p \<noteq> 0 \<or> p_ERC20Amount1 p \<noteq> 0)
     then failE (errorsNew ''erc20Token is zero address: erc20 amounts must be 0'')
     else if p_NativeAmount0 p + p_NativeAmount1 p + needed p \<le> 0 then failE (errorsNew ''sum of amounts must be positive'')
     else bindE (prepare d p) (\<lambda>(rel, s1, s2, p, c).
       bindI (WithNonceLock d (NonceLockKey (p_ChainID p) (address_Hex (d_geth d) (addr rel))) emptyResult
                (closure (splitSection d c p (common_HexToAddress (d_geth d) routerStr) rel s1 s2)))
         (\<lambda>(res, err). case err of Some e \<Rightarrow> failE e | None \<Rightarrow> retE res)))"
  unfolding Execute_def prepare_def bindE_assoc bindE_retE prod.case Let_def ..

text \<open>The locked part after the lookups \<open>pre\<close>.\<close>

lemma prepared_settlement:
  assumes l: "WithNonceLock d (NonceLockKey (p_ChainID p') (address_Hex (d_geth d) (addr rel))) emptyResult
        (closure (splitSection d c p' (common_HexToAddress (d_geth d) rs) rel s1 s2)) w1 = ((res, err), w')"
    and rs: "EOFSProxy (registry d) (p_ChainID p) = Inr rs" and am: "amounts_ok p"
    and pq: "prepare d p w = (Inr (rel, s1, s2, p', c), w1)"
    and pre: "trace w1 = trace w @ pre" "list_all (\<lambda>e. \<not> mutex_event e \<and> \<not> submission e) pre"
    and r: "r = (case err of Some e \<Rightarrow> Inl e | None \<Rightarrow> Inr res)"
  shows "isl r \<and> filter submission (new_events w w') = [] \<or>
    server1 w' = Some s1 \<and> server2 w' = Some s2 \<and> settlement_by d p s1 s2 r (new_events w w')"
proof -
  let ?k = "NonceLockKey (p_ChainID p') (address_Hex (d_geth d) (addr rel))"
  note ok = prepare_success(1) [OF pq] and keys = prepare_success(2) [OF pq] conjunct2 [OF locked_settlement [OF l]]
  have "\<exists>es. trace w' = trace w1 @ es" using locked_trace l by blast
  then have ne: "new_events w w' = pre @ new_events w1 w'" using pre(1) by (auto simp: new_events_def)
  have nopre: "filter submission pre = []" using pre(2) by (auto simp: filter_empty_conv list_all_iff)
  from conjunct1 [OF locked_settlement [OF l]] show ?thesis
  proof (elim disjE exE conjE)
    assume "err \<noteq> None" "filter submission (new_events w1 w') = []"
    with ne nopre r show ?thesis by (auto split: option.splits)
  next
    fix noise body post assume n: "new_events w1 w' = EvLock ?k # noise @ body @ post @ [EvUnlock ?k]" "quiet noise" "quiet post"
      and st: "settled d c p' (common_HexToAddress (d_geth d) rs) rel s1 s2 (case err of Some e \<Rightarrow> Inl e | None \<Rightarrow> Inr res) body"
    have "p_ChainID p' = p_ChainID p" using ok validatePermit_frame by blast
    then have k: "?k = NonceLockKey (p_ChainID p) (address_Hex (d_geth d) (addr rel))" by simp
    have es: "new_events w w' = pre @ EvLock ?k # noise @ body @ post @ [EvUnlock ?k]" using ne n(1) by simp
    from settlementI [OF rs am conjunct1 [OF ok] conjunct2 [OF ok] k es pre(2) n(2,3) st] r keys show ?thesis by simp
  qed
qed

lemma Execute_keys:
  assumes "Execute d p w = (r, w')"
  shows "isl r \<and> filter submission (new_events w w') = [] \<or>
    (\<exists>s1 s2. server1 w' = Some s1 \<and> server2 w' = Some s2 \<and> settlement_by d p s1 s2 r (new_events w w'))"
proof (cases "w' = w \<and> isl r")
  case True
  then show ?thesis by (simp add: new_events_def)
next
  case False
  with assms obtain rs where rs: "EOFSProxy (registry d) (p_ChainID p) = Inr rs" and am: "amounts_ok p"
    and e: "bindE (prepare d p) (\<lambda>(rel, s1, s2, p, c).
       bindI (WithNonceLock d (NonceLockKey (p_ChainID p) (address_Hex (d_geth d) (addr rel))) emptyResult
                (closure (splitSection d c p (common_HexToAddress (d_geth d) rs) rel s1 s2)))
         (\<lambda>(res, err). case err of Some e \<Rightarrow> failE e | None \<Rightarrow> retE res)) w = (r, w')"
    by (auto simp: Execute_shape bindE_def liftE_def amounts_ok_def split: sum.splits if_splits)
  obtain q w1 where pq: "prepare d p w = (q, w1)" by fastforce
  from appendsE [OF prepare_appends pq] obtain pre where pre: "trace w1 = trace w @ pre"
    "list_all (\<lambda>e. \<not> mutex_event e \<and> \<not> submission e) pre" .
  show ?thesis
  proof (cases q)
    case (Inl err)
    have "filter submission pre = []" using pre(2) by (auto simp: filter_empty_conv list_all_iff)
    with e pq pre(1) Inl show ?thesis by (auto simp: bindE_def new_events_append)
  next
    case (Inr x)
    obtain rel s1 s2 p' c where x: "x = (rel, s1, s2, p', c)" by (metis surj_pair)
    obtain res err w2 where l: "WithNonceLock d (NonceLockKey (p_ChainID p') (address_Hex (d_geth d) (addr rel))) emptyResult
        (closure (splitSection d c p' (common_HexToAddress (d_geth d) rs) rel s1 s2)) w1 = ((res, err), w2)"
      by (metis surj_pair)
    with e pq Inr x have r: "r = (case err of Some e \<Rightarrow> Inl e | None \<Rightarrow> Inr res)" "w2 = w'"
      by (auto simp: bindE_def bindI_def split: option.splits)
    from prepared_settlement [OF l [unfolded r(2)] rs am pq [unfolded Inr x] pre r(1)] show ?thesis by blast
  qed
qed

lemma Execute_run:
  assumes "Execute d p w = (r, w')"
  shows "isl r \<and> filter submission (new_events w w') = [] \<or> settlement d p r (new_events w w')"
  using Execute_keys [OF assms] unfolding settlement_def by blast

lemma vetted_at: "vetted ok seen (b @ e # a) \<Longrightarrow> submission e \<Longrightarrow> ok (seen @ b) e"
  by simp

lemma guarded_at: "guarded k h (b @ e # a) \<Longrightarrow> submission e \<Longrightarrow> held k h b"
  by (cases e) (auto simp: guarded_append)

lemma vetted_none: "list_all (\<lambda>e. \<not> submission e) es \<Longrightarrow> vetted ok seen es"
  by (induction es arbitrary: seen) auto

lemma vetted_weaken:
  assumes "\<And>seen e. ok seen e \<Longrightarrow> ok' seen e"
  shows "vetted ok seen es \<Longrightarrow> vetted ok' seen es"
  by (induction es arbitrary: seen) (simp_all add: assms)

text \<open>The submissions of a settlement: approvals and settlements, each after what it relies on.\<close>

definition split_ok ::
  "deps \<Rightarrow> client \<Rightarrow> Params \<Rightarrow> address \<Rightarrow> Account \<Rightarrow> Account \<Rightarrow> Account \<Rightarrow> trace \<Rightarrow> event \<Rightarrow> bool" where
  "split_ok d c p router rel s1 s2 seen e \<longleftrightarrow>
     approval_ok d c p router rel seen e \<or> settle_ok d c p router rel s1 s2 seen e"

lemma split_ok_mono:
  assumes "split_ok d c p router rel s1 s2 seen e" "set seen \<subseteq> set seen'"
  shows "split_ok d c p router rel s1 s2 seen' e"
proof -
  have "approval_ok d c p router rel seen e \<Longrightarrow> approval_ok d c p router rel seen' e"
    unfolding approval_ok_def using assms(2) by blast
  moreover have "settle_ok d c p router rel s1 s2 seen' e" if "settle_ok d c p router rel s1 s2 seen e"
  proof -
    from that obtain stx r epoch nonce where "e = EvSendTransaction c stx r"
      "answered seen c router ''signerEpoch'' [] (VUint epoch)"
      "answered seen c router ''payerNonce'' [VAddress (addr rel)] (VUint nonce)"
      "settles d c p router rel s1 s2 epoch nonce seen stx" unfolding settle_ok_def by blast
    with settles_mono [OF this(4) assms(2)] assms(2) show ?thesis unfolding settle_ok_def by blast
  qed
  ultimately show ?thesis using assms(1) unfolding split_ok_def by blast
qed

lemma settled_vetted:
  assumes "settled d c p router rel s1 s2 r es"
  shows "vetted (split_ok d c p router rel s1 s2) [] es" "list_all (\<lambda>e. \<not> mutex_event e) es"
proof -
  from assms obtain as ss ar where es: "es = as @ ss" and a: "vetted (approval_ok d c p router rel) [] as"
    "list_all (\<lambda>e. \<not> mutex_event e) as" and at: "attempts d c p router rel s1 s2 as ar ss"
    unfolding settled_def by blast
  from at have b: "vetted (settle_ok d c p router rel s1 s2) as ss" "list_all (\<lambda>e. \<not> mutex_event e) ss"
    by (simp_all add: attempts_def)
  have "vetted (split_ok d c p router rel s1 s2) [] as" "vetted (split_ok d c p router rel s1 s2) as ss"
    by (rule vetted_weaken [OF _ a(1)] vetted_weaken [OF _ b(1)], simp add: split_ok_def)+
  with a b es show "vetted (split_ok d c p router rel s1 s2) [] es" "list_all (\<lambda>e. \<not> mutex_event e) es" by simp_all
qed

lemma settlement_vetted:
  assumes "settlement d p r es"
  shows "\<exists>routerStr p' c rel s1 s2. EOFSProxy (registry d) (p_ChainID p) = Inr routerStr
    \<and> amounts_ok p \<and> validatePermit p = Inr p'
    \<and> rel = (if EqualFold (TrimSpace (p_PayerKey p)) ''server_key2'' then s2 else s1)
    \<and> vetted (split_ok d c p' (common_HexToAddress (d_geth d) routerStr) rel s1 s2) [] es
    \<and> guarded (NonceLockKey (p_ChainID p) (address_Hex (d_geth d) (addr rel))) False es"
proof -
  from assms obtain routerStr p' c rel s1 s2 pre noise body post k where
    a: "EOFSProxy (registry d) (p_ChainID p) = Inr routerStr" "amounts_ok p" "validatePermit p = Inr p'"
      "rel = (if EqualFold (TrimSpace (p_PayerKey p)) ''server_key2'' then s2 else s1)"
    and k: "k = NonceLockKey (p_ChainID p) (address_Hex (d_geth d) (addr rel))"
    and es: "es = pre @ EvLock k # noise @ body @ post @ [EvUnlock k]"
    and q: "list_all (\<lambda>e. \<not> mutex_event e \<and> \<not> submission e) pre" "quiet noise" "quiet post"
    and st: "settled d c p' (common_HexToAddress (d_geth d) routerStr) rel s1 s2 r body"
    unfolding settlement_def settlement_by_def by blast
  let ?ok = "split_ok d c p' (common_HexToAddress (d_geth d) routerStr) rel s1 s2"
  have "vetted ?ok seen pre" for seen by (rule vetted_none) (use q(1) in \<open>auto simp: list_all_iff\<close>)
  moreover have "vetted ?ok seen noise" "vetted ?ok seen post" for seen
    using vetted_none [OF quiet_plain(2)] q(2,3) by blast+
  moreover have "vetted ?ok seen body" for seen
    by (rule vetted_mono [OF split_ok_mono settled_vetted(1) [OF st]]) simp_all
  ultimately have "vetted ?ok [] es" by (simp add: es)
  moreover have "list_all (\<lambda>e. \<not> mutex_event e) (noise @ body @ post)"
    using quiet_plain(1) q settled_vetted(2) [OF st] by simp
  then have "guarded k False es" using guarded_region [OF q(1), of "noise @ body @ post" k] by (simp add: es)
  ultimately show ?thesis using a k by blast
qed

text \<open>
  C6: every transaction a settlement broadcasts is justified by what was read from the chain
  before it: it is made while the payer's nonce lock is held, on amounts and a permit that
  passed the checks, and it is either an approval of the router after an allowance that does
  not suffice, or the call of \<open>executeWithSignatures\<close> on the configured router with the
  signatures of both server keys over a digest that the router itself returned for exactly
  these parameters, the payer's current nonce and the current signer epoch.
\<close>

theorem split_submission_justified:
  assumes "Execute d p w = (r, w')" "new_events w w' = before @ e # after" "submission e"
  shows "\<exists>routerStr p' c rel s1 s2. EOFSProxy (registry d) (p_ChainID p) = Inr routerStr
    \<and> amounts_ok p \<and> validatePermit p = Inr p'
    \<and> rel = (if EqualFold (TrimSpace (p_PayerKey p)) ''server_key2'' then s2 else s1)
    \<and> held (NonceLockKey (p_ChainID p) (address_Hex (d_geth d) (addr rel))) False before
    \<and> (approval_ok d c p' (common_HexToAddress (d_geth d) routerStr) rel before e
       \<or> settle_ok d c p' (common_HexToAddress (d_geth d) routerStr) rel s1 s2 before e)"
proof -
  have "filter submission (new_events w w') \<noteq> []" using assms(2,3) by simp
  with Execute_run [OF assms(1)] have "settlement d p r (new_events w w')" by blast
  from settlement_vetted [OF this] obtain routerStr p' c rel s1 s2 where
    a: "EOFSProxy (registry d) (p_ChainID p) = Inr routerStr" "amounts_ok p" "validatePermit p = Inr p'"
      "rel = (if EqualFold (TrimSpace (p_PayerKey p)) ''server_key2'' then s2 else s1)"
    and v: "vetted (split_ok d c p' (common_HexToAddress (d_geth d) routerStr) rel s1 s2) [] (before @ e # after)"
    and g: "guarded (NonceLockKey (p_ChainID p) (address_Hex (d_geth d) (addr rel))) False (before @ e # after)"
    unfolding assms(2) by blast
  from vetted_at [OF v assms(3)] guarded_at [OF g assms(3)] a show ?thesis
    unfolding split_ok_def append_Nil by blast
qed

text \<open>
  The verdict of a settlement: \<open>es\<close> are all its events and \<open>during\<close> those from the first attempt on.
\<close>

definition verdict ::
  "deps \<Rightarrow> client \<Rightarrow> Params \<Rightarrow> address \<Rightarrow> Account \<Rightarrow> Account \<Rightarrow> Account \<Rightarrow> go_error + SplitResult \<Rightarrow> trace \<Rightarrow> trace \<Rightarrow> bool" where
  "verdict d c p router rel s1 s2 r before during \<longleftrightarrow>
     (case r of
        Inl _ \<Rightarrow> list_all refused (filter submission during)
      | Inr res \<Rightarrow> \<exists>rs stx epoch nonce. filter submission during = rs @ [EvSendTransaction c stx None]
           \<and> list_all refused rs \<and> length rs \<le> 1 \<and> s_TxHash res = signed_Hash (d_geth d) stx
           \<and> s_NonceUsed res = FormatInt nonce
           \<and> answered (before @ during) c router ''payerNonce'' [VAddress (addr rel)] (VUint nonce)
           \<and> settles d c p router rel s1 s2 epoch nonce (before @ during) stx
           \<and> (needsAllowance p \<longrightarrow> allowance_ok d c p router rel before))"

lemma settled_verdict:
  assumes st: "settled d c p router rel s1 s2 r body"
    and q: "list_all (\<lambda>e. \<not> submission e) pre" "list_all (\<lambda>e. \<not> submission e) post"
  shows "\<exists>before during. pre @ body @ post = before @ during
    \<and> list_all (\<lambda>e. submission e \<longrightarrow> (\<exists>seen. approval_ok d c p router rel seen e)) before
    \<and> verdict d c p router rel s1 s2 r before during"
proof -
  from st obtain as ss ar where body: "body = as @ ss" and v: "vetted (approval_ok d c p router rel) [] as"
    and at: "attempts d c p router rel s1 s2 as ar ss"
    and r: "case r of Inl _ \<Rightarrow> isl ar | Inr res \<Rightarrow> \<exists>nonce. ar = Inr (s_TxHash res, nonce) \<and> s_NonceUsed res = FormatInt nonce
        \<and> s_Payer res = address_Hex (d_geth d) (addr rel)
        \<and> (needsAllowance p \<longrightarrow> allowance_ok d c p router rel as)"
    unfolding settled_def needsAllowance_def by blast
  have all: "vetted ok seen es \<Longrightarrow> list_all (\<lambda>e. submission e \<longrightarrow> (\<exists>seen. ok seen e)) es" for ok seen es
    by (induction es arbitrary: seen) auto
  have f: "filter submission (ss @ post) = filter submission ss" using q(2) by (simp add: list_all_iff)
  have "verdict d c p router rel s1 s2 r (pre @ as) (ss @ post)"
  proof (cases r)
    case (Inl e)
    with r at f show ?thesis by (auto simp: verdict_def attempts_def isl_def)
  next
    case (Inr res)
    with r obtain nonce where n: "ar = Inr (s_TxHash res, nonce)" "s_NonceUsed res = FormatInt nonce"
      "needsAllowance p \<longrightarrow> allowance_ok d c p router rel as" by auto
    from at [unfolded n(1) attempts_def] obtain rs stx epoch where a: "filter submission ss = rs @ [EvSendTransaction c stx None]"
      "list_all refused rs" "length rs \<le> 1" "s_TxHash res = signed_Hash (d_geth d) stx"
      "answered (as @ ss) c router ''payerNonce'' [VAddress (addr rel)] (VUint nonce)"
      "settles d c p router rel s1 s2 epoch nonce (as @ ss) stx" by auto
    have "settles d c p router rel s1 s2 epoch nonce ((pre @ as) @ ss @ post) stx"
      by (rule settles_mono [OF a(6)]) auto
    moreover have "needsAllowance p \<longrightarrow> allowance_ok d c p router rel (pre @ as)"
      using n(3) by (auto elim: allowance_ok_mono)
    ultimately show ?thesis unfolding verdict_def Inr sum.case
      by (intro exI [of _ rs] exI [of _ stx] exI [of _ epoch] exI [of _ nonce]) (use a n(2) f in auto)
  qed
  moreover have "list_all (\<lambda>e. submission e \<longrightarrow> (\<exists>seen. approval_ok d c p router rel seen e)) (pre @ as)"
    using q(1) all [OF v] by (auto simp: list_all_iff)
  ultimately show ?thesis unfolding body by (intro exI [of _ "pre @ as"] exI [of _ "ss @ post"]) simp
qed

text \<open>Keys that are loaded stay.\<close>

lemma Execute_keeps_keys:
  assumes "Execute d p w = (Inr res, w')" "server1 w = Some a" "server2 w = Some b"
  shows "server1 w' = Some a \<and> server2 w' = Some b"
proof -
  have k: "ServerKey1 d w = (Inr a, w)" "ServerKey2 d w = (Inr b, w)" using assms(2,3) by (simp_all add: ServerKey1_def ServerKey2_def)
  then have "relayer d (p_PayerKey p) w = (Inr (if EqualFold (TrimSpace (p_PayerKey p)) ''server_key2'' then b else a), w)"
    by (simp add: relayer_def)
  with assms(1) k obtain rs p' c rel w1 err where "Client d (p_ChainID p') w = (Inr c, w1)"
    "WithNonceLock d (NonceLockKey (p_ChainID p') (address_Hex (d_geth d) (addr rel))) emptyResult
        (closure (splitSection d c p' (common_HexToAddress (d_geth d) rs) rel a b)) w1 = ((res, err), w')"
    by (auto simp: Execute_shape prepare_def bindE_def bindI_def liftE_def failE_def retE_def
        split: sum.splits if_splits prod.splits option.splits)
  with locked_settlement Client_keeps_keys assms(2,3) show ?thesis by metis
qed


section \<open>A concrete settlement\<close>

text \<open>
  A chain on which everything is accepted; with \<open>late\<close>, the router's digest can only be read
  after the pause that precedes the second attempt.
\<close>

definition split_ext :: "bool \<Rightarrow> ext" where
  "split_ext late = (mining_ext 1)\<lparr>x_Call := \<lambda>t c a m args.
     if m = ''hashTypedDataPayerSplit''
     then if late \<and> EvSleep \<notin> set t then Inl (errorsNew ''nonce unavailable'') else Inr (VBytes32 [])
     else Inr (VUint 4)\<rparr>"

definition split_deps :: "bool \<Rightarrow> deps" where
  "split_deps late = (demo_deps (split_ext late) False)\<lparr>d_getenv := \<lambda>_. replicate 42 (CHR ''a'')\<rparr>"

definition split_world :: world where
  "split_world = init_world\<lparr>clients := [1 \<mapsto> 5], server1 := Some \<lparr>priv = 2, addr = 2\<rparr>,
     server2 := Some \<lparr>priv = 3, addr = 3\<rparr>\<rparr>"

definition split_params :: Params where
  "split_params = \<lparr>p_ChainID = 1, p_ERC20Token = 42, p_Recipient0 = 42, p_Recipient1 = 42, p_NativeAmount0 = 5,
     p_NativeAmount1 = 6, p_ERC20Amount0 = 0, p_ERC20Amount1 = 0, p_PayerKey = [], p_PermitDeadline = None,
     p_PermitAmount = None, p_PermitV = 0, p_PermitR = zeroBytes32, p_PermitS = zeroBytes32\<rparr>"

lemma split_ext_sel:
  "x_PendingNonceAt (split_ext l) t c a = Inr 7" "x_SendTransaction (split_ext l) t c s = None"
  "x_EstimateGas (split_ext l) t c m = Inr 50000"
  by (simp_all add: split_ext_def mining_ext_def)

lemma fees_demo:
  "FeeFromProvider (split_deps l) c w = (Inr \<lparr>MaxFee = Some (Gwei 150), MaxPriority = Some (Gwei 5), GasPrice = None\<rparr>,
     w\<lparr>trace := trace w @ [EvSuggestGasTipCap c (Inl offline), EvHeaderByNumber c (Inl offline), EvSuggestGasPrice c (Inl offline)]\<rparr>)"
  by (simp add: FeeFromProvider_def legacyFees_def split_deps_def split_ext_def mining_ext_def offline_ext_def io_simps)

lemma split_deps_sel [simp]:
  "d_geth (split_deps l) = opaque_geth" "d_ext (split_deps l) = split_ext l" "d_rdb (split_deps l) = False"
  by (simp_all add: split_deps_def)

lemma buildAndSend_demo:
  assumes "\<not> l \<or> EvSleep \<in> set (trace w)"
  shows "\<exists>h w'. buildAndSend (split_deps l) 5 p router payer rel s1 s2 epoch nonce n w = ((h, None), w')"
proof -
  have c: "x_Call (split_ext l) (trace w) 5 router ''hashTypedDataPayerSplit'' args = Inr (VBytes32 [])" for args
    using assms by (simp add: split_ext_def)
  have g: "typedDataHash opaque_geth ch router m = Inr []" "crypto_Sign opaque_geth x k = Inr (replicate 65 0)"
    "splitCalldata opaque_geth p payer nonce a b = Inr (bytes_of ''router.executeWithSignatures'')"
    "types_SignTx opaque_geth ch k t = Inr (t, [])" for ch m x k a b t
    by (simp_all add: typedDataHash_def opaque_geth_def splitCalldata_def)
  show ?thesis
    by (simp add: buildAndSend_def Let_def g callView_def c io_simps Sign65_def fees_demo EstimateGas_def split_ext_sel
        SignAndSend_def)
qed

lemma Execute_demo: "\<exists>res w'. Execute (split_deps False) split_params split_world = (Inr res, w')"
proof -
  let ?d = "split_deps False" and ?rel = "\<lparr>priv = 2, addr = 2\<rparr> :: Account" and ?s2 = "\<lparr>priv = 3, addr = 3\<rparr> :: Account"
  let ?p = "split_params\<lparr>p_PermitDeadline := Some 0, p_PermitAmount := Some 0\<rparr>"
  have t: "TrimSpace (replicate 42 (CHR ''a'')) = replicate 42 (CHR ''a'')" by code_simp
  have eofs: "EOFSProxy (registry ?d) 1 = Inr (replicate 42 (CHR ''a''))"
    by (simp add: EOFSProxy_def perChainOrDefault_def lookup_def registry_def NewRegistryWithLookup_def split_deps_def t Let_def
        del: replicate.simps replicate_Suc)
  have hex: "common_IsHexAddress opaque_geth (replicate 42 (CHR ''a''))" by (simp add: opaque_geth_def)
  have pay: "relayer ?d [] split_world = (Inr ?rel, split_world)"
    by (simp add: relayer_def EqualFold_def split_world_def ServerKey1_def)
  have prep: "prepare ?d split_params split_world = (Inr (?rel, ?rel, ?s2, ?p, 5), split_world)"
    using pay by (simp add: prepare_def bindE_def liftE_def retE_def validatePermit_def split_params_def Let_def
        ServerKey1_def ServerKey2_def Client_def split_world_def)
  have call: "callBig ?d 5 a m args w = (Inr 4, w\<lparr>trace := trace w @ [EvCall 5 a m args (Inr (VUint 4))]\<rparr>)"
    if "m \<noteq> ''hashTypedDataPayerSplit''" for a m args w
    using that by (simp add: callBig_def callView_def split_ext_def io_simps)
  have "\<exists>res w'. splitSection ?d 5 ?p router ?rel ?rel ?s2 w = (Inr res, w')" for router w
  proof -
    let ?w = "w\<lparr>trace := trace w @ [EvCall 5 router ''signerEpoch'' [] (Inr (VUint 4)),
        EvCall 5 router ''payerNonce'' [VAddress 2] (Inr (VUint 4)), EvPendingNonceAt 5 2 (Inr 7)]\<rparr>"
    obtain h w' where "buildAndSend ?d 5 ?p router 2 ?rel ?rel ?s2 4 4 7 ?w = ((h, None), w')"
      using buildAndSend_demo [of False] by blast
    then show ?thesis
      by (simp add: splitSection_def Let_def bindE_def call extcall_run split_ext_sel bigOf_def split_params_def
          sendSettlement_def bindI_def retE_def)
  qed
  then obtain res w' where sec: "splitSection ?d 5 ?p (common_HexToAddress opaque_geth (replicate 42 (CHR ''a''))) ?rel ?rel ?s2
      (split_world\<lparr>trace := trace split_world @ [EvLock (NonceLockKey 1 (address_Hex opaque_geth 2))]\<rparr>) = (Inr res, w')" by blast
  have p: "p_ChainID ?p = 1" "p_ChainID split_params = 1" "p_ERC20Amount0 split_params = 0" "p_ERC20Amount1 split_params = 0"
    "p_NativeAmount0 split_params = 5" "p_NativeAmount1 split_params = 6" by (simp_all add: split_params_def)
  have "\<exists>w''. WithNonceLock ?d (NonceLockKey (p_ChainID ?p) (address_Hex (d_geth ?d) (addr ?rel))) emptyResult
      (closure (splitSection ?d 5 ?p (common_HexToAddress (d_geth ?d) (replicate 42 (CHR ''a''))) ?rel ?rel ?s2)) split_world
      = ((res, None), w'')"
    unfolding p using sec by (simp add: WithNonceLock_def closure_def bindI_def emit_run ret_def)
  then obtain w'' where l: "WithNonceLock ?d (NonceLockKey (p_ChainID ?p) (address_Hex (d_geth ?d) (addr ?rel))) emptyResult
      (closure (splitSection ?d 5 ?p (common_HexToAddress (d_geth ?d) (replicate 42 (CHR ''a''))) ?rel ?rel ?s2)) split_world
      = ((res, None), w'')" by blast
  show ?thesis
    unfolding Execute_shape p eofs liftE_def bindE_def prod.case sum.case
    using hex prep l by (simp add: bindE_def bindI_def retE_def)
qed


lemma verdict_submits:
  assumes "verdict d c p router rel s1 s2 (Inr res) before during"
  shows "\<exists>b e a. before @ during = b @ e # a \<and> submission e"
proof -
  from assms obtain rs stx where f: "filter submission during = rs @ [EvSendTransaction c stx None]"
    by (auto simp: verdict_def)
  have "EvSendTransaction c stx None \<in> set (filter submission during)" unfolding f by simp
  then have "EvSendTransaction c stx None \<in> set (before @ during)" by auto
  from split_list [OF this] obtain b a where "before @ during = b @ EvSendTransaction c stx None # a" by blast
  moreover have "submission (EvSendTransaction c stx None)" by simp
  ultimately show ?thesis by blast
qed

lemma Execute_demo_submits:
  "\<exists>res w' b e a. Execute (split_deps False) split_params split_world = (Inr res, w')
     \<and> new_events split_world w' = b @ e # a \<and> submission e"
proof -
  obtain res w' where run: "Execute (split_deps False) split_params split_world = (Inr res, w')"
    using Execute_demo by blast
  from Execute_run [OF run] have "settlement (split_deps False) split_params (Inr res) (new_events split_world w')" by simp
  then obtain routerStr p' c rel s1 s2 pre noise body post k where
    es: "new_events split_world w' = (pre @ EvLock k # noise) @ body @ (post @ [EvUnlock k])"
    and q: "list_all (\<lambda>e. \<not> mutex_event e \<and> \<not> submission e) pre" "quiet noise" "quiet post"
    and st: "settled (split_deps False) c p' (common_HexToAddress (d_geth (split_deps False)) routerStr) rel s1 s2 (Inr res) body"
    unfolding settlement_def settlement_by_def append_assoc append_Cons by blast
  have "list_all (\<lambda>e. \<not> submission e) (pre @ EvLock k # noise)" "list_all (\<lambda>e. \<not> submission e) (post @ [EvUnlock k])"
    using q quiet_plain(2) by (auto simp: list_all_iff)
  from settled_verdict [OF st this] verdict_submits run es show ?thesis by metis
qed

theorem split_submission_justified_witness:
  "\<exists>before e c p' router rel s1 s2. submission e \<and> amounts_ok split_params \<and> validatePermit split_params = Inr p'
     \<and> held (NonceLockKey 1 (address_Hex opaque_geth (addr rel))) False before
     \<and> (approval_ok (split_deps False) c p' router rel before e
        \<or> settle_ok (split_deps False) c p' router rel s1 s2 before e)"
proof -
  obtain res w' b e a where run: "Execute (split_deps False) split_params split_world = (Inr res, w')"
    "new_events split_world w' = b @ e # a" "submission e" using Execute_demo_submits by blast
  have "p_ChainID split_params = 1" by (simp add: split_params_def)
  with split_submission_justified [OF run] run(3) show ?thesis unfolding split_deps_sel by metis
qed

text \<open>
  The retry takes the next account nonce whatever the first attempt did: when the first attempt
  failed before it broadcast anything, the pending nonce \<open>n\<close> is skipped and the settlement goes
  out with \<open>n + 1\<close>, which a node cannot mine before \<open>n\<close> is used.
\<close>

lemma split_nonce_gap:
  "\<exists>d c p router rel s1 s2 epoch nonce n w h w' stx.
     sendSettlement d c p router rel s1 s2 epoch nonce n w = (Inr (h, nonce), w')
     \<and> filter submission (new_events w w') = [EvSendTransaction c stx None] \<and> tx_Nonce (fst stx) = n + 1"
proof -
  let ?d = "split_deps True" and ?rel = "\<lparr>priv = 2, addr = 2\<rparr> :: Account" and ?e = "errorsNew ''nonce unavailable''"
  let ?b = "buildAndSend ?d 5 split_params 9 2 ?rel ?rel ?rel 4 4"
  let ?w1 = "init_world\<lparr>trace := [EvCall 5 9 ''hashTypedDataPayerSplit'' (splitArgs split_params 2 4) (Inl ?e)]\<rparr>"
  let ?w2 = "?w1\<lparr>trace := trace ?w1 @ [EvSleep, EvCall 5 9 ''payerNonce'' [VAddress 2] (Inr (VUint 4))]\<rparr>"
  have first: "?b 7 init_world = (([], Some ?e), ?w1)"
  proof -
    have td: "typedDataHash opaque_geth ch r m = Inr []" for ch r m by (simp add: typedDataHash_def opaque_geth_def)
    have "trace init_world = []" by (simp add: init_world_def)
    then show ?thesis
      by (simp add: buildAndSend_def Let_def td callView_def extcall_run bindI_def ret_def split_ext_def)
  qed
  obtain h w' where second: "?b 8 ?w2 = ((h, None), w')"
  proof -
    have "\<not> True \<or> EvSleep \<in> set (trace ?w2)" by simp
    from buildAndSend_demo [OF this] that show thesis by blast
  qed
  have sent: "runs (?b 8) (sent_tx ?d 5 (\<lambda>stx qs. settles ?d 5 split_params 9 ?rel ?rel ?rel 4 4 qs stx
      \<and> nonce_of (d_geth ?d) (p_ChainID split_params) ?rel 8 stx))"
    using buildAndSend_runs [of ?d 5 split_params 9 ?rel ?rel ?rel 4 4 8] by simp
  obtain es where es: "w' = ?w2\<lparr>trace := trace ?w2 @ es\<rparr>" "sent_tx ?d 5 (\<lambda>stx qs.
      settles ?d 5 split_params 9 ?rel ?rel ?rel 4 4 qs stx \<and> nonce_of (d_geth ?d) (p_ChainID split_params) ?rel 8 stx) (h, None) es"
    by (rule runsE [OF sent second])
  from es(2) obtain qs stx where q: "es = qs @ [EvSendTransaction 5 stx None]" "list_all query qs"
    "nonce_of opaque_geth (p_ChainID split_params) ?rel 8 stx" by (auto simp: sent_tx_def)
  have nerr: "isNonceErr (Some ?e)" by code_simp
  have "sendSettlement ?d 5 split_params 9 ?rel ?rel ?rel 4 4 7 init_world = (Inr (h, 4), w')"
    using first second nerr
    by (simp add: sendSettlement_def bindI_def emit_run bindE_def callBig_def callView_def extcall_run split_ext_def retE_def)
  moreover have "filter submission (new_events init_world w') = [EvSendTransaction 5 stx None]"
    using es(1) q query_no_submission [OF q(2)] by (simp add: new_events_def init_world_def)
  moreover have "tx_Nonce (fst stx) = 7 + 1" using q(3) by (auto simp: nonce_of_def opaque_geth_def)
  ultimately show ?thesis by blast
qed

section \<open>The answer of the handler\<close>

text \<open>
  C37: the answer to a settlement request tells what happened: 400 is answered without touching
  anything, 200 only after parameters without negative amounts were settled, and every other
  answer is one of the failure statuses of the error contract, after which no settlement was
  accepted.
\<close>

theorem ExecuteHandler_answers:
  assumes "ExecuteHandler d raw w = ((st, b), w')"
  shows "(st = 400 \<longrightarrow> w' = w) \<and> st \<in> {200, 400, 422, 409, 503, 500}
    \<and> (st \<noteq> 400 \<longrightarrow> (\<exists>p r. checkExec d raw = Inr p \<and> params_ok p \<and> Execute d p w = (r, w')
         \<and> (case r of Inr res \<Rightarrow> st = 200 \<and> b = OkBody res \<and> settlement d p (Inr res) (new_events w w')
            | Inl e \<Rightarrow> st \<noteq> 200)))"
  using assms
proof (cases rule: sp.answer_cases)
  case (Failed p e)
  then show ?thesis using checkExec_ok [of d raw p] by auto
next
  case (Succeeded p res)
  then show ?thesis using checkExec_ok [of d raw p] Execute_run [of d p w "Inr res" w'] by auto
qed simp

definition demo_split :: json where
  "demo_split = JObj [(''chainId'', JNum ''1''), (''erc20Token'', JStr (replicate 42 (CHR ''a''))),
     (''recipient0'', JStr (replicate 42 (CHR ''b''))), (''recipient1'', JStr (replicate 42 (CHR ''c''))),
     (''nativeAmount0'', JStr ''5''), (''nativeAmount1'', JStr ''6''),
     (''erc20Amount0'', JStr ''0''), (''erc20Amount1'', JStr ''0'')]"

lemma demo_split_ok: "checkExec (split_deps False) (Some demo_split) = Inr split_params"
proof -
  have p: "ParseInt ''1'' 10 = Some 1" "TrimSpace (replicate 42 (CHR ''a'')) = replicate 42 (CHR ''a'')" "TrimSpace [] = []"
    and n: "ToBigInt (AString ''5'') = Inr 5" "ToBigInt (AString ''6'') = Inr 6" "ToBigInt (AString ''0'') = Inr 0"
    by code_simp+
  have r: "reqUint (AString ''5'') n = Inr 5" "reqUint (AString ''6'') n = Inr 6" "reqUint (AString ''0'') n = Inr 0"
    "parseBytes32 g [] = None" for n g
    by (simp_all add: reqUint_def parseBytes32_def p n del: ToBigInt.simps)
  define b where "b = emptyExec\<lparr>e_ChainID := 1, e_ERC20Token := replicate 42 (CHR ''a''),
     e_Recipient0 := replicate 42 (CHR ''b''), e_Recipient1 := replicate 42 (CHR ''c''), e_NativeAmount0 := AString ''5'',
     e_NativeAmount1 := AString ''6'', e_ERC20Amount0 := AString ''0'', e_ERC20Amount1 := AString ''0''\<rparr>"
  have u: "Unmarshal ''split.execBody'' execFields demo_split emptyExec = (b, None)"
    by (simp add: Unmarshal_def demo_split_def execFields_def decodeStep_def EqualFold_def decString_def decInt64_def
        decAny_def b_def p(1) lowerByte_def isUpper_def)
  have b: "e_ChainID b = 1" "e_ERC20Token b = replicate 42 (CHR ''a'')" "e_Recipient0 b = replicate 42 (CHR ''b'')"
    "e_Recipient1 b = replicate 42 (CHR ''c'')" "e_NativeAmount0 b = AString ''5''" "e_NativeAmount1 b = AString ''6''"
    "e_ERC20Amount0 b = AString ''0''" "e_ERC20Amount1 b = AString ''0''" "e_PayerKey b = []" "e_PermitDeadline b = ANil"
    "e_PermitAmount b = ANil" "e_PermitV b = 0" "e_PermitR b = []" "e_PermitS b = []"
    by (simp_all add: b_def emptyExec_def)
  have g: "common_IsHexAddress opaque_geth s \<longleftrightarrow> length s = 42" "common_HexToAddress opaque_geth s = of_nat (length s)" for s
    by (simp_all add: opaque_geth_def)
  show ?thesis
    by (simp add: checkExec_def u b p r g ResolveChainID_def Let_def errText_def amountOf_def optBig_def split_params_def
        del: replicate.simps replicate_Suc)
qed

theorem ExecuteHandler_answers_witness:
  "\<exists>res w'. ExecuteHandler (split_deps False) (Some demo_split) split_world = ((200, OkBody res), w')
     \<and> params_ok split_params \<and> settlement (split_deps False) split_params (Inr res) (new_events split_world w')"
proof -
  obtain res w' where e: "Execute (split_deps False) split_params split_world = (Inr res, w')"
    using Execute_demo by blast
  then have run: "ExecuteHandler (split_deps False) (Some demo_split) split_world = ((200, OkBody res), w')"
    by (simp add: ExecuteHandler_def demo_split_ok bindI_def ret_def WriteJSON_def)
  from ExecuteHandler_answers [OF run] demo_split_ok have
    "params_ok split_params \<and> settlement (split_deps False) split_params (Inr res) (new_events split_world w')"
    using e by auto
  with run show ?thesis by blast
qed

declare split_paired_Ex [simp] split_paired_All [simp]

end
