(* ===== verification/Lock_Discipline.thy ===== *)
theory Lock_Discipline
  imports Server Split_Outcome
begin

text \<open>
  The discipline of the nonce locks: in which order they are taken, and that a transaction is sent
  only under the lock of the wallet that signs it. \<open>locked\<close> is a triple of a Hoare logic on the
  functions of the model, with one rule for each way the code composes functions.
\<close>

section \<open>Ranks\<close>

text \<open>An account's key has three colons, a wallet's key two.\<close>

definition rank :: "string \<Rightarrow> nat" where
  "rank k = (if count_list k (CHR '':'') = 3 then 0 else 1)"

text \<open>The documented form of \<open>Address.Hex\<close>: 0x and hexadecimal digits, so no colon.\<close>

definition hex_addresses :: "geth \<Rightarrow> bool" where
  "hex_addresses g \<longleftrightarrow> (\<forall>a. CHR '':'' \<notin> set (address_Hex g a))"

lemma count_FormatInt [simp]: "count_list (FormatInt i) (CHR '':'') = 0"
  by (rule count_notin) (auto dest!: FormatInt_chars simp: isDigit_def)

lemma rank_wallet [simp]: "hex_addresses g \<Longrightarrow> rank (NonceLockKey ch (address_Hex g a)) = 1"
  by (simp add: rank_def NonceLockKey_def hex_addresses_def)

lemma rank_account [simp]: "hex_addresses g \<Longrightarrow> rank (accountLockKey ch (address_Hex g a)) = 0"
  by (simp add: rank_def accountLockKey_def hex_addresses_def)

section \<open>Signers\<close>

text \<open>The event sends a transaction that the account signed for the chain.\<close>

fun signed_from :: "geth \<Rightarrow> int64 \<Rightarrow> Account \<Rightarrow> event \<Rightarrow> bool" where
  "signed_from g ch acc (EvTransact c opts dest m args r) \<longleftrightarrow>
     (\<exists>n v. Transactor g acc ch = Inr (opts\<lparr>opts_Nonce := n, opts_Value := v\<rparr>))"
| "signed_from g ch acc (EvSendTransaction c stx r) \<longleftrightarrow> (\<exists>t. types_SignTx g ch (priv acc) t = Inr stx)"
| "signed_from g ch acc e \<longleftrightarrow> False"

text \<open>An account's address is that of its key, in all accounts the process has loaded.\<close>

definition account_ok :: "geth \<Rightarrow> Account \<Rightarrow> bool" where
  "account_ok g acc \<longleftrightarrow> addr acc = crypto_PubkeyToAddress g (priv acc)"

fun task_ok :: "geth \<Rightarrow> flush_task \<Rightarrow> bool" where
  "task_ok g (Round ch pool batch) \<longleftrightarrow> list_all (account_ok g) pool"
| "task_ok g (Retries ch wl batch) \<longleftrightarrow> account_ok g wl"

definition wallets_ok :: "geth \<Rightarrow> world \<Rightarrow> bool" where
  "wallets_ok g w \<longleftrightarrow> (\<forall>ch p. pools w ch = Some p \<longrightarrow> list_all (account_ok g) p)
     \<and> (\<forall>ch p. chains w ch = Some p \<longrightarrow> list_all (account_ok g) p)
     \<and> (\<forall>a. server1 w = Some a \<longrightarrow> account_ok g a) \<and> (\<forall>a. server2 w = Some a \<longrightarrow> account_ok g a)
     \<and> list_all (task_ok g) (detached w)"

lemma wallets_ok_init [simp]: "wallets_ok g init_world"
  by (simp add: wallets_ok_def)

lemma wallets_ok_same:
  "wallets_ok g w \<Longrightarrow> pools w' = pools w \<Longrightarrow> chains w' = chains w \<Longrightarrow> server1 w' = server1 w \<Longrightarrow> server2 w' = server2 w
     \<Longrightarrow> detached w' = detached w \<Longrightarrow> wallets_ok g w'"
  by (simp add: wallets_ok_def)

lemma newAccount_ok: "newAccount g k = Inr a \<Longrightarrow> account_ok g a"
  by (auto simp: newAccount_def account_ok_def Let_def split: sum.splits)

section \<open>The discipline\<close>

text \<open>
  The locks held after a trace, innermost first, or None when the discipline is broken: a lock
  is taken only above all locks held, the innermost lock is released first, and, if \<open>b\<close>, a transaction
  is sent only while the lock of the account that signed it is held.
\<close>

definition under_lock :: "geth \<Rightarrow> string list \<Rightarrow> event \<Rightarrow> bool" where
  "under_lock g H e \<longleftrightarrow> (submission e \<longrightarrow>
     (\<exists>ch acc. signed_from g ch acc e \<and> account_ok g acc \<and> NonceLockKey ch (address_Hex g (addr acc)) \<in> set H))"

fun lock_run :: "geth \<Rightarrow> bool \<Rightarrow> string list \<Rightarrow> trace \<Rightarrow> string list option" where
  "lock_run g b H [] = Some H"
| "lock_run g b H (EvLock k # es) = (if \<forall>h \<in> set H. rank h < rank k then lock_run g b (k # H) es else None)"
| "lock_run g b H (EvUnlock k # es) = (case H of h # H' \<Rightarrow> if h = k then lock_run g b H' es else None | [] \<Rightarrow> None)"
| "lock_run g b H (e # es) = (if b \<longrightarrow> under_lock g H e then lock_run g b H es else None)"

lemma lock_run_other:
  "\<not> mutex_event e \<Longrightarrow> lock_run g b H (e # es) = (if b \<longrightarrow> under_lock g H e then lock_run g b H es else None)"
  by (cases e) auto

lemma lock_run_append: "lock_run g b H (es @ fs) = (case lock_run g b H es of None \<Rightarrow> None | Some H' \<Rightarrow> lock_run g b H' fs)"
proof (induction es arbitrary: H)
  case (Cons e es)
  then show ?case by (cases e) (auto split: list.split)
qed simp

lemma lock_run_plain:
  "list_all (\<lambda>e. \<not> mutex_event e \<and> (b \<longrightarrow> under_lock g H e)) es \<Longrightarrow> lock_run g b H es = Some H"
  by (induction es) (auto simp: lock_run_other)

lemma lock_run_quiet: "quiet es \<Longrightarrow> lock_run g b H es = Some H"
  by (intro lock_run_plain) (auto simp: list_all_iff under_lock_def dest: lock_noise_plain)

lemma lock_run_held:
  "lock_run g b H es = Some H' \<Longrightarrow> distinct H \<Longrightarrow> distinct H' \<and> (held k (k \<in> set H) es \<longleftrightarrow> k \<in> set H')"
proof (induction es arbitrary: H)
  case (Cons e es)
  show ?case
  proof (cases "mutex_event e")
    case True
    then show ?thesis
    proof (cases e)
      case (EvLock k')
      with Cons.prems have "k' \<notin> set H" by (auto split: if_splits)
      with Cons.IH [of "k' # H"] Cons.prems EvLock show ?thesis
        by (simp add: disj_commute eq_commute [of k k'] split: if_splits)
    next
      case (EvUnlock k')
      with Cons.prems obtain Hr where H: "H = k' # Hr" "lock_run g b Hr es = Some H'"
        by (auto split: list.splits if_splits)
      with Cons.prems(2) have "(k \<in> set H \<and> k' \<noteq> k) = (k \<in> set Hr)" by auto
      with Cons.IH [OF H(2)] Cons.prems(2) H(1) EvUnlock show ?thesis by simp
    qed simp_all
  next
    case False
    with Cons show ?thesis by (simp add: lock_run_other held_Cons_other split: if_splits)
  qed
qed simp

lemma lock_run_split:
  assumes "lock_run g b [] (pre @ e # post) = Some []"
  obtains H where "lock_run g b H (e # post) = Some []" "\<forall>k. held k False pre \<longleftrightarrow> k \<in> set H"
proof -
  from assms obtain H where H: "lock_run g b [] pre = Some H" "lock_run g b H (e # post) = Some []"
    unfolding lock_run_append by (auto split: option.splits)
  with that lock_run_held [OF H(1)] show thesis by simp
qed

section \<open>Triples\<close>

text \<open>
  Every run of \<open>m\<close> that begins with the locks \<open>H\<close> keeps the discipline and ends with \<open>H\<close>; if \<open>b\<close>, and
  the loaded accounts were well-formed, they still are, and \<open>Q\<close> holds of the result.
\<close>

definition locked :: "geth \<Rightarrow> bool \<Rightarrow> string list \<Rightarrow> 'a wio \<Rightarrow> ('a \<Rightarrow> bool) \<Rightarrow> bool" where
  "locked g b H m Q \<longleftrightarrow> (\<forall>w. (b \<longrightarrow> wallets_ok g w) \<longrightarrow>
     (\<exists>es. trace (snd (m w)) = trace w @ es \<and> lock_run g b H es = Some H)
     \<and> (b \<longrightarrow> wallets_ok g (snd (m w)) \<and> Q (fst (m w))))"

abbreviation anyR :: "'a \<Rightarrow> bool" where
  "anyR \<equiv> \<lambda>_. True"

definition okE :: "('a \<Rightarrow> bool) \<Rightarrow> go_error + 'a \<Rightarrow> bool" where
  "okE Q r \<longleftrightarrow> (case r of Inl _ \<Rightarrow> True | Inr x \<Rightarrow> Q x)"

lemma okE_simps [simp]: "okE Q (Inl e)" "okE Q (Inr x) = Q x" "okE anyR r"
  by (simp_all add: okE_def split: sum.split)

lemma lockedI:
  assumes "\<And>w x w'. m w = (x, w') \<Longrightarrow> b \<longrightarrow> wallets_ok g w \<Longrightarrow>
    (\<exists>es. trace w' = trace w @ es \<and> lock_run g b H es = Some H) \<and> (b \<longrightarrow> wallets_ok g w' \<and> Q x)"
  shows "locked g b H m Q"
  unfolding locked_def using assms by (metis prod.collapse)

lemma lockedE:
  assumes "locked g b H m Q" "m w = (x, w')" "b \<longrightarrow> wallets_ok g w"
  obtains es where "trace w' = trace w @ es" "lock_run g b H es = Some H" "b \<longrightarrow> wallets_ok g w' \<and> Q x"
  using assms unfolding locked_def by (metis fst_conv snd_conv)

lemma locked_mono: "locked g b H m Q \<Longrightarrow> (\<And>x. b \<Longrightarrow> Q x \<Longrightarrow> R x) \<Longrightarrow> locked g b H m R"
  unfolding locked_def by blast

lemma locked_weaken: "locked g b H m Q \<Longrightarrow> locked g b H m anyR"
  by (erule locked_mono) simp

text \<open>A function that only asks, or that only appends events, and touches no account.\<close>

lemma locked_runs:
  assumes "runs m P"
    and "\<And>x es. P x es \<Longrightarrow> list_all (\<lambda>e. \<not> mutex_event e \<and> (b \<longrightarrow> under_lock g H e)) es \<and> (b \<longrightarrow> Q x)"
  shows "locked g b H m Q"
proof (rule lockedI)
  fix w x w' assume m: "m w = (x, w')" and w: "b \<longrightarrow> wallets_ok g w"
  from assms(1) m obtain es where w': "w' = w\<lparr>trace := trace w @ es\<rparr>" and P: "P x es" by (rule runsE)
  have "wallets_ok g w \<Longrightarrow> wallets_ok g w'" by (erule wallets_ok_same) (simp_all add: w')
  with w w' assms(2) [OF P] lock_run_plain [of b g H es]
  show "(\<exists>es. trace w' = trace w @ es \<and> lock_run g b H es = Some H) \<and> (b \<longrightarrow> wallets_ok g w' \<and> Q x)" by auto
qed

lemma locked_asks:
  assumes "asks E m" "\<And>e. E e \<Longrightarrow> \<not> mutex_event e \<and> \<not> submission e"
  shows "locked g b H m anyR"
  by (rule locked_runs [OF asks_runs [OF assms(1)]]) (auto simp: list_all_iff under_lock_def dest: assms(2))

lemma locked_ret [intro]:
  "(b \<Longrightarrow> Q x) \<Longrightarrow> locked g b H (ret x) Q"
  "(b \<Longrightarrow> R (Inr y)) \<Longrightarrow> locked g b H (retE y) R"
  "(b \<Longrightarrow> S (Inl e)) \<Longrightarrow> locked g b H (failE e) S"
  "(b \<Longrightarrow> U r) \<Longrightarrow> locked g b H (liftE r) U"
  by (auto simp: locked_def io_simps)

lemma locked_rets [simp]:
  "locked g b H (ret x) anyR" "locked g b H (retE y) anyR" "locked g b H (failE e) anyR" "locked g b H (liftE r) anyR"
  by (auto intro: locked_ret)

lemma locked_ask: "(\<And>r. \<not> mutex_event (ev r) \<and> \<not> submission (ev r)) \<Longrightarrow> locked g b H (extcall f ev) anyR"
  by (rule locked_runs [OF runs_extcall [where P = "\<lambda>r es. es = [ev r]"]]) (auto simp: under_lock_def)

lemma locked_calls [intro, simp]:
  "locked g b H (extcall f1 EvCtxWait) anyR" "locked g b H (extcall f2 (EvBatchmates ch)) anyR" "locked g b H (extcall f3 EvNow) anyR"
  "locked g b H (extcall f4 (EvPendingNonceAt c a)) anyR" "locked g b H (extcall f5 (EvWaitMined c h)) anyR"
  "locked g b H (extcall f6 (EvCall c a m args)) anyR"
  by (auto intro: locked_ask)

text \<open>A transaction sent under the lock of its signer.\<close>

lemma locked_submit:
  assumes "\<And>r. \<not> mutex_event (ev r)" "\<And>r. b \<Longrightarrow> signed_from g ch acc (ev r)"
    and "b \<Longrightarrow> account_ok g acc" "NonceLockKey ch (address_Hex g (addr acc)) \<in> set H"
  shows "locked g b H (extcall f ev) anyR"
  by (rule locked_runs [OF runs_extcall [where P = "\<lambda>r es. es = [ev r]"]]) (use assms in \<open>auto simp: under_lock_def\<close>)

lemma locked_bindI:
  assumes "locked g b H m Q" "\<And>x. (b \<Longrightarrow> Q x) \<Longrightarrow> locked g b H (f x) R"
  shows "locked g b H (bindI m f) R"
proof (rule lockedI)
  fix w y w' assume r: "bindI m f w = (y, w')" and w: "b \<longrightarrow> wallets_ok g w"
  obtain x u where m: "m w = (x, u)" by fastforce
  with r have f: "f x u = (y, w')" by (simp add: bindI_def)
  from lockedE [OF assms(1) m w] obtain es where es: "trace u = trace w @ es" "lock_run g b H es = Some H"
    "b \<longrightarrow> wallets_ok g u \<and> Q x" .
  from lockedE [OF assms(2) f] es(3) obtain fs where "trace w' = trace u @ fs" "lock_run g b H fs = Some H"
    "b \<longrightarrow> wallets_ok g w' \<and> R y" by blast
  with es show "(\<exists>es. trace w' = trace w @ es \<and> lock_run g b H es = Some H) \<and> (b \<longrightarrow> wallets_ok g w' \<and> R y)"
    by (simp add: lock_run_append)
qed

lemma locked_bindE:
  assumes "locked g b H m (okE Q)" "\<And>x. (b \<Longrightarrow> Q x) \<Longrightarrow> locked g b H (f x) R" "\<And>e. R (Inl e)"
  shows "locked g b H (bindE m f) R"
  unfolding bindE_bindI
  by (rule locked_bindI [OF assms(1)]) (use assms(2,3) in \<open>auto simp: okE_def split: sum.splits\<close>)

text \<open>Often nothing is known of a result, and nothing is needed.\<close>

lemma locked_bindI_any: "locked g b H m anyR \<Longrightarrow> (\<And>x. locked g b H (f x) R) \<Longrightarrow> locked g b H (bindI m f) R"
  by (rule locked_bindI)

lemma locked_bindE_any:
  "locked g b H m anyR \<Longrightarrow> (\<And>x. locked g b H (f x) R) \<Longrightarrow> (\<And>e. R (Inl e)) \<Longrightarrow> locked g b H (bindE m f) R"
  by (rule locked_bindE [where Q = anyR], erule locked_mono) simp_all

lemma locked_if: "(c \<Longrightarrow> locked g b H m Q) \<Longrightarrow> (\<not> c \<Longrightarrow> locked g b H n Q) \<Longrightarrow> locked g b H (if c then m else n) Q"
  by simp

lemma locked_case:
  "(\<And>x. s = Inl x \<Longrightarrow> locked g b H (f x) Q) \<Longrightarrow> (\<And>y. s = Inr y \<Longrightarrow> locked g b H (h y) Q)
     \<Longrightarrow> locked g b H (case s of Inl x \<Rightarrow> f x | Inr y \<Rightarrow> h y) Q"
  "(\<And>x y. p = (x, y) \<Longrightarrow> locked g b H (k x y) Q) \<Longrightarrow> locked g b H (case p of (x, y) \<Rightarrow> k x y) Q"
  "locked g b H m Q \<Longrightarrow> (\<And>z. v = Some z \<Longrightarrow> locked g b H (n z) Q) \<Longrightarrow> locked g b H (case v of None \<Rightarrow> m | Some z \<Rightarrow> n z) Q"
  by (simp_all split: sum.split prod.split option.split)

text \<open>The rule of the lock: its section runs with one more lock, which must be above the others.\<close>

lemma locked_WithNonceLock:
  assumes "locked g b (k # H) fn anyR" "\<forall>h \<in> set H. rank h < rank k"
  shows "locked g b H (WithNonceLock d k cap fn) anyR"
proof (rule lockedI)
  fix w res w' assume r: "WithNonceLock d k cap fn w = (res, w')" and w: "b \<longrightarrow> wallets_ok g w"
  have same: "wallets_ok g u \<Longrightarrow> wallets_ok g (u\<lparr>trace := t\<rparr>)" for u t
    by (erule wallets_ok_same) simp_all
  from wl.lock_runs [OF r]
  show "(\<exists>es. trace w' = trace w @ es \<and> lock_run g b H es = Some H) \<and> (b \<longrightarrow> wallets_ok g w' \<and> anyR res)"
  proof (elim disjE exE conjE)
    fix pre post w2 assume n: "quiet pre" "quiet post" and f: "fn (w\<lparr>trace := trace w @ EvLock k # pre\<rparr>) = (res, w2)"
      and w': "w' = w2\<lparr>trace := trace w2 @ post @ [EvUnlock k]\<rparr>"
    from lockedE [OF assms(1) f] w same obtain es where es: "trace w2 = trace w @ EvLock k # pre @ es"
      "lock_run g b (k # H) es = Some (k # H)" "b \<longrightarrow> wallets_ok g w2" by auto
    from same es(3) have "b \<longrightarrow> wallets_ok g w'" unfolding w' by blast
    with w' assms(2) es n show ?thesis by (simp add: lock_run_append lock_run_quiet)
  next
    fix es e assume q: "quiet es" and w': "w' = w\<lparr>trace := trace w @ EvLock k # es @ [EvUnlock k]\<rparr>"
    from same w have "b \<longrightarrow> wallets_ok g w'" unfolding w' by blast
    with w' assms(2) q show ?thesis by (simp add: lock_run_append lock_run_quiet)
  qed
qed

text \<open>A section under the lock of its signer.\<close>

lemma locked_section:
  assumes "hex_addresses g" "\<forall>h \<in> set H. rank h = 0"
    and "locked g b (NonceLockKey ch (address_Hex g (addr acc)) # H) fn anyR"
  shows "locked g b H (WithNonceLock d (NonceLockKey ch (address_Hex g (addr acc))) cap fn) anyR"
  by (rule locked_WithNonceLock [OF assms(3)]) (use assms(1,2) in simp)

lemmas locked_rules = locked_bindI_any locked_bindE_any locked_case locked_if locked_ret

end
