(* ===== verification/Lock_Order.thy ===== *)
theory Lock_Order
  imports Lock_Discipline
begin

text \<open>
  The nonce locks across all components. A request may hold the lock of a contract account and,
  inside it, the lock of a wallet, never the other way round and never two of a kind, and it sends a
  transaction only under the lock of the wallet that signs it; so do the flush goroutines that run on
  after it. It follows that requests cannot deadlock.
\<close>

section \<open>Accounts\<close>

text \<open>Whatever is loaded from the environment or the key store has the address of its key.\<close>

lemma tryLoad_ok: "tryLoad d n w = (Inr (Some a), w') \<Longrightarrow> account_ok (d_geth d) a"
proof -
  assume "tryLoad d n w = (Inr (Some a), w')"
  then obtain k w1 where "(case k of None \<Rightarrow> retE None | Some kb \<Rightarrow> (case newAccount (d_geth d) kb of Inl e \<Rightarrow> failE (ErrWrap (''keystore key '' @ Quote n @ '': '') e) | Inr acc \<Rightarrow> retE (Some acc))) w1
      = (Inr (Some a), w')"
    unfolding tryLoad_def bindE_Inr_iff by blast
  then show ?thesis by (cases k) (auto dest: newAccount_ok split: sum.splits)
qed

lemma loadAccounts_ok: "loadAccounts d ns w = (Inr p, w') \<Longrightarrow> list_all (account_ok (d_geth d)) p"
  by (induction ns arbitrary: w p w')
     (auto simp: bindE_Inr_iff loadAccount_def dest!: tryLoad_ok split: option.splits)

lemma buildPool_ok: "buildPool d ch w = (Inr p, w') \<Longrightarrow> list_all (account_ok (d_geth d)) p"
  by (auto simp: buildPool_def Let_def bindE_Inr_iff dest!: loadAccounts_ok tryLoad_ok newAccount_ok
      split: if_splits sum.splits option.splits)

lemma loadServerKey_ok: "loadServerKey d n k v w = (Inr a, w') \<Longrightarrow> account_ok (d_geth d) a"
  by (auto simp: loadServerKey_def bindE_Inr_iff dest!: tryLoad_ok newAccount_ok split: if_splits sum.splits option.splits)

lemma key_events_run: "list_all key_event es \<Longrightarrow> lock_run g b H es = Some H"
  by (rule lock_run_plain) (auto simp: list_all_iff under_lock_def dest: key_event_plain)

lemma locked_BundlerPool: "locked (d_geth d) b H (BundlerPool d ch) (okE (list_all (account_ok (d_geth d))))"
proof (rule lockedI)
  fix w r w' assume r: "BundlerPool d ch w = (r, w')" and w: "b \<longrightarrow> wallets_ok (d_geth d) w"
  show "(\<exists>es. trace w' = trace w @ es \<and> lock_run (d_geth d) b H es = Some H)
    \<and> (b \<longrightarrow> wallets_ok (d_geth d) w' \<and> okE (list_all (account_ok (d_geth d))) r)"
  proof (cases "pools w ch")
    case None
    obtain es w2 where w': "w' = w\<lparr>trace := trace w @ es, pools := (case r of Inr p \<Rightarrow> (pools w)(ch \<mapsto> p) | Inl _ \<Rightarrow> pools w)\<rparr>"
      and es: "list_all key_event es" and b: "buildPool d ch w = (r, w2)" using BundlerPool_cases [OF r None] by metis
    have ok: "okE (list_all (account_ok (d_geth d))) r" using buildPool_ok b by (cases r) auto
    then have "wallets_ok (d_geth d) w \<Longrightarrow> wallets_ok (d_geth d) w'"
      by (cases r) (auto simp: w' wallets_ok_def)
    with w w' ok key_events_run [OF es] show ?thesis by (cases r) auto
  next
    case (Some p)
    with r w show ?thesis by (auto simp: BundlerPool_def wallets_ok_def intro: exI [of _ "[]"])
  qed
qed

lemma locked_ServerKey1: "locked (d_geth d) b H (ServerKey1 d) (okE (account_ok (d_geth d)))"
proof (rule lockedI)
  fix w r w' assume r: "ServerKey1 d w = (r, w')" and w: "b \<longrightarrow> wallets_ok (d_geth d) w"
  show "(\<exists>es. trace w' = trace w @ es \<and> lock_run (d_geth d) b H es = Some H)
    \<and> (b \<longrightarrow> wallets_ok (d_geth d) w' \<and> okE (account_ok (d_geth d)) r)"
  proof (cases "server1 w")
    case None
    have ok: "okE (account_ok (d_geth d)) r"
      using r None loadServerKey_ok by (auto simp: ServerKey1_def bindE_def okE_def split: prod.splits sum.splits)
    from r None obtain es where w': "w' = w\<lparr>trace := trace w @ es, server1 := (case r of Inr a \<Rightarrow> Some a | Inl _ \<Rightarrow> None)\<rparr>"
      and es: "list_all key_event es" by (rule ServerKey1_cases)
    from ok have "wallets_ok (d_geth d) w \<Longrightarrow> wallets_ok (d_geth d) w'" by (cases r) (auto simp: w' wallets_ok_def)
    with w w' ok key_events_run [OF es] show ?thesis by auto
  next
    case (Some a)
    with r w show ?thesis by (auto simp: ServerKey1_def wallets_ok_def intro: exI [of _ "[]"])
  qed
qed

lemma locked_ServerKey2: "locked (d_geth d) b H (ServerKey2 d) (okE (account_ok (d_geth d)))"
proof (rule lockedI)
  fix w r w' assume r: "ServerKey2 d w = (r, w')" and w: "b \<longrightarrow> wallets_ok (d_geth d) w"
  show "(\<exists>es. trace w' = trace w @ es \<and> lock_run (d_geth d) b H es = Some H)
    \<and> (b \<longrightarrow> wallets_ok (d_geth d) w' \<and> okE (account_ok (d_geth d)) r)"
  proof (cases "server2 w")
    case None
    have ok: "okE (account_ok (d_geth d)) r"
      using r None loadServerKey_ok by (auto simp: ServerKey2_def bindE_def okE_def split: prod.splits sum.splits)
    from r None obtain es where w': "w' = w\<lparr>trace := trace w @ es, server2 := (case r of Inr a \<Rightarrow> Some a | Inl _ \<Rightarrow> None)\<rparr>"
      and es: "list_all key_event es" by (rule ServerKey2_cases)
    from ok have "wallets_ok (d_geth d) w \<Longrightarrow> wallets_ok (d_geth d) w'" by (cases r) (auto simp: w' wallets_ok_def)
    with w w' ok key_events_run [OF es] show ?thesis by auto
  next
    case (Some a)
    with r w show ?thesis by (auto simp: ServerKey2_def wallets_ok_def intro: exI [of _ "[]"])
  qed
qed

lemma walletAt_ok: "list_all (account_ok g) p \<Longrightarrow> okE (account_ok g) (walletAt p i)"
  by (auto simp: walletAt_def list_all_iff)

lemma locked_PrimaryBundler: "locked (d_geth d) b H (PrimaryBundler d ch) (okE (account_ok (d_geth d)))"
  unfolding PrimaryBundler_def by (rule locked_bindE [OF locked_BundlerPool]) (auto intro!: locked_ret walletAt_ok)

lemma locked_relayer: "locked (d_geth d) b H (relayer d k) (okE (account_ok (d_geth d)))"
  unfolding relayer_def by (simp add: locked_ServerKey1 locked_ServerKey2)

lemma locked_resolveSourceWallet: "locked (d_geth d) b H (resolveSourceWallet d src m) (okE (account_ok (d_geth d)))"
  unfolding resolveSourceWallet_def
  by (rule locked_bindE [OF locked_ServerKey1], rule locked_bindE [OF locked_ServerKey2])
     (auto intro!: locked_if locked_ret)

lemma locked_queueFor: "locked (d_geth d) b H (queueFor d ch) (okE (list_all (account_ok (d_geth d))))"
proof (rule lockedI)
  fix w r w' assume r: "queueFor d ch w = (r, w')" and w: "b \<longrightarrow> wallets_ok (d_geth d) w"
  show "(\<exists>es. trace w' = trace w @ es \<and> lock_run (d_geth d) b H es = Some H)
    \<and> (b \<longrightarrow> wallets_ok (d_geth d) w' \<and> okE (list_all (account_ok (d_geth d))) r)"
  proof (cases "chains w ch")
    case None
    with r obtain r1 w1 where p: "BundlerPool d ch w = (r1, w1)" "r = r1"
      "w' = (case r1 of Inr p \<Rightarrow> w1\<lparr>chains := (chains w1)(ch \<mapsto> p)\<rparr> | Inl _ \<Rightarrow> w1)" by (auto elim!: queueFor_miss)
    from lockedE [OF locked_BundlerPool p(1) w] obtain es where "trace w1 = trace w @ es"
      "lock_run (d_geth d) b H es = Some H" "b \<longrightarrow> wallets_ok (d_geth d) w1 \<and> okE (list_all (account_ok (d_geth d))) r1" .
    with p(2,3) show ?thesis by (cases r1) (auto simp: wallets_ok_def)
  next
    case (Some p)
    with r w show ?thesis by (auto simp: queueFor_def wallets_ok_def intro: exI [of _ "[]"])
  qed
qed

section \<open>Calls\<close>

lemma locked_Client: "locked g b H (Client d ch) anyR"
proof (rule lockedI)
  fix w r w' assume r: "Client d ch w = (r, w')" and w: "b \<longrightarrow> wallets_ok g w"
  from Client_trace [OF r] obtain es where es: "trace w' = trace w @ es" "list_all dial_event es" by blast
  have "lock_run g b H es = Some H"
    by (rule lock_run_plain) (use es(2) in \<open>auto simp: list_all_iff under_lock_def dest: dial_event_plain\<close>)
  moreover have "wallets_ok g w \<Longrightarrow> wallets_ok g w'"
    by (erule wallets_ok_same) (use Client_frame [OF r] Client_detached [OF r] in simp_all)
  ultimately show "(\<exists>es. trace w' = trace w @ es \<and> lock_run g b H es = Some H) \<and> (b \<longrightarrow> wallets_ok g w' \<and> anyR r)"
    using es(1) w by blast
qed

lemma locked_queries [simp]:
  "locked g b H (callView d c a m args) anyR" "locked g b H (userOpMaxFeeFields d c ch) anyR"
  "locked g b H (FeeFromProvider d c) anyR" "locked g b H (EstimateGas d c msg lo hi fb) anyR"
  by (rule locked_asks [of query], auto intro: asks_userOpMaxFeeFields asks_FeeFromProvider asks_EstimateGas dest: query_plain)+

lemma signed_from_opts:
  "Transactor g acc ch = Inr o0 \<Longrightarrow> signed_from g ch acc (EvTransact c (o0\<lparr>opts_Nonce := n\<rparr>) a m args r)"
  "Transactor g acc ch = Inr o0 \<Longrightarrow> signed_from g ch acc (EvTransact c (o0\<lparr>opts_Nonce := n, opts_Value := v\<rparr>) a m args r)"
proof -
  have "o0 = o0\<lparr>opts_Nonce := n\<rparr>\<lparr>opts_Nonce := opts_Nonce o0, opts_Value := opts_Value o0\<rparr>"
    "o0 = o0\<lparr>opts_Nonce := n, opts_Value := v\<rparr>\<lparr>opts_Nonce := opts_Nonce o0, opts_Value := opts_Value o0\<rparr>" by simp_all
  then show "Transactor g acc ch = Inr o0 \<Longrightarrow> signed_from g ch acc (EvTransact c (o0\<lparr>opts_Nonce := n\<rparr>) a m args r)"
    "Transactor g acc ch = Inr o0 \<Longrightarrow> signed_from g ch acc (EvTransact c (o0\<lparr>opts_Nonce := n, opts_Value := v\<rparr>) a m args r)"
    unfolding signed_from.simps by metis+
qed

lemma locked_SignAndSend:
  assumes "b \<Longrightarrow> account_ok (d_geth d) acc" "NonceLockKey ch (address_Hex (d_geth d) (addr acc)) \<in> set H"
  shows "locked (d_geth d) b H (SignAndSend d c ch (priv acc) n dest v data gas fees) anyR"
  unfolding SignAndSend_def Let_def
  by (intro locked_case locked_ret locked_bindI_any locked_submit [of _ _ _ ch acc]) (use assms in auto)

section \<open>Managed transactions\<close>

lemma locked_managedTx:
  assumes "b \<Longrightarrow> account_ok (d_geth d) acc" "NonceLockKey ch (address_Hex (d_geth d) (addr acc)) \<in> set H"
  shows "locked (d_geth d) b H (managedTx d c ch acc dest v m args) anyR"
  unfolding managedTx_def Let_def
  by (intro locked_case locked_ret locked_bindI_any locked_calls locked_submit [of _ _ _ ch acc])
     (use assms signed_from_opts(2) in auto)

lemma locked_SendManagedTx:
  assumes "hex_addresses (d_geth d)" "b \<Longrightarrow> account_ok (d_geth d) acc"
  shows "locked (d_geth d) b [] (SendManagedTx d ch acc dest v m args) anyR"
  unfolding SendManagedTx_def
  by (intro locked_case locked_ret locked_bindI_any locked_Client locked_section locked_managedTx) (use assms in auto)

lemma locked_Deploy: "hex_addresses (d_geth d) \<Longrightarrow> locked (d_geth d) b [] (Deploy d raw) anyR"
proof -
  assume h: "hex_addresses (d_geth d)"
  have ca: "locked (d_geth d) b [] (computeAddress d ch f a salt code) anyR" for ch f a salt code
    unfolding computeAddress_def
    by (intro locked_bindE_any locked_Client locked_queries) (auto split: abival.split)
  have "locked (d_geth d) b [] (deploy d ch acc f code salt) anyR" if "b \<Longrightarrow> account_ok (d_geth d) acc" for ch acc f code salt
    unfolding deploy_def
    by (intro locked_bindI_any locked_SendManagedTx h that locked_case locked_ret) (auto split: option.split)
  then have "locked (d_geth d) b [] (performDeploy d req) anyR" for req
    unfolding performDeploy_def Let_def
    by (intro locked_bindE [OF locked_PrimaryBundler] locked_bindE_any ca locked_bindI_any locked_case locked_ret) auto
  then show ?thesis unfolding Deploy_def by (intro locked_case locked_bindI_any locked_ret) auto
qed

lemma locked_GasPool: "hex_addresses (d_geth d) \<Longrightarrow> locked (d_geth d) b [] (GasPoolTransfer d raw) anyR"
proof -
  assume h: "hex_addresses (d_geth d)"
  have "locked (d_geth d) b [] (performGasPool d req) anyR" for req
    unfolding performGasPool_def Let_def
    by (intro locked_bindE [OF locked_PrimaryBundler] locked_case locked_bindI_any locked_SendManagedTx h)
       (auto intro!: locked_bindI_any locked_ret split: option.split)
  then show ?thesis unfolding GasPoolTransfer_def by (intro locked_case locked_bindI_any locked_ret) auto
qed

section \<open>The batcher\<close>

text \<open>Below the batcher's locks, which are those of wallets, an account's lock may be held.\<close>

lemma locked_onchainSubmit:
  assumes "b \<Longrightarrow> account_ok (d_geth d) wl" "walletKey d ch wl \<in> set H"
  shows "locked (d_geth d) b H (onchainSubmit d ch wl ops) anyR"
  unfolding onchainSubmit_def Let_def
  by (intro locked_case locked_ret locked_bindI_any locked_Client locked_calls locked_submit [of _ _ _ ch wl])
     (use assms signed_from_opts(1) in auto)

lemma locked_sendUnderLock:
  assumes "hex_addresses (d_geth d)" "\<forall>h \<in> set H. rank h = 0" "b \<Longrightarrow> account_ok (d_geth d) wl"
  shows "locked (d_geth d) b H (sendUnderLock d (onchainSubmit d) ch wl ops) anyR"
  unfolding sendUnderLock_def by (intro locked_section locked_onchainSubmit assms) simp_all

lemma locked_retryEach:
  assumes "hex_addresses (d_geth d)" "\<forall>h \<in> set H. rank h = 0" "b \<Longrightarrow> account_ok (d_geth d) wl"
  shows "locked (d_geth d) b H (retryEach d (onchainSubmit d) ch wl ops) anyR"
proof (induction ops)
  case (Cons q ops)
  then show ?case unfolding retryEach.simps by (intro locked_bindI_any locked_sendUnderLock assms locked_ret) auto
qed auto

lemma locked_flush:
  assumes "hex_addresses (d_geth d)" "\<forall>h \<in> set H. rank h = 0" "b \<Longrightarrow> account_ok (d_geth d) wl"
  shows "locked (d_geth d) b H (flush d (onchainSubmit d) ch wl batch) anyR"
  unfolding flush_def
  by (intro locked_bindI_any locked_sendUnderLock locked_retryEach assms locked_case locked_if locked_ret) auto

lemma locked_detach: "(b \<Longrightarrow> task_ok g t) \<Longrightarrow> locked g b H (detach t) anyR"
  by (auto simp: locked_def io_simps wallets_ok_def intro: exI [of _ "[]"])

lemma locked_flushUntil:
  assumes "hex_addresses (d_geth d)" "\<forall>h \<in> set H. rank h = 0" "b \<Longrightarrow> account_ok (d_geth d) wl"
  shows "locked (d_geth d) b H (flushUntil d (onchainSubmit d) ch wl batch i) anyR"
  unfolding flushUntil_def
  by (intro locked_bindI_any locked_sendUnderLock locked_retryEach assms locked_case locked_if locked_ret locked_detach)
     (use assms in auto)

lemma locked_nextIndex: "locked g b H (nextIndex d k n) anyR"
proof (rule lockedI)
  fix w r w' assume r: "nextIndex d k n w = (r, w')" and w: "b \<longrightarrow> wallets_ok g w"
  have "\<exists>es. trace w' = trace w @ es \<and> lock_run g b H es = Some H"
    using r by (auto simp: nextIndex_def NextIndex_def nextIndexLocal_def wrapE_def io_simps Let_def under_lock_def
        split: sum.splits if_splits)
  moreover have "pools w' = pools w \<and> chains w' = chains w \<and> server1 w' = server1 w \<and> server2 w' = server2 w \<and> detached w' = detached w"
    using r by (auto simp: nextIndex_def NextIndex_def nextIndexLocal_def wrapE_def io_simps Let_def split: sum.splits if_splits)
  ultimately show "(\<exists>es. trace w' = trace w @ es \<and> lock_run g b H es = Some H) \<and> (b \<longrightarrow> wallets_ok g w' \<and> anyR r)"
    using w wallets_ok_same [of g w w'] by blast
qed

lemma locked_Enqueue:
  assumes "hex_addresses (d_geth d)" "\<forall>h \<in> set H. rank h = 0"
  shows "locked (d_geth d) b H (Enqueue d (onchainSubmit d) ch p) anyR"
  unfolding Enqueue_def Let_def
proof (rule locked_bindI [OF locked_queueFor], rule locked_case(1))
  fix r pool assume pool: "b \<Longrightarrow> okE (list_all (account_ok (d_geth d))) r" "r = Inr pool"
  then have wl: "b \<Longrightarrow> walletAt pool i = Inr wl \<Longrightarrow> account_ok (d_geth d) wl" for i wl
    using walletAt_ok [of "d_geth d" pool i] by simp
  show "locked (d_geth d) b H (bindI (extcall (x_CtxWait (d_ext d)) EvCtxWait) (\<lambda>done. case done of None \<Rightarrow>
     bindI (extcall (\<lambda>t. x_Batchmates (d_ext d) t ch) (EvBatchmates ch)) (\<lambda>(ahead, behind).
     bindI (extcall (x_CtxWait (d_ext d)) EvCtxWait) (\<lambda>done. case done of None \<Rightarrow>
            bindI (nextIndex d (FormatInt ch) (length pool)) (\<lambda>i. case walletAt pool i of Inl e \<Rightarrow> ret ([], Some e)
              | Inr wallet \<Rightarrow> flushUntil d (onchainSubmit d) ch wallet
                  (fst (drain (take (maxBatchSize - 1) ahead @ [p]) behind)) (length (take (maxBatchSize - 1) ahead)))
        | Some e \<Rightarrow> bindI (detach (Round ch pool (fst (drain (take (maxBatchSize - 1) ahead @ [p]) behind)))) (\<lambda>_. ret ([], Some e))))
      | Some e \<Rightarrow> ret ([], Some e))) anyR"
    by (intro locked_bindI_any locked_calls locked_case locked_ret locked_nextIndex locked_flushUntil locked_detach assms TrueI)
       (use wl pool in auto)
qed auto

lemma locked_run_task:
  assumes "hex_addresses (d_geth d)" "b \<Longrightarrow> task_ok (d_geth d) t"
  shows "locked (d_geth d) b [] (run_task d (onchainSubmit d) t) anyR"
proof (cases t)
  case (Round ch pool batch)
  then have "b \<Longrightarrow> walletAt pool i = Inr wl \<Longrightarrow> account_ok (d_geth d) wl" for i wl
    using walletAt_ok [of "d_geth d" pool i] assms(2) by simp
  with Round show ?thesis
    by (auto simp: dispatchBatch_def intro!: locked_bindI_any locked_nextIndex locked_case locked_ret locked_flush assms(1))
next
  case (Retries ch wl batch)
  with assms show ?thesis by (auto intro: locked_retryEach)
qed

lemma locked_RPC:
  assumes "hex_addresses (d_geth d)"
  shows "locked (d_geth d) b [] (RPC d (onchainSubmit d) body p) anyR"
proof -
  have "locked (d_geth d) b [] (handleSendUserOp d (onchainSubmit d) req ch) anyR" for req ch
    unfolding handleSendUserOp_def
    by (auto intro!: locked_bindI_any locked_Enqueue locked_ret split: sum.split option.split prod.split list.split simp: assms)
  then have "locked (d_geth d) b [] (handleRPC d (onchainSubmit d) bd n) anyR" for bd n
    unfolding handleRPC_def Let_def by (intro locked_if locked_case locked_ret TrueI)
  then show ?thesis unfolding RPC_def Let_def by (intro locked_if locked_case locked_bindI_any locked_ret TrueI)
qed

section \<open>Transfers\<close>

lemma locked_account:
  assumes "hex_addresses (d_geth d)"
  shows "locked (d_geth d) b [] (sendViaAccount d (onchainSubmit d) ch src dest v data) anyR"
proof -
  have "locked (d_geth d) b [accountLockKey ch (address_Hex (d_geth d) src)]
      (accountTx d (onchainSubmit d) c ch s1 s2 src dest v data) anyR" for c s1 s2
    unfolding accountTx_def
    by (auto intro!: locked_bindI_any locked_calls locked_queries locked_Enqueue locked_ret split: sum.split abival.split simp: assms)
  then show ?thesis unfolding sendViaAccount_def
    by (auto intro!: locked_bindE_any locked_Client locked_weaken [OF locked_ServerKey1] locked_weaken [OF locked_ServerKey2]
        locked_bindI_any locked_WithNonceLock locked_ret split: option.split)
qed

lemma locked_walletTx:
  assumes "b \<Longrightarrow> account_ok (d_geth d) acc" "NonceLockKey ch (address_Hex (d_geth d) (addr acc)) \<in> set H"
  shows "locked (d_geth d) b H (walletTx d c ch acc msg lo fb v) anyR"
  unfolding walletTx_def signAndSend_def
  by (intro locked_bindI_any locked_queries locked_case locked_ret locked_calls locked_SignAndSend) (use assms in auto)

lemma locked_wallet:
  assumes "hex_addresses (d_geth d)"
  shows "locked (d_geth d) b [] (SendNative d ch src dest v) anyR" "locked (d_geth d) b [] (SendErc20 d ch src token dest v) anyR"
  unfolding SendNative_def SendErc20_def
  by (rule locked_bindE [OF locked_resolveSourceWallet];
      auto intro!: locked_bindE_any locked_Client locked_ret locked_bindI_any locked_section locked_walletTx assms
        split: option.split)+

lemma locked_Transfer: "hex_addresses (d_geth d) \<Longrightarrow> locked (d_geth d) b [] (Transfer d (onchainSubmit d) raw) anyR"
proof -
  assume h: "hex_addresses (d_geth d)"
  have "locked (d_geth d) b [] (performTransfer d (onchainSubmit d) req) anyR" for req
    by (cases req) (auto simp: SendViaAccountNative_def SendViaAccountErc20_def
        intro!: locked_bindE_any locked_ret locked_account [OF h] locked_wallet [OF h])
  then show ?thesis unfolding Transfer_def by (auto intro!: locked_bindI_any locked_ret split: sum.split)
qed

section \<open>Settlements\<close>

lemma split_ok_signed:
  assumes "split_ok d c p router rel s1 s2 seen e"
  shows "signed_from (d_geth d) (p_ChainID p) rel e"
  using assms unfolding split_ok_def approval_ok_def settle_ok_def settles_def approves_def carries_def by auto

lemma vetted_each: "vetted ok seen es \<Longrightarrow> e \<in> set es \<Longrightarrow> submission e \<Longrightarrow> \<exists>seen. ok seen e"
  by (induction es arbitrary: seen) auto

lemma locked_splitSection:
  assumes "b \<Longrightarrow> account_ok (d_geth d) rel" "NonceLockKey (p_ChainID p) (address_Hex (d_geth d) (addr rel)) \<in> set H"
  shows "locked (d_geth d) b H (closure (splitSection d c p router rel s1 s2)) anyR"
proof -
  have "locked (d_geth d) b H (splitSection d c p router rel s1 s2) anyR"
  proof (rule locked_runs [OF splitSection_runs])
    fix r es assume st: "settled d c p router rel s1 s2 r es"
    have "under_lock (d_geth d) H e" if b and "e \<in> set es" for e
      unfolding under_lock_def using vetted_each [OF settled_vetted(1) [OF st] that(2)] split_ok_signed assms that(1) by blast
    with settled_vetted(2) [OF st]
    show "list_all (\<lambda>e. \<not> mutex_event e \<and> (b \<longrightarrow> under_lock (d_geth d) H e)) es \<and> (b \<longrightarrow> anyR r)"
      by (auto simp: list_all_iff)
  qed
  then show ?thesis unfolding closure_def by (intro locked_bindI_any locked_case locked_ret) auto
qed

lemma locked_Execute: "hex_addresses (d_geth d) \<Longrightarrow> locked (d_geth d) b [] (ExecuteHandler d raw) anyR"
proof -
  assume h: "hex_addresses (d_geth d)"
  have "locked (d_geth d) b [] (Execute d p) anyR" for p
    unfolding Execute_def Let_def
    by (intro locked_bindE_any [OF locked_ret(4)] locked_if locked_ret locked_bindE [OF locked_relayer] TrueI;
        intro locked_bindE_any [OF locked_weaken [OF locked_ServerKey1]] locked_bindE_any [OF locked_weaken [OF locked_ServerKey2]]
          locked_bindE_any [OF locked_ret(4)] locked_bindE_any [OF locked_Client] locked_bindI_any locked_section locked_splitSection
          locked_case locked_ret h TrueI)
       auto
  then show ?thesis unfolding ExecuteHandler_def by (auto intro!: locked_bindI_any locked_ret split: sum.split)
qed

section \<open>Requests\<close>

lemma locked_serve: "hex_addresses (d_geth d) \<Longrightarrow> locked (d_geth d) b [] (serve d rq) anyR"
proof -
  assume h: "hex_addresses (d_geth d)"
  have "locked (d_geth d) b [] (handle d rq e) anyR" for e
    by (cases e) (auto intro!: locked_bindI_any locked_ret locked_Deploy locked_Transfer locked_GasPool locked_Execute locked_RPC h)
  then show ?thesis unfolding serve_def by (auto intro: locked_ret split: sum.split)
qed

text \<open>The events of a request, and where it stands before one of them.\<close>

definition request_events :: "deps \<Rightarrow> http_request \<Rightarrow> world \<Rightarrow> trace" where
  "request_events d rq w = new_events w (snd (serve d rq w))"

lemma request_run: "hex_addresses (d_geth d) \<Longrightarrow> lock_run (d_geth d) False [] (request_events d rq w) = Some []"
  using locked_serve [of d False rq] unfolding locked_def request_events_def by (metis new_events_append)

text \<open>
  What a goroutine does with the nonce locks: every transaction is signed by an account whose own
  nonce lock, for the chain it is signed for, is held; no lock is taken that is not above all
  locks held; in the end none is held.
\<close>

definition keeps_locks :: "geth \<Rightarrow> trace \<Rightarrow> bool" where
  "keeps_locks g es \<longleftrightarrow>
     (\<forall>pre e post. es = pre @ e # post \<longrightarrow> submission e \<longrightarrow>
        (\<exists>ch acc. signed_from g ch acc e \<and> addr acc = crypto_PubkeyToAddress g (priv acc)
           \<and> held (NonceLockKey ch (address_Hex g (addr acc))) False pre))
     \<and> (\<forall>pre k post. es = pre @ EvLock k # post \<longrightarrow> (\<forall>h. held h False pre \<longrightarrow> rank h < rank k))
     \<and> (\<forall>k. \<not> held k False es)"

lemma lock_run_keeps:
  assumes "lock_run g True [] es = Some []"
  shows "keeps_locks g es"
  unfolding keeps_locks_def
proof (intro conjI allI impI)
  fix pre e post assume r: "es = pre @ e # post" and e: "submission e"
  from lock_run_split [OF assms [unfolded r]] obtain H where H: "lock_run g True H (e # post) = Some []"
    "\<forall>k. held k False pre \<longleftrightarrow> k \<in> set H" .
  from e have "\<not> mutex_event e" by (cases e) auto
  with H(1) have "under_lock g H e" by (simp add: lock_run_other split: if_splits)
  with e H(2) show "\<exists>ch acc. signed_from g ch acc e \<and> addr acc = crypto_PubkeyToAddress g (priv acc)
      \<and> held (NonceLockKey ch (address_Hex g (addr acc))) False pre"
    unfolding under_lock_def account_ok_def by blast
next
  fix pre k post h assume r: "es = pre @ EvLock k # post" and h: "held h False pre"
  from lock_run_split [OF assms [unfolded r]] obtain H where "lock_run g True H (EvLock k # post) = Some []"
    "\<forall>k. held k False pre \<longleftrightarrow> k \<in> set H" .
  with h show "rank h < rank k" by (simp split: if_splits)
next
  fix k show "\<not> held k False es" using lock_run_held [OF assms, where k = k] by simp
qed

text \<open>
  C3: whatever a request asks for and whatever the nodes, redis, the KMS and the clock do, every
  transaction it sends is signed by an account whose own nonce lock, for the chain it is signed
  for, the request holds at that moment; no lock is taken that is not above all locks held, and
  in the end every lock taken has been released. The same holds of every flush goroutine that
  the request leaves behind, in whatever state it comes to run.
\<close>

theorem request_locks:
  assumes "hex_addresses (d_geth d)" "wallets_ok (d_geth d) w" "serve d rq w = (resp, w')"
  shows "keeps_locks (d_geth d) (new_events w w') \<and> wallets_ok (d_geth d) w'
    \<and> (\<forall>t u r u'. t \<in> set (detached w') \<longrightarrow> wallets_ok (d_geth d) u \<longrightarrow>
         run_task d (onchainSubmit d) t u = (r, u') \<longrightarrow> keeps_locks (d_geth d) (new_events u u'))"
proof (intro conjI allI impI)
  from lockedE [OF locked_serve [OF assms(1), of True] assms(3)] assms(2) obtain es where es: "trace w' = trace w @ es"
    "lock_run (d_geth d) True [] es = Some []" and ok: "wallets_ok (d_geth d) w'" by blast
  then show "keeps_locks (d_geth d) (new_events w w')" by (simp add: new_events_append lock_run_keeps)
  show "wallets_ok (d_geth d) w'" by (rule ok)
  fix t u r u' assume t: "t \<in> set (detached w')" and u: "wallets_ok (d_geth d) u" and r: "run_task d (onchainSubmit d) t u = (r, u')"
  from ok t have "task_ok (d_geth d) t" by (auto simp: wallets_ok_def list_all_iff)
  with lockedE [OF locked_run_task [OF assms(1), of True t] r] u obtain fs where "trace u' = trace u @ fs"
    "lock_run (d_geth d) True [] fs = Some []" by blast
  then show "keeps_locks (d_geth d) (new_events u u')" by (simp add: new_events_append lock_run_keeps)
qed

text \<open>
  C4: requests cannot deadlock on nonce locks. Of any finite set of requests, of any processes
  and in any states, each of which is about to take a lock, at least one wants a lock that none
  of them holds.
\<close>

theorem requests_cannot_deadlock:
  assumes "finite G" "G \<noteq> {}"
    and "\<forall>i \<in> G. hex_addresses (d_geth (ds i)) \<and> request_events (ds i) (rqs i) (ws i) = pre i @ EvLock (want i) # post i"
  shows "\<exists>i \<in> G. \<forall>j \<in> G. \<not> held (want i) False (pre j)"
proof -
  let ?r = "Max ((\<lambda>i. rank (want i)) ` G)"
  have "?r \<in> (\<lambda>i. rank (want i)) ` G" using assms(1,2) by (intro Max_in) auto
  then obtain i where i: "i \<in> G" "rank (want i) = ?r" by (metis imageE)
  have "\<not> held (want i) False (pre j)" if j: "j \<in> G" for j
  proof
    assume h: "held (want i) False (pre j)"
    from assms(3) j have hx: "hex_addresses (d_geth (ds j))"
      and ev: "request_events (ds j) (rqs j) (ws j) = pre j @ EvLock (want j) # post j" by blast+
    from lock_run_split [OF request_run [OF hx, of "rqs j" "ws j", unfolded ev]] obtain H where
      "lock_run (d_geth (ds j)) False H (EvLock (want j) # post j) = Some []"
      "\<forall>k. held k False (pre j) \<longleftrightarrow> k \<in> set H" .
    with h have "rank (want i) < rank (want j)" by (simp split: if_splits)
    moreover have "rank (want j) \<le> ?r" using assms(1) j by (intro Max_ge) auto
    ultimately show False using i(2) by simp
  qed
  with i(1) show ?thesis by blast
qed

section \<open>Witnesses\<close>

text \<open>A request that pays from an account: the lock of the account, and inside it that of the wallet.\<close>

definition account_request :: http_request where
  "account_request = \<lparr>req_Method = ''POST'', req_Path = [''api'', ''transfer''], req_BodyOk = True,
     req_JSON = \<lambda>n. Some demo_transfer\<rparr>"

lemma hex_demo: "hex_addresses (d_geth (demo_service x))"
proof -
  have "CHR '':'' \<notin> set (decNat n)" for n by (auto dest!: decNat_digits simp: isDigit_def)
  then show ?thesis by (simp add: hex_addresses_def demo_service_def opaque_geth_def)
qed

lemma account_request_served:
  "\<exists>w'. serve (demo_service (mining_ext 1)) account_request keyed_world = (TransferResp (200, OkBody \<lparr>TxHash = ''0xaa'', From = address_Hex opaque_geth 42\<rparr>), w')
     \<and> withdrawn (demo_service (mining_ext 1)) 1 42 42 100 [] keyed_world ''0xaa'' w'"
proof -
  let ?d = "demo_service (mining_ext 1)"
  obtain w' where k: "sendViaAccount ?d (onchainSubmit ?d) 1 42 42 100 [] keyed_world
      = (Inr \<lparr>TxHash = ''0xaa'', From = address_Hex opaque_geth 42\<rparr>, w')" using keyed_demo by blast
  have "route ''POST'' [''api'', ''transfer''] = Inr TransferApi" by code_simp
  then have "serve ?d account_request keyed_world = (TransferResp (200, OkBody \<lparr>TxHash = ''0xaa'', From = address_Hex opaque_geth 42\<rparr>), w')"
    by (simp add: serve_def account_request_def Transfer_def checkTransfer_demo SendViaAccountNative_def k io_simps
        respond_def WriteJSON_def)
  with sendViaAccount_withdrawn [OF k] show ?thesis by auto
qed

lemma account_request_locks:
  "\<exists>pre post. request_events (demo_service (mining_ext 1)) account_request keyed_world
     = pre @ EvLock (accountLockKey 1 (address_Hex opaque_geth 42)) # post
     \<and> (\<exists>a e b. post = a @ e # b \<and> submission e)"
proof -
  obtain w' where s: "serve (demo_service (mining_ext 1)) account_request keyed_world = (TransferResp (200, OkBody \<lparr>TxHash = ''0xaa'', From = address_Hex opaque_geth 42\<rparr>), w')"
    and wd: "withdrawn (demo_service (mining_ext 1)) 1 42 42 100 [] keyed_world ''0xaa'' w'" using account_request_served by blast
  have g: "d_geth (demo_service (mining_ext 1)) = opaque_geth" by (simp add: demo_service_def)
  have ev: "request_events (demo_service (mining_ext 1)) account_request keyed_world = new_events keyed_world w'"
    by (simp add: request_events_def s)
  from wd obtain ops pre noise c n es post where r: "new_events keyed_world w' = pre @ EvLock (accountLockKey 1 (address_Hex opaque_geth 42)) # noise
            @ EvCall c 42 ''nonce'' [] (Inr (VUint n)) # es @ post" and m: "mined_in es ops ''0xaa''"
    unfolding withdrawn_def g by blast
  from m obtain c2 opts ep where "EvTransact c2 opts ep ''handleOps'' [VList (map packOp ops), VAddress 0] (Inr ''0xaa'') \<in> set es"
    unfolding mined_in_def by blast
  then obtain e a b where e: "submission e" "es = a @ e # b" by (metis split_list submission.simps(1))
  show ?thesis unfolding ev r e(2)
    by (rule exI [of _ pre], rule exI [of _ "noise @ EvCall c 42 ''nonce'' [] (Inr (VUint n)) # (a @ e # b) @ post"], intro conjI refl,
        rule exI [of _ "noise @ EvCall c 42 ''nonce'' [] (Inr (VUint n)) # a"], rule exI [of _ e], rule exI [of _ "b @ post"])
       (simp add: e(1))
qed

theorem request_locks_witness:
  "\<exists>resp w' pre e post. serve (demo_service (mining_ext 1)) account_request keyed_world = (resp, w')
     \<and> new_events keyed_world w' = pre @ e # post \<and> submission e
     \<and> (\<exists>ch acc. signed_from opaque_geth ch acc e \<and> held (NonceLockKey ch (address_Hex opaque_geth (addr acc))) False pre)"
proof -
  obtain pre post a e b where "request_events (demo_service (mining_ext 1)) account_request keyed_world
      = pre @ EvLock (accountLockKey 1 (address_Hex opaque_geth 42)) # post" "post = a @ e # b" and e: "submission e"
    using account_request_locks by blast
  then have r: "request_events (demo_service (mining_ext 1)) account_request keyed_world
      = (pre @ EvLock (accountLockKey 1 (address_Hex opaque_geth 42)) # a) @ e # b" (is "_ = ?pre @ e # b") by simp
  obtain resp w' where s: "serve (demo_service (mining_ext 1)) account_request keyed_world = (resp, w')" by fastforce
  with r have ev: "new_events keyed_world w' = ?pre @ e # b" by (simp add: request_events_def)
  have g: "d_geth (demo_service (mining_ext 1)) = opaque_geth" by (simp add: demo_service_def)
  have "wallets_ok opaque_geth keyed_world"
    by (simp add: wallets_ok_def keyed_world_def demo_world_def account_ok_def opaque_geth_def)
  with request_locks [OF hex_demo _ s] have "keeps_locks opaque_geth (new_events keyed_world w')" unfolding g by blast
  with ev e have "\<exists>ch acc. signed_from opaque_geth ch acc e \<and> held (NonceLockKey ch (address_Hex opaque_geth (addr acc))) False ?pre"
    unfolding keeps_locks_def by blast
  with s ev e show ?thesis by blast
qed

theorem requests_cannot_deadlock_witness:
  "\<exists>pre post. request_events (demo_service (mining_ext 1)) account_request keyed_world
     = pre @ EvLock (accountLockKey 1 (address_Hex opaque_geth 42)) # post
     \<and> \<not> held (accountLockKey 1 (address_Hex opaque_geth 42)) False pre"
proof -
  obtain pre post where r: "request_events (demo_service (mining_ext 1)) account_request keyed_world
      = pre @ EvLock (accountLockKey 1 (address_Hex opaque_geth 42)) # post" using account_request_locks by blast
  from requests_cannot_deadlock [of "{0, 1 :: nat}" "\<lambda>_. demo_service (mining_ext 1)" "\<lambda>_. account_request" "\<lambda>_. keyed_world"
      "\<lambda>_. pre" "\<lambda>_. accountLockKey 1 (address_Hex opaque_geth 42)" "\<lambda>_. post"] r hex_demo show ?thesis by auto
qed

end
