(* ===== verification/Shutdown.thy ===== *)
theory Shutdown
  imports Lock_Order Lock_Protocol
begin

text \<open>
  The life of the process after start-up, \<open>main\<close> of \<open>cmd/bundler\<close>: the goroutine that listens, the
  signal that ends the context, the requests under way, each in its own goroutine, the flush
  goroutines of the batcher they leave behind, and \<open>Shutdown\<close> of the HTTP server with its
  timeout. \<open>Shutdown\<close> has its documented behaviour: it closes the listener, returns when no
  connection is busy any more, or with an error when its time is up; a server that is shut down
  refuses to listen. It does not wait for flush goroutines, and neither does \<open>main\<close>.
\<close>

section \<open>Goroutines\<close>

text \<open>
  The run of a handler: its request, the answers the outside gives in it, the state of the
  process it finds, its response, and the state it would leave alone; and the run of a flush
  goroutine. Other goroutines act in between, so the state it finds is any state.
\<close>

datatype goroutine_run = Handler http_request ext world response world | Flusher flush_task ext world world

fun run_of :: "deps \<Rightarrow> goroutine_run \<Rightarrow> bool" where
  "run_of d (Handler rq x w r w') \<longleftrightarrow> serve (d\<lparr>d_ext := x\<rparr>) rq w = (r, w')"
| "run_of d (Flusher t x w w') \<longleftrightarrow> snd (run_task (d\<lparr>d_ext := x\<rparr>) (onchainSubmit (d\<lparr>d_ext := x\<rparr>)) t w) = w'"

fun run_events :: "goroutine_run \<Rightarrow> trace" where
  "run_events (Handler rq x w r w') = new_events w w'"
| "run_events (Flusher t x w w') = new_events w w'"

text \<open>The flush goroutines that a handler leaves behind.\<close>

definition left_tasks :: "world \<Rightarrow> world \<Rightarrow> flush_task list" where
  "left_tasks w w' = drop (length (detached w)) (detached w')"

section \<open>Steps\<close>

datatype listener_pc = Starting | Listening | Closed

text \<open>\<open>Draining n\<close> has \<open>n\<close> seconds left; \<open>Exited\<close> tells whether \<open>Shutdown\<close> returned without an error.\<close>

datatype main_phase = Serving | Draining nat | Exited bool

text \<open>The timeout of the shutdown context, in seconds.\<close>

definition shutdownTimeout :: nat where
  "shutdownTimeout = 10"

text \<open>
  \<open>ctxDone\<close>: the context of \<open>signal.NotifyContext\<close> has ended. \<open>routines\<close> are the goroutines started
  so far, \<open>todo\<close> the events each has still to make, \<open>elog\<close> the events made, with their goroutines, in
  the order in which they happened. \<open>tasks\<close> are the flush goroutines left behind that have not
  begun, \<open>answers\<close> the answers given.
\<close>

record main_state =
  listener :: listener_pc
  ctxDone :: bool
  phase :: main_phase
  routines :: "nat \<rightharpoonup> goroutine_run"
  todo :: "nat \<Rightarrow> trace"
  elog :: "(nat \<times> event) list"
  tasks :: "flush_task list"
  answers :: "(nat \<times> response) list"

definition running :: "main_state \<Rightarrow> bool" where
  "running s \<longleftrightarrow> (case phase s of Exited _ \<Rightarrow> False | _ \<Rightarrow> True)"

definition made :: "nat \<Rightarrow> main_state \<Rightarrow> trace" where
  "made i s = map snd (filter (\<lambda>(j, e). j = i) (elog s))"

text \<open>The goroutine is between its \<open>Lock\<close> and its \<open>Unlock\<close> of the mutex.\<close>

definition holds :: "main_state \<Rightarrow> nat \<Rightarrow> string \<Rightarrow> bool" where
  "holds s i k \<longleftrightarrow> held k False (made i s)"

definition accepted :: "main_state \<Rightarrow> nat set" where
  "accepted s = {i. \<exists>rq x w r w'. routines s i = Some (Handler rq x w r w')}"

definition replied :: "main_state \<Rightarrow> nat set" where
  "replied s = fst ` set (answers s)"

text \<open>
  \<open>act\<close> is the next event of any goroutine; one that takes a lock waits until nobody holds it.
  A request is answered when its handler has returned. \<open>drained\<close>: no request is under way;
  flush goroutines may be.
\<close>

inductive main_step :: "deps \<Rightarrow> main_state \<Rightarrow> main_state \<Rightarrow> bool" for d where
  listen: "main_step d s (s\<lparr>listener := Listening\<rparr>)" if "listener s = Starting" "phase s = Serving"
| listen_refused: "main_step d s (s\<lparr>listener := Closed\<rparr>)" if "listener s = Starting" "phase s = Draining n"
| listen_failed: "main_step d s (s\<lparr>listener := Closed, ctxDone := True\<rparr>)" if "listener s \<noteq> Closed" "phase s = Serving"
| interrupt: "main_step d s (s\<lparr>ctxDone := True\<rparr>)" if "running s"
| accept: "main_step d s (s\<lparr>routines := (routines s)(i \<mapsto> Handler rq x w r w'), todo := (todo s)(i := new_events w w'),
       tasks := tasks s @ left_tasks w w'\<rparr>)"
    if "listener s = Listening" "routines s i = None" "run_of d (Handler rq x w r w')"
| start_task: "main_step d s (s\<lparr>routines := (routines s)(i \<mapsto> Flusher t x w w'), todo := (todo s)(i := new_events w w'),
       tasks := remove1 t (tasks s)\<rparr>)"
    if "running s" "t \<in> set (tasks s)" "routines s i = None" "run_of d (Flusher t x w w')"
| act: "main_step d s (s\<lparr>todo := (todo s)(i := es), elog := elog s @ [(i, e)]\<rparr>)"
    if "running s" "todo s i = e # es" "\<forall>k. e = EvLock k \<longrightarrow> (\<forall>j. \<not> holds s j k)"
| answer: "main_step d s (s\<lparr>answers := answers s @ [(i, r)]\<rparr>)"
    if "running s" "routines s i = Some (Handler rq x w r w')" "todo s i = []" "i \<notin> replied s"
| shut: "main_step d s (s\<lparr>phase := Draining shutdownTimeout, listener := (if listener s = Listening then Closed else listener s)\<rparr>)"
    if "phase s = Serving" "ctxDone s"
| second: "main_step d s (s\<lparr>phase := Draining n\<rparr>)" if "phase s = Draining (Suc n)"
| drained: "main_step d s (s\<lparr>phase := Exited True\<rparr>)" if "phase s = Draining n" "accepted s \<subseteq> replied s"
| overdue: "main_step d s (s\<lparr>phase := Exited False\<rparr>)" if "phase s = Draining 0"

inductive_cases main_stepE: "main_step d s t"

definition main_init :: "main_state \<Rightarrow> bool" where
  "main_init s \<longleftrightarrow> s = \<lparr>listener = Starting, ctxDone = False, phase = Serving, routines = Map.empty, todo = (\<lambda>_. []),
     elog = [], tasks = [], answers = []\<rparr>"

section \<open>Invariant\<close>

definition phase_inv :: "main_state \<Rightarrow> bool" where
  "phase_inv s \<longleftrightarrow> (phase s \<noteq> Serving \<longrightarrow> ctxDone s \<and> listener s \<noteq> Listening)
     \<and> (\<forall>n. phase s = Draining n \<longrightarrow> n \<le> shutdownTimeout) \<and> (phase s = Exited True \<longrightarrow> accepted s \<subseteq> replied s)"

text \<open>What a goroutine has made and what it has still to make are the events of a run of its code.\<close>

definition runs_inv :: "deps \<Rightarrow> main_state \<Rightarrow> bool" where
  "runs_inv d s \<longleftrightarrow> finite (dom (routines s)) \<and> (\<forall>i. case routines s i of
     None \<Rightarrow> made i s = [] \<and> todo s i = []
   | Some a \<Rightarrow> run_of d a \<and> made i s @ todo s i = run_events a)"

definition answers_inv :: "main_state \<Rightarrow> bool" where
  "answers_inv s \<longleftrightarrow> distinct (map fst (answers s)) \<and> (\<forall>(i, r) \<in> set (answers s).
     todo s i = [] \<and> (\<exists>rq x w w'. routines s i = Some (Handler rq x w r w')))"

definition main_inv :: "deps \<Rightarrow> main_state \<Rightarrow> bool" where
  "main_inv d s \<longleftrightarrow> phase_inv s \<and> runs_inv d s \<and> answers_inv s"

lemma made_simps [simp]:
  "made i (s\<lparr>listener := a\<rparr>) = made i s" "made i (s\<lparr>ctxDone := b\<rparr>) = made i s" "made i (s\<lparr>phase := p\<rparr>) = made i s"
  "made i (s\<lparr>routines := f\<rparr>) = made i s" "made i (s\<lparr>todo := g\<rparr>) = made i s" "made i (s\<lparr>tasks := ts\<rparr>) = made i s"
  "made i (s\<lparr>answers := rs\<rparr>) = made i s"
  "made i (s\<lparr>elog := elog s @ [(j, e)]\<rparr>) = (if j = i then made i s @ [e] else made i s)"
  by (simp_all add: made_def)

lemma runs_invD:
  "runs_inv d s \<Longrightarrow> routines s i = None \<Longrightarrow> made i s = [] \<and> todo s i = []"
  "runs_inv d s \<Longrightarrow> routines s i = Some a \<Longrightarrow> run_of d a \<and> made i s @ todo s i = run_events a"
  "runs_inv d s \<Longrightarrow> finite (dom (routines s))"
  unfolding runs_inv_def by (auto dest: spec [of _ i])

lemma phase_inv_step: "main_step d s t \<Longrightarrow> phase_inv s \<Longrightarrow> phase_inv t"
  by (induction rule: main_step.induct)
     (auto simp: phase_inv_def running_def accepted_def replied_def split: main_phase.splits)

lemma runs_inv_start:
  assumes inv: "runs_inv d s" and new: "routines s i = None" "run_of d a"
    and t: "routines t = (routines s)(i \<mapsto> a)" "todo t = (todo s)(i := run_events a)" "elog t = elog s"
  shows "runs_inv d t"
  unfolding runs_inv_def
proof (intro conjI allI)
  show "finite (dom (routines t))" using runs_invD(3) [OF inv] t(1) by simp
  have m: "made j t = made j s" for j using t(3) by (simp add: made_def)
  fix j
  show "case routines t j of None \<Rightarrow> made j t = [] \<and> todo t j = []
    | Some a \<Rightarrow> run_of d a \<and> made j t @ todo t j = run_events a"
  proof (cases "j = i")
    case True
    with runs_invD(1) [OF inv new(1)] new(2) t m show ?thesis by simp
  next
    case False
    with runs_invD(1,2) [OF inv, of j] t m show ?thesis by (simp split: option.split)
  qed
qed

lemma runs_inv_same:
  "runs_inv d s \<Longrightarrow> routines t = routines s \<Longrightarrow> todo t = todo s \<Longrightarrow> elog t = elog s \<Longrightarrow> runs_inv d t"
  by (simp add: runs_inv_def made_def cong: option.case_cong)

lemma runs_inv_step:
  assumes "main_step d s t" "runs_inv d s"
  shows "runs_inv d t"
  using assms(1)
proof cases
  case (act i e es)
  have "case routines s j of None \<Rightarrow> made j t = [] \<and> todo t j = []
      | Some a \<Rightarrow> run_of d a \<and> made j t @ todo t j = run_events a" for j
  proof -
    from assms(2) have j: "case routines s j of None \<Rightarrow> made j s = [] \<and> todo s j = []
      | Some a \<Rightarrow> run_of d a \<and> made j s @ todo s j = run_events a" unfolding runs_inv_def by blast
    show ?thesis
    proof (cases "j = i")
      case True
      with j act show ?thesis by (cases "routines s i") (auto simp: made_def)
    next
      case False
      with j act show ?thesis by (auto simp: made_def split: option.splits)
    qed
  qed
  with assms(2) act(1) show ?thesis unfolding runs_inv_def by simp
next
  case (accept i rq x w r w')
  show ?thesis by (rule runs_inv_start [OF assms(2) accept(3,4)]) (simp_all add: accept(1))
next
  case (start_task t' i x w w')
  show ?thesis by (rule runs_inv_start [OF assms(2) start_task(4,5)]) (simp_all add: start_task(1))
qed (rule runs_inv_same [OF assms(2)]; simp)+

lemma answers_inv_step:
  assumes "main_step d s t" "answers_inv s"
  shows "answers_inv t"
  using assms by cases (fastforce simp: answers_inv_def replied_def)+

interpretation sd: invariant_system main_init "main_step d" "main_inv d" for d
proof unfold_locales
  fix s assume "main_init s"
  then show "main_inv d s"
    by (simp add: main_init_def main_inv_def phase_inv_def runs_inv_def answers_inv_def made_def)
next
  fix s t assume "main_inv d s" "main_step d s t"
  then show "main_inv d t"
    unfolding main_inv_def using phase_inv_step runs_inv_step answers_inv_step by blast
qed

section \<open>Progress\<close>

lemma run_locks:
  assumes "run_of d a" "hex_addresses (d_geth d)"
  shows "lock_run (d_geth d) False [] (run_events a) = Some []"
proof (cases a)
  case (Handler rq x w r w')
  with assms(1) have "w' = snd (serve (d\<lparr>d_ext := x\<rparr>) rq w)" by simp
  with request_run [of "d\<lparr>d_ext := x\<rparr>" rq w] assms(2) Handler show ?thesis by (simp add: request_events_def)
next
  case (Flusher t x w w')
  have "locked (d_geth (d\<lparr>d_ext := x\<rparr>)) False [] (run_task (d\<lparr>d_ext := x\<rparr>) (onchainSubmit (d\<lparr>d_ext := x\<rparr>)) t) anyR"
    by (rule locked_run_task) (use assms(2) in simp_all)
  then obtain es where "trace (snd (run_task (d\<lparr>d_ext := x\<rparr>) (onchainSubmit (d\<lparr>d_ext := x\<rparr>)) t w)) = trace w @ es"
    "lock_run (d_geth d) False [] es = Some []" unfolding locked_def by auto
  with assms(1) Flusher show ?thesis by (auto simp: new_events_append)
qed

lemma returned_holds_nothing:
  assumes "runs_inv d s" "hex_addresses (d_geth d)" "todo s i = []"
  shows "\<not> holds s i k"
proof (cases "routines s i")
  case None
  with runs_invD(1) [OF assms(1)] have "made i s = []" by blast
  then show ?thesis by (simp add: holds_def)
next
  case (Some a)
  with runs_invD(2) [OF assms(1)] assms(3) have "run_of d a" "made i s = run_events a" by fastforce+
  with lock_run_held [OF run_locks [OF _ assms(2)], of a k] show ?thesis by (simp add: holds_def)
qed

text \<open>Of the goroutines under way one at least can act: the one that wants the highest lock.\<close>

lemma some_routine_acts:
  assumes inv: "runs_inv d s" and hex: "hex_addresses (d_geth d)" and left: "todo s i \<noteq> []"
  shows "\<exists>j e es. todo s j = e # es \<and> (\<forall>k. e = EvLock k \<longrightarrow> (\<forall>m. \<not> holds s m k))"
proof (rule ccontr)
  assume no: "\<nexists>j e es. todo s j = e # es \<and> (\<forall>k. e = EvLock k \<longrightarrow> (\<forall>m. \<not> holds s m k))"
  let ?A = "{j. todo s j \<noteq> []}"
  have blocked: "\<forall>j \<in> ?A. \<exists>k es. todo s j = EvLock k # es \<and> (\<exists>m. holds s m k)"
  proof
    fix j assume "j \<in> ?A"
    then obtain e es where "todo s j = e # es" by (auto simp: neq_Nil_conv)
    with no show "\<exists>k es. todo s j = EvLock k # es \<and> (\<exists>m. holds s m k)" by blast
  qed
  define want where "want j = (case hd (todo s j) of EvLock k \<Rightarrow> k | _ \<Rightarrow> [])" for j
  have want: "\<exists>es. todo s j = EvLock (want j) # es \<and> (\<exists>m. holds s m (want j))" if "j \<in> ?A" for j
    using bspec [OF blocked that] by (auto simp: want_def)
  have "?A \<subseteq> dom (routines s)" using runs_invD(1) [OF inv] by blast
  with runs_invD(3) [OF inv] have fin: "finite ?A" by (rule rev_finite_subset)
  let ?r = "Max ((\<lambda>j. Lock_Discipline.rank (want j)) ` ?A)"
  have "?r \<in> (\<lambda>j. Lock_Discipline.rank (want j)) ` ?A" using left by (intro Max_in finite_imageI [OF fin]) blast
  then obtain j where j: "?r = Lock_Discipline.rank (want j)" "j \<in> ?A" by (rule imageE)
  from want [OF j(2)] obtain m where m: "holds s m (want j)" by blast
  then have mA: "m \<in> ?A" using returned_holds_nothing [OF inv hex] by blast
  then obtain a where a: "run_of d a" "made m s @ todo s m = run_events a"
    using runs_invD(1,2) [OF inv, of m] by (cases "routines s m") auto
  from want [OF mA] obtain es where "todo s m = EvLock (want m) # es" by blast
  with a(2) have ev: "run_events a = made m s @ EvLock (want m) # es" by simp
  from lock_run_split [OF run_locks [OF a(1) hex, unfolded ev]] obtain H where
    "lock_run (d_geth d) False H (EvLock (want m) # es) = Some []" "\<forall>k. held k False (made m s) \<longleftrightarrow> k \<in> set H" .
  with m have "Lock_Discipline.rank (want j) < Lock_Discipline.rank (want m)" by (simp add: holds_def split: if_splits)
  moreover have "Lock_Discipline.rank (want m) \<le> ?r" by (rule Max_ge [OF finite_imageI [OF fin] imageI [OF mA]])
  ultimately show False using j(1) by simp
qed

text \<open>A step of the goroutines under way: no new one, and no time passes.\<close>

definition goes_on :: "deps \<Rightarrow> main_state \<Rightarrow> main_state \<Rightarrow> bool" where
  "goes_on d s t \<longleftrightarrow> main_step d s t \<and> phase t = phase s \<and> routines t = routines s"

definition remaining :: "main_state \<Rightarrow> nat" where
  "remaining s = (\<Sum>i \<in> dom (routines s). length (todo s i)) + card (accepted s - replied s)"

lemma act_remaining:
  assumes "runs_inv d s" "todo s i = e # es"
  shows "remaining (s\<lparr>todo := (todo s)(i := es), elog := elog s @ [(i, e)]\<rparr>) < remaining s"
proof -
  have i: "i \<in> dom (routines s)" using runs_invD(1) [OF assms(1), of i] assms(2) by auto
  note fin = runs_invD(3) [OF assms(1)]
  have "(\<Sum>j \<in> dom (routines s). length (((todo s)(i := es)) j)) < (\<Sum>j \<in> dom (routines s). length (todo s j))"
    by (rule sum_strict_mono_ex1 [OF fin]) (use i assms(2) in auto)
  then show ?thesis by (simp add: remaining_def accepted_def replied_def)
qed

lemma answer_remaining:
  assumes "runs_inv d s" "i \<in> accepted s" "i \<notin> replied s"
  shows "remaining (s\<lparr>answers := answers s @ [(i, r)]\<rparr>) < remaining s"
proof -
  have "accepted s \<subseteq> dom (routines s)" by (auto simp: accepted_def)
  with runs_invD(3) [OF assms(1)] have "finite (accepted s - replied s)" by (meson finite_Diff finite_subset)
  moreover have "accepted s - insert i (replied s) \<subset> accepted s - replied s" using assms(2,3) by blast
  ultimately have "card (accepted s - insert i (replied s)) < card (accepted s - replied s)" by (rule psubset_card_mono)
  then show ?thesis by (simp add: remaining_def accepted_def replied_def)
qed

lemma requests_can_end:
  assumes "sd.reach d s" "hex_addresses (d_geth d)" "phase s = Draining n"
  shows "\<exists>t. (goes_on d)\<^sup>*\<^sup>* s t \<and> accepted t \<subseteq> replied t \<and> phase t = Draining n \<and> sd.reach d t"
  using assms(1,3)
proof (induction "remaining s" arbitrary: s rule: less_induct)
  case less
  from sd.reach_inv [OF less.prems(1)] have inv: "runs_inv d s" by (simp add: main_inv_def)
  have run: "running s" using less.prems(2) by (simp add: running_def)
  have step: "\<exists>t. (goes_on d)\<^sup>*\<^sup>* s t \<and> accepted t \<subseteq> replied t \<and> phase t = Draining n \<and> sd.reach d t"
    if u: "main_step d s u" "remaining u < remaining s" "phase u = phase s" "routines u = routines s" for u
  proof -
    from less.hyps [OF u(2) sd.reach_step [OF less.prems(1) u(1)]] u(3) less.prems(2)
    obtain t where "(goes_on d)\<^sup>*\<^sup>* u t" "accepted t \<subseteq> replied t" "phase t = Draining n" "sd.reach d t" by auto
    moreover have "goes_on d s u" using u by (simp add: goes_on_def)
    ultimately show ?thesis by (meson converse_rtranclp_into_rtranclp)
  qed
  show ?case
  proof (cases "\<exists>i. todo s i \<noteq> []")
    case True
    then obtain j e es where j: "todo s j = e # es" "\<forall>k. e = EvLock k \<longrightarrow> (\<forall>m. \<not> holds s m k)"
      using some_routine_acts [OF inv assms(2)] by blast
    show ?thesis by (rule step [OF main_step.act [OF run j] act_remaining [OF inv j(1)]]) simp_all
  next
    case False
    show ?thesis
    proof (cases "accepted s \<subseteq> replied s")
      case False
      then obtain i rq x w r w' where i: "routines s i = Some (Handler rq x w r w')" "i \<in> accepted s" "i \<notin> replied s"
        unfolding accepted_def by blast
      from \<open>\<nexists>i. todo s i \<noteq> []\<close> have "todo s i = []" by blast
      then show ?thesis by (intro step [OF main_step.answer [OF run i(1) _ i(3)] answer_remaining [OF inv i(2,3)]]) simp_all
    qed (use less.prems in blast)
  qed
qed

section \<open>Properties\<close>

lemma goes_on_routines: "(goes_on d)\<^sup>*\<^sup>* s t \<Longrightarrow> routines t = routines s"
  by (induction rule: rtranclp_induct) (simp_all add: goes_on_def)

lemma replied_accepted: "answers_inv s \<Longrightarrow> replied s \<subseteq> accepted s"
  by (fastforce simp: answers_inv_def replied_def accepted_def)

text \<open>
  C12: a graceful shutdown loses no request, with any number of requests and flush goroutines
  interleaved. At any time, an answer given is the one answer of an accepted request, it is the
  response of a run of that request's handler, and every event of this run has happened, in
  order, before. When \<open>Shutdown\<close> returned without an error, every accepted request has been
  answered, and a nonce lock still held is held by a flush goroutine, which nobody waits for.
  And from whatever moment of the draining, the requests under way can all be answered with no
  second passing, so that \<open>Shutdown\<close> returns without an error: the locks they wait for among
  themselves and with the flush goroutines do not stop it.
\<close>

theorem graceful_shutdown:
  assumes "sd.reach d s" "hex_addresses (d_geth d)"
  shows "distinct (map fst (answers s))
    \<and> (\<forall>(i, r) \<in> set (answers s). \<exists>rq x w w'. routines s i = Some (Handler rq x w r w')
         \<and> serve (d\<lparr>d_ext := x\<rparr>) rq w = (r, w') \<and> made i s = new_events w w')
    \<and> (phase s = Exited True \<longrightarrow> replied s = accepted s
         \<and> (\<forall>i k. holds s i k \<longrightarrow> (\<exists>t x w w'. routines s i = Some (Flusher t x w w'))))
    \<and> (\<forall>n. phase s = Draining n \<longrightarrow> (\<exists>t u. (goes_on d)\<^sup>*\<^sup>* s t \<and> main_step d t u
         \<and> phase u = Exited True \<and> routines u = routines s))"
proof (intro conjI allI impI ballI)
  from sd.reach_inv [OF assms(1)] have inv: "phase_inv s" "runs_inv d s" "answers_inv s" by (simp_all add: main_inv_def)
  show "distinct (map fst (answers s))" using inv(3) by (simp add: answers_inv_def)
  have ans: "todo s i = [] \<and> (\<exists>rq x w w'. routines s i = Some (Handler rq x w r w'))" if "(i, r) \<in> set (answers s)" for i r
    using inv(3) that unfolding answers_inv_def by blast
  fix a assume a: "a \<in> set (answers s)"
  obtain i r where ir: "a = (i, r)" by (cases a)
  with ans a obtain rq x w w' where h: "todo s i = []" "routines s i = Some (Handler rq x w r w')" by blast
  with runs_invD(2) [OF inv(2) h(2)] show "case a of (i, r) \<Rightarrow> \<exists>rq x w w'. routines s i = Some (Handler rq x w r w')
         \<and> serve (d\<lparr>d_ext := x\<rparr>) rq w = (r, w') \<and> made i s = new_events w w'" unfolding ir by auto
next
  from sd.reach_inv [OF assms(1)] have inv: "phase_inv s" "runs_inv d s" "answers_inv s" by (simp_all add: main_inv_def)
  assume p: "phase s = Exited True"
  with inv(1) replied_accepted [OF inv(3)] show all: "replied s = accepted s" unfolding phase_inv_def by blast
  fix i k assume h: "holds s i k"
  then obtain a where a: "routines s i = Some a" using runs_invD(1) [OF inv(2), of i] by (cases "routines s i") (auto simp: holds_def)
  show "\<exists>t x w w'. routines s i = Some (Flusher t x w w')"
  proof (cases a)
    case (Handler rq x w r w')
    with a all have "i \<in> replied s" unfolding accepted_def by blast
    with inv(3) have "todo s i = []" unfolding answers_inv_def replied_def by fastforce
    with returned_holds_nothing [OF inv(2) assms(2)] h show ?thesis by blast
  qed (use a in simp)
next
  fix n assume p: "phase s = Draining n"
  from requests_can_end [OF assms p] obtain t where t: "(goes_on d)\<^sup>*\<^sup>* s t" "accepted t \<subseteq> replied t" "phase t = Draining n" by blast
  with main_step.drained [OF t(3,2), of d] goes_on_routines [OF t(1)]
  show "\<exists>t u. (goes_on d)\<^sup>*\<^sup>* s t \<and> main_step d t u \<and> phase u = Exited True \<and> routines u = routines s"
    by (intro exI [of _ t] exI [of _ "t\<lparr>phase := Exited True\<rparr>"]) simp
qed

text \<open>A deposit is under way when the process is told to stop.\<close>

definition deposit_request :: http_request where
  "deposit_request = \<lparr>req_Method = ''POST'', req_Path = [''api'', ''entrypoint'', ''transfer''], req_BodyOk = True,
     req_JSON = \<lambda>n. Some demo_deposit\<rparr>"

lemma deposit_served:
  "\<exists>res w'. serve (demo_deps (mining_ext 1) False) deposit_request pool_world = (GasPoolResp (200, OkBody res), w')"
proof -
  obtain res w' where r: "GasPoolTransfer (demo_deps (mining_ext 1) False) (Some demo_deposit) pool_world = ((200, OkBody res), w')"
    using demo_deposit_run by blast
  have "route ''POST'' [''api'', ''entrypoint'', ''transfer''] = Inr EntrypointTransfer" by code_simp
  with r show ?thesis by (simp add: serve_def deposit_request_def io_simps)
qed

text \<open>One request accepted, and the shutdown begun with all its time.\<close>

definition draining_state :: "goroutine_run \<Rightarrow> flush_task list \<Rightarrow> main_state" where
  "draining_state a ts = \<lparr>listener = Closed, ctxDone = True, phase = Draining shutdownTimeout, routines = [7 \<mapsto> a],
     todo = (\<lambda>_. [])(7 := run_events a), elog = [], tasks = ts, answers = []\<rparr>"

lemma reach_draining:
  assumes "run_of d (Handler rq x w r w')"
  shows "sd.reach d (draining_state (Handler rq x w r w') (left_tasks w w'))"
proof -
  define s0 where "s0 = \<lparr>listener = Starting, ctxDone = False, phase = Serving, routines = Map.empty, todo = (\<lambda>_. []),
     elog = [], tasks = [], answers = []\<rparr>"
  define s1 where "s1 = s0\<lparr>listener := Listening\<rparr>"
  define s2 where "s2 = s1\<lparr>routines := (routines s1)(7 \<mapsto> Handler rq x w r w'), todo := (todo s1)(7 := new_events w w'),
       tasks := tasks s1 @ left_tasks w w'\<rparr>"
  define s3 where "s3 = s2\<lparr>ctxDone := True\<rparr>"
  have "sd.reach d s0" by (rule sd.reach_init) (simp add: main_init_def s0_def)
  then have "sd.reach d s1" by (rule sd.reach_step) (unfold s1_def, rule main_step.listen, simp_all add: s0_def)
  then have "sd.reach d s2"
    by (rule sd.reach_step) (unfold s2_def, rule main_step.accept, use assms in \<open>simp_all add: s1_def s0_def\<close>)
  then have "sd.reach d s3"
    by (rule sd.reach_step) (unfold s3_def, rule main_step.interrupt, simp add: s2_def s1_def s0_def running_def)
  then have "sd.reach d (s3\<lparr>phase := Draining shutdownTimeout, listener := (if listener s3 = Listening then Closed else listener s3)\<rparr>)"
    by (rule sd.reach_step) (rule main_step.shut, simp_all add: s3_def s2_def s1_def s0_def)
  then show ?thesis by (simp add: s3_def s2_def s1_def s0_def draining_state_def)
qed

lemma goes_on_reach: "(goes_on d)\<^sup>*\<^sup>* s t \<Longrightarrow> sd.reach d s \<Longrightarrow> sd.reach d t"
  by (induction rule: rtranclp_induct) (auto simp: goes_on_def intro: sd.reach_step)

theorem graceful_shutdown_witness:
  "\<exists>s u res w'. sd.reach (demo_deps (mining_ext 1) False) s \<and> phase s = Draining shutdownTimeout \<and> answers s = []
     \<and> sd.reach (demo_deps (mining_ext 1) False) u \<and> phase u = Exited True \<and> answers u = [(7, GasPoolResp (200, OkBody res))]
     \<and> made 7 u = new_events pool_world w'"
proof -
  let ?x = "mining_ext 1" let ?d = "demo_deps ?x False"
  obtain res w' where sv: "serve ?d deposit_request pool_world = (GasPoolResp (200, OkBody res), w')" using deposit_served by blast
  let ?a = "Handler deposit_request ?x pool_world (GasPoolResp (200, OkBody res)) w'"
  have d: "?d\<lparr>d_ext := ?x\<rparr> = ?d" by (simp add: demo_deps_def)
  have hex: "hex_addresses (d_geth ?d)" using hex_demo [of ?x] by (simp add: demo_service_def)
  define s where "s = draining_state ?a (left_tasks pool_world w')"
  have s: "sd.reach ?d s" unfolding s_def by (rule reach_draining) (simp add: sv d)
  have ps: "phase s = Draining shutdownTimeout" "answers s = []" "routines s = [7 \<mapsto> ?a]" by (simp_all add: s_def draining_state_def)
  from graceful_shutdown [OF s hex] ps(1) obtain t u where u: "(goes_on ?d)\<^sup>*\<^sup>* s t" "main_step ?d t u"
    "phase u = Exited True" "routines u = routines s" by blast
  have ru: "sd.reach ?d u" by (rule sd.reach_step [OF goes_on_reach [OF u(1) s] u(2)])
  from graceful_shutdown [OF ru hex] u(3) have g: "distinct (map fst (answers u))" "replied u = accepted u"
    "\<forall>(i, r) \<in> set (answers u). \<exists>rq x w w'. routines u i = Some (Handler rq x w r w') \<and> made i u = new_events w w'" by blast+
  have "accepted u = {7}" unfolding accepted_def u(4) ps(3) by (auto split: if_splits)
  with g(2) have f: "fst ` set (answers u) = {7}" by (simp add: replied_def)
  with g(1) have "length (answers u) = 1" by (metis card.empty card.insert distinct_card empty_iff finite.emptyI length_map list.set_map One_nat_def)
  then obtain i r where one: "answers u = [(i, r)]" by (auto simp: length_Suc_conv)
  with f have i: "i = 7" by simp
  with g(3) one u(4) ps(3) have "r = GasPoolResp (200, OkBody res)" "made 7 u = new_events pool_world w'" by auto
  with s ps ru u(3) one i show ?thesis by blast
qed

text \<open>
  The timeout is shorter than the waits of the handlers for their transactions. When it passes
  first, the process exits under a request: the request is never answered.
\<close>

lemma shutdown_abandons:
  assumes "run_of d (Handler rq x w r w')"
  shows "1000 * int shutdownTimeout < min txWaitTimeoutMs managedTxWaitTimeoutMs
     \<and> (\<exists>s. sd.reach d s \<and> phase s = Exited False \<and> accepted s = {7} \<and> replied s = {})"
proof
  show "1000 * int shutdownTimeout < min txWaitTimeoutMs managedTxWaitTimeoutMs"
    by (simp add: shutdownTimeout_def txWaitTimeoutMs_def managedTxWaitTimeoutMs_def)
  define s where "s = draining_state (Handler rq x w r w') (left_tasks w w')"
  have "sd.reach d (s\<lparr>phase := Draining (shutdownTimeout - k)\<rparr>)" if "k \<le> shutdownTimeout" for k
    using that
  proof (induction k)
    case 0
    have "s\<lparr>phase := Draining shutdownTimeout\<rparr> = s" by (simp add: s_def draining_state_def)
    with reach_draining [OF assms] show ?case by (simp add: s_def)
  next
    case (Suc k)
    let ?t = "s\<lparr>phase := Draining (shutdownTimeout - k)\<rparr>"
    have "phase ?t = Draining (Suc (shutdownTimeout - Suc k))" using Suc.prems by simp
    from sd.reach_step [OF Suc.IH main_step.second [OF this]] Suc.prems show ?case by simp
  qed
  from this [of shutdownTimeout] have "sd.reach d (s\<lparr>phase := Draining 0\<rparr>)" by simp
  from sd.reach_step [OF this main_step.overdue] have "sd.reach d (s\<lparr>phase := Exited False\<rparr>)" by simp
  moreover have "accepted (s\<lparr>phase := Exited False\<rparr>) = {7}" "replied (s\<lparr>phase := Exited False\<rparr>) = {}"
    by (auto simp: s_def draining_state_def accepted_def replied_def split: if_splits)
  ultimately show "\<exists>s. sd.reach d s \<and> phase s = Exited False \<and> accepted s = {7} \<and> replied s = {}" by auto
qed

text \<open>How many steps of its own the process needs at most until it exits.\<close>

definition countdown :: "main_state \<Rightarrow> nat" where
  "countdown s = (case phase s of Serving \<Rightarrow> shutdownTimeout + 2 | Draining n \<Rightarrow> Suc n | Exited _ \<Rightarrow> 0)"

text \<open>
  After a signal or a failure to listen the process exits within the timeout, whatever the
  requests do: from then on it always has a step that brings the exit nearer, at most twelve of
  them, one per second of the timeout, and no other step delays it or accepts a request once the
  shutdown has begun.
\<close>

theorem main_exits:
  assumes "sd.reach d s" "ctxDone s" "running s"
  shows "(\<exists>t. main_step d s t \<and> countdown t < countdown s) \<and> countdown s \<le> shutdownTimeout + 2
    \<and> (\<forall>t. main_step d s t \<longrightarrow> countdown t \<le> countdown s \<and> ctxDone t
         \<and> (phase s \<noteq> Serving \<longrightarrow> accepted t = accepted s))"
proof (intro conjI allI impI)
  from sd.reach_inv [OF assms(1)] have inv: "phase_inv s" by (simp add: main_inv_def)
  then show "countdown s \<le> shutdownTimeout + 2"
    by (auto simp: countdown_def phase_inv_def le_Suc_eq split: main_phase.split)
  show "\<exists>t. main_step d s t \<and> countdown t < countdown s"
  proof (cases "phase s")
    case Serving
    then have "countdown (s\<lparr>phase := Draining shutdownTimeout, listener := l\<rparr>) < countdown s" for l
      by (simp add: countdown_def)
    with main_step.shut [OF Serving assms(2), of d] show ?thesis by blast
  next
    case (Draining n)
    show ?thesis
    proof (cases n)
      case 0
      with Draining have "countdown (s\<lparr>phase := Exited False\<rparr>) < countdown s" by (simp add: countdown_def)
      with main_step.overdue [OF Draining [unfolded 0], of d] show ?thesis by blast
    next
      case (Suc k)
      with Draining have "countdown (s\<lparr>phase := Draining k\<rparr>) < countdown s" by (simp add: countdown_def)
      with main_step.second [OF Draining [unfolded Suc], of d] show ?thesis by blast
    qed
  qed (use assms(3) in \<open>simp add: running_def\<close>)
  fix t assume st: "main_step d s t"
  show "countdown t \<le> countdown s" using st by cases (auto simp: countdown_def split: main_phase.split)
  show "ctxDone t" using st assms(2) by cases auto
  show "accepted t = accepted s" if "phase s \<noteq> Serving"
    using st that inv by cases (auto simp: phase_inv_def accepted_def)
qed

end
