(* ===== verification/Spec2Isabelle.thy ===== *)
theory Spec2Isabelle
  imports Nonce_Protocol Client_Protocol Batch_Protocol Shutdown
begin

text \<open>
  Verification of the stablecoin bundler: an HTTP server that bundles ERC-4337 user operations
  and sends transactions from hot wallets, written in Go. The development models \<open>cmd/bundler\<close>
  and every package under \<open>internal\<close>.

  \<^bold>\<open>The program.\<close> \<open>cmd/bundler/main.go\<close> reads the environment, assembles the shared dependencies
  \<open>core.Deps\<close> (chain registry, RPC client cache, signers, nonce lock) and registers the handlers
  of five domains: JSON-RPC for user operations (\<open>userop\<close>), transfers (\<open>transfer\<close>), payer-funded
  splits (\<open>split\<close>), account deployment (\<open>deploy\<close>) and the gas pool (\<open>entrypoint\<close>). Every
  transaction of a wallet is sent inside a critical section of the wallet's nonce lock, a local
  mutex with a redis lock around it. User operations of all domains go through the batcher of
  their chain. Failures are classified by \<open>txerror\<close> and answered by \<open>httpx\<close>.

  \<^bold>\<open>How the model is built.\<close> Functions that only compute are HOL functions. Functions with effects
  are functions on \<open>World.world\<close>, which holds what the components share and mutate (cursors, key
  pools, server keys, clients, queues) and the trace of all calls to external systems. An external
  system (node, redis, key store, KMS, clock, random source, scheduler) is a field of \<open>World.ext\<close>:
  any function from the trace so far and the arguments to a response. The go-ethereum library is
  the record \<open>Ethereum.geth\<close> of functions about which nothing is assumed, except where a
  theorem names a documented law. A Go error is a \<open>go_error\<close>, a pair of result and error a sum; where
  the code uses both parts, a pair. 64-bit integers are words; \<open>big.Int\<close> is \<open>int\<close>; float64 is
  a mantissa with an exponent and rounding to even.

  \<^bold>\<open>Theories.\<close>
  \<^item> \<open>Prelude\<close>, \<open>GoStrings\<close>, \<open>Ethereum\<close>, \<open>World\<close>: errors and the io functions, the string and number
    functions of Go's standard library, the data of go-ethereum, the world and its traces;
    \<open>asks\<close>, \<open>appends\<close>, \<open>runs\<close> and \<open>keeps\<close> state what a function may do. The locale
    \<open>http_handler\<close> is the contract of a request handler.
  \<^item> \<open>TxError\<close>: \<open>platform/txerror\<close> and \<open>platform/httpx\<close>. The error contract: one category with its
    status, code and retry flag for every error. \<open>Regexp\<close>: the part of \<open>regexp\<close> that the
    revert-code pattern uses, with parser and semantics; the scanner of \<open>TxError\<close> is proved against it.
  \<^item> \<open>Chain\<close>: \<open>chain\<close>, the registry over an injected environment.
  \<^item> \<open>Locker\<close>: \<open>platform/redis\<close>, the nonce lock and the round-robin cursor, with the locales
    \<open>nonce_lock\<close> and \<open>round_robin\<close>. \<open>Lock_Protocol\<close>: the same lock as a step relation of
    goroutines of several processes on one key, with failing redis calls, cancellation and the
    wait for the local mutex, and, as \<open>local_step\<close>, without redis. \<open>slow\<close> allows the key to expire
    under its owner: exclusion holds without it and fails with it. \<open>Nonce_Protocol\<close> adds the nonces that
    critical sections read and use and a node that accepts gaps and replacements: without early
    expiry the nonces are successive over all processes, except for the retry of a settlement (\<open>retry\<close>),
    which can leave a gap.
  \<^item> \<open>Json\<close>: decoding into structs and interface values. \<open>Evm\<close>: \<open>evm\<close>, numbers, hex, fees, gas
    limits with 64-bit wrap-around, broadcasting and the polling of receipts.
  \<^item> \<open>Kms\<close>: \<open>platform/kms\<close>. \<open>Signer\<close>: \<open>signer\<close>, key loading and the caches of pools and server
    keys, which are instances of the locale \<open>lazy_cache\<close>.
  \<^item> \<open>Core\<close>: \<open>platform/ethclient\<close> and \<open>core\<close>, the managed transaction. \<open>serializes\<close> says that all
    transactions of a run are sent under one lock with nonces read inside it. \<open>Client_Protocol\<close>:
    goroutines that race for the client cache, as steps that run its definitions.
  \<^item> \<open>Batcher\<close>: \<open>userop/batcher.go\<close> as the caller of \<open>Enqueue\<close> sees it; what a flush goroutine
    still does when the caller has its answer is left in the field \<open>detached\<close> of the world. \<open>Batch_Protocol\<close>: the
    channels, dispatcher and concurrent flushes as a step relation, refined to an abstract queue.
    \<open>UserOp\<close>: \<open>userop\<close>, the JSON-RPC interface.
  \<^item> \<open>UserOpFee\<close>, \<open>Transfers\<close>: \<open>transfer\<close>. \<open>Split\<close>: \<open>split\<close>, with
    \<open>Split_Section\<close> on its critical section and \<open>Split_Outcome\<close> on the settlement as a whole.
    \<open>Deploy\<close>: \<open>deploy\<close>. \<open>GasPool\<close>: \<open>entrypoint\<close>, with the calendar behind its timestamps.
  \<^item> \<open>Server\<close>: \<open>cmd/bundler\<close>, \<open>platform/env\<close> and \<open>platform/logger\<close>; \<open>serve\<close> handles one request.
  \<^item> \<open>Lock_Discipline\<close>: a triple \<open>locked\<close> with rules for the functions of the model; a run takes locks in
    rank order, releases all it took, and sends transactions only under the lock of their signer.
    \<open>Lock_Order\<close>: all requests and flush goroutines keep this discipline, and requests cannot deadlock.
  \<^item> \<open>Shutdown\<close>: the life of the process as a step relation, from listening to the end of \<open>main\<close>.
    Handlers and flush goroutines interleave event by event, each along a run of its code (\<open>run_of\<close>).

  A definition has the name of the function or type it models. Closures and parts of long
  functions have names of their own (\<open>managedTx\<close>, \<open>walletTx\<close>, \<open>accountTx\<close>, \<open>splitSection\<close>,
  \<open>sendSettlement\<close>, \<open>approve\<close>); a handler is split into the check of the request and its
  performance (\<open>checkDeploy\<close>, \<open>performDeploy\<close>).

  \<^bold>\<open>What is shown.\<close> For each domain: a request answered with 200 did what was asked, as the trace
  shows; 400 means nothing was touched; every other status is one of the error contract. For
  submissions: they are made under the wallet's lock with a fresh nonce; a withdrawal carries both
  signatures over exactly its nonce and call; a split is sent only after the contract confirmed its digest,
  and approvals only when needed. For the protocols: exclusion, release by the owner only,
  termination of a call under way; every accepted operation is in one place and can be answered; no
  RPC client is leaked or handed out closed. For the whole server: locks are taken in order, all
  are released, no set of requests deadlocks, a graceful shutdown leaves no request
  unanswered, and nothing the goroutines do to each other keeps it from being graceful.

  \<^bold>\<open>Bounds.\<close> There is no fuel, except for the depth of the pattern parser, \<open>3 * length p + 3\<close>, with
  which the pattern is proved to compile: the retry loop of the lock runs \<open>retryCount\<close> times as in the code,
  a poll as many times as its clock ticks, and \<open>drain\<close> is bounded by what the channel holds. Pools
  are assumed to have fewer than \<open>2 ^ 63\<close> wallets where the conversion of their length matters.

  \<^bold>\<open>Not modelled.\<close> The parsing of JSON text (a body arrives as a tree, or as no JSON), ABI encoding,
  hashing and signatures (fields of \<open>geth\<close>; contract ABIs appear as method names), the environment parser,
  SQL, HTTP transport, and the log lines that the functions write. Contexts appear only where a
  \<open>select\<close> or a call can end with their error. Of concurrency, the protocols where goroutines interact (lock, nonces, client cache, batcher,
  requests and flushes under a shutdown) are modelled as step relations. Elsewhere another
  goroutine's effect on the shared caches is not interleaved with a run; \<open>Shutdown\<close> lets a
  run find any state and any answers, so that it covers what others do to it. The deferred closing
  of the clients at the end of \<open>main\<close> is a step of \<open>Client_Protocol\<close>.
\<close>

end
